(* ===== verification/Prelude.thy ===== *)
theory Prelude
  imports Main "HOL-Library.Multiset" "HOL-Library.Char_ord" "HOL-Library.List_Lexorder"
    "HOL-Library.Product_Lexorder"
begin

text \<open>
  Shared vocabulary of the DASS development: the names of the scalar types, the exceptions the
  Python code can raise as values of one sum type, the result type of code that may raise, and
  the generic facts about tables of keyed rows and about lists that every component uses.

  A point in time is a number of microseconds since the epoch, in UTC (Python's
  \<open>datetime\<close> has microsecond resolution). A \<open>timedelta\<close> of \<open>n\<close> seconds is
  \<open>seconds n\<close>.  Identifiers are the canonical string form \<open>str(uuid)\<close>; strings and
  pairs are ordered lexicographically, as Python orders them.
\<close>

type_synonym time = int
type_synonym uuid = string

definition seconds :: "int \<Rightarrow> time" where
  "seconds n = n * 1000000"

subsection \<open>Exceptions and results\<close>

datatype error =
    HTTPException nat string
  | ValidationError
  | IntegrityError
  | StaleDataError
  | KeyError string
  | TypeError
  | ValueError
  | AttributeError
  | CroniterBadDateError
  | QueueDoesNotExist
  | QueueError
  | DockerException

type_synonym 'a result = "error + 'a"

text \<open>The collections the component proofs draw on.\<close>

named_theorems rows_simps \<open>rewriting of lookups and updates on tables of rows\<close>
named_theorems wf_intros \<open>operations that keep the well-formedness of the database\<close>
named_theorems frame_simps \<open>parts of the state an operation leaves alone\<close>

subsection \<open>Tables of rows with a key\<close>

text \<open>
  A table is the list of its rows; \<open>find_row key k\<close> is \<open>SELECT\<close> by primary key and
  \<open>update_row key k f\<close> is \<open>UPDATE ... WHERE key = k\<close>.
\<close>

definition find_row :: "('r \<Rightarrow> 'k) \<Rightarrow> 'k \<Rightarrow> 'r list \<Rightarrow> 'r option" where
  "find_row key k rows = List.find (\<lambda>r. key r = k) rows"

definition update_row :: "('r \<Rightarrow> 'k) \<Rightarrow> 'k \<Rightarrow> ('r \<Rightarrow> 'r) \<Rightarrow> 'r list \<Rightarrow> 'r list" where
  "update_row key k f rows = map (\<lambda>r. if key r = k then f r else r) rows"

lemma find_row_Nil [rows_simps, simp]: "find_row key k [] = None"
  by (simp add: find_row_def)

lemma find_row_Cons [rows_simps, simp]:
  "find_row key k (r # rows) = (if key r = k then Some r else find_row key k rows)"
  by (simp add: find_row_def)

lemma update_row_Nil [rows_simps, simp]: "update_row key k f [] = []"
  by (simp add: update_row_def)

lemma update_row_Cons [rows_simps, simp]:
  "update_row key k f (r # rows) = (if key r = k then f r else r) # update_row key k f rows"
  by (simp add: update_row_def)

lemma find_row_SomeD: "find_row key k rows = Some r \<Longrightarrow> r \<in> set rows \<and> key r = k"
  by (induction rows) (auto split: if_splits)

lemma find_row_None_iff [rows_simps]: "find_row key k rows = None \<longleftrightarrow> k \<notin> key ` set rows"
  by (induction rows) auto

lemma find_row_Some_iff:
  "distinct (map key rows) \<Longrightarrow> find_row key k rows = Some r \<longleftrightarrow> r \<in> set rows \<and> key r = k"
  by (induction rows) (auto simp: find_row_None_iff image_iff)

lemma find_row_append [rows_simps]:
  "find_row key k (xs @ ys) =
     (case find_row key k xs of None \<Rightarrow> find_row key k ys | Some r \<Rightarrow> Some r)"
  by (induction xs) auto

lemma find_row_update_row [rows_simps]:
  assumes "\<And>r. key r = k \<Longrightarrow> key (f r) = k"
  shows "find_row key k' (update_row key k f rows) =
    (if k' = k then map_option f (find_row key k rows) else find_row key k' rows)"
  using assms by (induction rows) auto

lemma find_row_filter_key [rows_simps]:
  "find_row key k (filter (\<lambda>r. key r \<noteq> k') rows) = (if k = k' then None else find_row key k rows)"
  by (induction rows) auto

lemma map_key_update_row [rows_simps]:
  assumes "\<And>r. key r = k \<Longrightarrow> key' (f r) = key' r"
  shows "map key' (update_row key k f rows) = map key' rows"
  using assms by (induction rows) auto

lemma length_update_row [rows_simps, simp]: "length (update_row key k f rows) = length rows"
  by (simp add: update_row_def)

lemma update_row_update_row [rows_simps]:
  assumes "\<And>r. key r = k \<Longrightarrow> key (f r) = k"
  shows "update_row key k g (update_row key k f rows) = update_row key k (\<lambda>r. g (f r)) rows"
  using assms by (induction rows) auto

lemma update_row_append [rows_simps]:
  "update_row key k f (xs @ ys) = update_row key k f xs @ update_row key k f ys"
  by (simp add: update_row_def)

lemma set_update_row:
  "set (update_row key k f rows) =
     {r \<in> set rows. key r \<noteq> k} \<union> f ` {r \<in> set rows. key r = k}"
  by (induction rows) auto

lemma update_row_absent [rows_simps]:
  "k \<notin> key ` set rows \<Longrightarrow> update_row key k f rows = rows"
  by (induction rows) auto

lemma in_update_rowE:
  assumes "r \<in> set (update_row key k f rows)"
  obtains "r \<in> set rows" "key r \<noteq> k" | r' where "r' \<in> set rows" "key r' = k" "r = f r'"
  using assms by (auto simp: set_update_row)

lemma find_row_in_keys: "k \<in> key ` set rows \<Longrightarrow> \<exists>r. find_row key k rows = Some r"
  by (metis find_row_None_iff option.exhaust)

lemma not_in_imageD: "k \<notin> f ` A \<Longrightarrow> x \<in> A \<Longrightarrow> f x \<noteq> k"
  by blast

lemma keys_update_row [rows_simps]:
  assumes "\<And>r. key r = k \<Longrightarrow> key (f r) = k"
  shows "key ` set (update_row key k f rows) = key ` set rows"
proof -
  have "map key (update_row key k f rows) = map key rows"
    using assms by (intro map_key_update_row) auto
  then show ?thesis by (metis list.set_map)
qed

subsection \<open>Lists\<close>

lemma sort_key_neg_mono:
  fixes f :: "'a \<Rightarrow> int"
  assumes "i \<le> j" "j < length xs"
  shows "f (sort_key (\<lambda>x. - f x) xs ! j) \<le> f (sort_key (\<lambda>x. - f x) xs ! i)"
proof -
  have "sorted (map (\<lambda>x. - f x) (sort_key (\<lambda>x. - f x) xs))" by simp
  then have "map (\<lambda>x. - f x) (sort_key (\<lambda>x. - f x) xs) ! i \<le> map (\<lambda>x. - f x) (sort_key (\<lambda>x. - f x) xs) ! j"
    using assms by (intro sorted_nth_mono) auto
  then show ?thesis using assms by simp
qed

lemma sort_key_hd_min:
  fixes f :: "'a \<Rightarrow> 'b::linorder"
  assumes "sort_key f xs = y # ys" "x \<in> set xs"
  shows "f y \<le> f x"
proof -
  have "x \<in> set (y # ys)" using assms by (metis set_sort)
  moreover have "sorted (map f (y # ys))" using assms(1) by (metis sorted_sort_key)
  ultimately show ?thesis by auto
qed

end
