(* ===== verification/Pystr.thy ===== *)
theory Pystr
  imports Prelude
begin

text \<open>
  The Python string and JSON operations the code relies on. Strings are ASCII: \<open>lower\<close> and
  \<open>upper\<close> change the letters A-Z and a-z only. A JSON value is what \<open>json.loads\<close> returns;
  an object keeps the insertion order of its keys, and a float carries the two observations the
  code makes of it, its \<open>repr\<close> and its truncation by \<open>int()\<close> (none for infinities and NaN).
\<close>

subsection \<open>Characters and strings\<close>

abbreviation ord_of :: "char \<Rightarrow> nat" where
  "ord_of c \<equiv> of_char c"

abbreviation chr_of :: "nat \<Rightarrow> char" where
  "chr_of n \<equiv> char_of n"

definition is_space :: "char \<Rightarrow> bool" where
  "is_space c = (let n = ord_of c in (9 \<le> n \<and> n \<le> 13) \<or> (28 \<le> n \<and> n \<le> 32))"

definition is_digit :: "char \<Rightarrow> bool" where
  "is_digit c = (let n = ord_of c in 48 \<le> n \<and> n \<le> 57)"

definition is_alpha :: "char \<Rightarrow> bool" where
  "is_alpha c = (let n = ord_of c in (65 \<le> n \<and> n \<le> 90) \<or> (97 \<le> n \<and> n \<le> 122))"

definition strip :: "string \<Rightarrow> string" where
  "strip s = rev (dropWhile is_space (rev (dropWhile is_space s)))"

definition lower_char :: "char \<Rightarrow> char" where
  "lower_char c = (let n = ord_of c in if 65 \<le> n \<and> n \<le> 90 then chr_of (n + 32) else c)"

definition upper_char :: "char \<Rightarrow> char" where
  "upper_char c = (let n = ord_of c in if 97 \<le> n \<and> n \<le> 122 then chr_of (n - 32) else c)"

definition lower :: "string \<Rightarrow> string" where
  "lower s = map lower_char s"

definition upper :: "string \<Rightarrow> string" where
  "upper s = map upper_char s"

text \<open>\<open>s.split(c)\<close> for a one-character separator: never empty, and joining gives \<open>s\<close> back.\<close>

fun split_on :: "char \<Rightarrow> string \<Rightarrow> string list" where
  "split_on c [] = [[]]"
| "split_on c (x # xs) =
     (if x = c then [] # split_on c xs
      else (case split_on c xs of [] \<Rightarrow> [[x]] | y # ys \<Rightarrow> (x # y) # ys))"

text \<open>\<open>needle in hay\<close>.\<close>

fun is_prefix :: "string \<Rightarrow> string \<Rightarrow> bool" where
  "is_prefix [] s = True"
| "is_prefix (x # xs) [] = False"
| "is_prefix (x # xs) (y # ys) = (x = y \<and> is_prefix xs ys)"

fun contains :: "string \<Rightarrow> string \<Rightarrow> bool" where
  "contains needle [] = (needle = [])"
| "contains needle (x # xs) = (is_prefix needle (x # xs) \<or> contains needle xs)"

text \<open>Decimal output of integers, and \<open>int(s)\<close>: surrounding space, a sign, single underscores
  between digits.\<close>

fun show_nat :: "nat \<Rightarrow> string" where
  "show_nat n = (if n < 10 then [chr_of (48 + n)] else show_nat (n div 10) @ [chr_of (48 + n mod 10)])"

declare show_nat.simps [simp del]

definition show_int :: "int \<Rightarrow> string" where
  "show_int i = (if i < 0 then CHR ''-'' # show_nat (nat (- i)) else show_nat (nat i))"

fun digits_val :: "nat \<Rightarrow> bool \<Rightarrow> string \<Rightarrow> nat option" where
  "digits_val a after_digit [] = (if after_digit then Some a else None)"
| "digits_val a after_digit (c # cs) =
     (if is_digit c then digits_val (10 * a + (ord_of c - 48)) True cs
      else if c = CHR ''_'' \<and> after_digit then digits_val a False cs
      else None)"

definition int_of_str :: "string \<Rightarrow> int option" where
  "int_of_str s =
     (case strip s of
        [] \<Rightarrow> None
      | c # cs \<Rightarrow>
          if c = CHR ''-'' then map_option (\<lambda>n. - int n) (digits_val 0 False cs)
          else if c = CHR ''+'' then map_option int (digits_val 0 False cs)
          else map_option int (digits_val 0 False (c # cs)))"

subsection \<open>JSON values\<close>

datatype json =
    JNull
  | JBool bool
  | JInt int
  | JFloat string "int option"
  | JStr string
  | JArr "json list"
  | JObj "(string \<times> json) list"

text \<open>\<open>d.get(k)\<close> on an object.\<close>

definition jget :: "string \<Rightarrow> (string \<times> json) list \<Rightarrow> json option" where
  "jget k kvs = map_of kvs k"

text \<open>\<open>d[k] = v\<close>: a key keeps the place of its first insertion.\<close>

fun dict_set :: "'k \<Rightarrow> 'v \<Rightarrow> ('k \<times> 'v) list \<Rightarrow> ('k \<times> 'v) list" where
  "dict_set k v [] = [(k, v)]"
| "dict_set k v (kv # kvs) = (if fst kv = k then (k, v) # kvs else kv # dict_set k v kvs)"

text \<open>\<open>json.dumps\<close> with its defaults: \<open>ensure_ascii\<close>, separators comma-space and colon-space.\<close>

definition hex_digit :: "nat \<Rightarrow> char" where
  "hex_digit n = (if n < 10 then chr_of (48 + n) else chr_of (87 + n))"

definition hex_val :: "char \<Rightarrow> nat option" where
  "hex_val c =
     (let n = ord_of c in
      if 48 \<le> n \<and> n \<le> 57 then Some (n - 48)
      else if 97 \<le> n \<and> n \<le> 102 then Some (n - 87)
      else if 65 \<le> n \<and> n \<le> 70 then Some (n - 55)
      else None)"

lemma hex_val_digit [simp]: "d < 16 \<Longrightarrow> hex_val (hex_digit d) = Some d"
  by (auto simp: hex_val_def hex_digit_def Let_def)

definition u_escape :: "nat \<Rightarrow> string" where
  "u_escape n = [chr_of 92, CHR ''u'', CHR ''0'', CHR ''0'', hex_digit (n div 16), hex_digit (n mod 16)]"

definition json_escape :: "char \<Rightarrow> string" where
  "json_escape c =
     (let n = ord_of c in
      if n = 34 then [chr_of 92, chr_of 34]
      else if n = 92 then [chr_of 92, chr_of 92]
      else if n = 10 then [chr_of 92, CHR ''n'']
      else if n = 13 then [chr_of 92, CHR ''r'']
      else if n = 9 then [chr_of 92, CHR ''t'']
      else if n = 12 then [chr_of 92, CHR ''f'']
      else if n = 8 then [chr_of 92, CHR ''b'']
      else if 32 \<le> n \<and> n \<le> 126 then [c]
      else u_escape n)"

definition json_quote :: "string \<Rightarrow> string" where
  "json_quote s = chr_of 34 # concat (map json_escape s) @ [chr_of 34]"

fun join :: "string \<Rightarrow> string list \<Rightarrow> string" where
  "join sep [] = []"
| "join sep [x] = x"
| "join sep (x # y # zs) = x @ sep @ join sep (y # zs)"

fun json_dumps :: "json \<Rightarrow> string" where
  "json_dumps JNull = ''null''"
| "json_dumps (JBool b) = (if b then ''true'' else ''false'')"
| "json_dumps (JInt i) = show_int i"
| "json_dumps (JFloat r n) = r"
| "json_dumps (JStr s) = json_quote s"
| "json_dumps (JArr vs) = ''['' @ join '', '' (map json_dumps vs) @ '']''"
| "json_dumps (JObj kvs) =
     ''{'' @ join '', '' (map (\<lambda>kv. json_quote (fst kv) @ '': '' @ json_dumps (snd kv)) kvs) @ ''}''"

text \<open>\<open>str(v)\<close> and \<open>repr(v)\<close>.\<close>

definition repr_char :: "char \<Rightarrow> char \<Rightarrow> string" where
  "repr_char q c =
     (let n = ord_of c in
      if c = q \<or> n = 92 then [chr_of 92, c]
      else if n = 10 then [chr_of 92, CHR ''n'']
      else if n = 13 then [chr_of 92, CHR ''r'']
      else if n = 9 then [chr_of 92, CHR ''t'']
      else if 32 \<le> n \<and> n \<le> 126 then [c]
      else [chr_of 92, CHR ''x'', hex_digit (n div 16), hex_digit (n mod 16)])"

definition repr_str :: "string \<Rightarrow> string" where
  "repr_str s =
     (let q = (if chr_of 39 \<in> set s \<and> chr_of 34 \<notin> set s then chr_of 34 else chr_of 39)
      in q # concat (map (repr_char q) s) @ [q])"

fun py_repr :: "json \<Rightarrow> string" where
  "py_repr JNull = ''None''"
| "py_repr (JBool b) = (if b then ''True'' else ''False'')"
| "py_repr (JInt i) = show_int i"
| "py_repr (JFloat r n) = r"
| "py_repr (JStr s) = repr_str s"
| "py_repr (JArr vs) = ''['' @ join '', '' (map py_repr vs) @ '']''"
| "py_repr (JObj kvs) =
     ''{'' @ join '', '' (map (\<lambda>kv. repr_str (fst kv) @ '': '' @ py_repr (snd kv)) kvs) @ ''}''"

definition py_str :: "json \<Rightarrow> string" where
  "py_str v = (case v of JStr s \<Rightarrow> s | _ \<Rightarrow> py_repr v)"

text \<open>\<open>int(v)\<close>.\<close>

definition py_int :: "json \<Rightarrow> int result" where
  "py_int v =
     (case v of
        JInt i \<Rightarrow> Inr i
      | JBool b \<Rightarrow> Inr (if b then 1 else 0)
      | JFloat r (Some i) \<Rightarrow> Inr i
      | JFloat r None \<Rightarrow> Inl ValueError
      | JStr s \<Rightarrow> (case int_of_str s of Some i \<Rightarrow> Inr i | None \<Rightarrow> Inl ValueError)
      | _ \<Rightarrow> Inl TypeError)"

subsection \<open>Facts\<close>

lemma split_on_not_Nil [simp]: "split_on c s \<noteq> []"
  by (induction s) (auto split: list.splits)

lemma is_prefix_iff: "is_prefix p s \<longleftrightarrow> (\<exists>t. s = p @ t)"
  by (induction p s rule: is_prefix.induct) auto

lemma contains_iff: "contains n s \<longleftrightarrow> (\<exists>a b. s = a @ n @ b)"
proof (induction s)
  case Nil
  then show ?case by auto
next
  case (Cons x xs)
  have "(\<exists>a b. x # xs = a @ n @ b) \<longleftrightarrow> (\<exists>b. x # xs = n @ b) \<or> (\<exists>a b. xs = a @ n @ b)"
    by (metis append_Cons append_Nil list.exhaust list.sel(3))
  then show ?case using Cons.IH by (auto simp: is_prefix_iff)
qed

lemma length_lower [simp]: "length (lower s) = length s"
  by (simp add: lower_def)

lemma dropWhile_hd: "s \<noteq> [] \<Longrightarrow> \<not> P (hd s) \<Longrightarrow> dropWhile P s = s"
  by (cases s) auto

lemma strip_id: "\<forall>c \<in> set s. \<not> is_space c \<Longrightarrow> strip s = s"
  by (cases "s = []") (simp_all add: strip_def dropWhile_hd hd_rev)

lemma strip_no_space: "strip s \<noteq> [] \<Longrightarrow> \<not> is_space (hd (strip s)) \<and> \<not> is_space (last (strip s))"
proof -
  assume ne: "strip s \<noteq> []"
  let ?t = "dropWhile is_space s"
  have l: "\<not> is_space (last (strip s))"
    using ne by (simp add: strip_def last_rev hd_dropWhile)
  have "\<exists>u. ?t = strip s @ u"
    by (metis rev_append rev_rev_ident strip_def takeWhile_dropWhile_id)
  then obtain u where u: "?t = strip s @ u" ..
  then have "hd ?t = hd (strip s)" and "?t \<noteq> []" using ne by auto
  then have "\<not> is_space (hd (strip s))" by (metis hd_dropWhile)
  with l show ?thesis by simp
qed

end
