(* ===== verification/Models.thy ===== *)
theory Models
  imports Pystr
begin

text \<open>
  The tables of \<open>app/models\<close> and the request schemas of \<open>app/schemas\<close>. A row is a record with
  the columns of the model class; the database is its three tables, with \<open>job_dependencies\<close> as
  the list of (upstream, downstream) pairs.  \<open>db_wf\<close> collects what the table constraints
  promise (primary keys, the unique job name, the foreign keys) together with the two facts the
  services maintain on top of them: the schedule columns of a job agree with its type, and the
  lock columns of a task agree with its status.

  The \<open>world\<close> is everything a process can touch: the database, the three queues, and the two
  sources of values that differ from call to call, the clock and the generator of
  \<open>uuid4\<close>; each reading takes the next element of a stream.
\<close>

subsection \<open>Jobs\<close>

datatype job_type = normal | scheduled

datatype concurrency_policy = allow | forbid | replace

record job =
  jid :: uuid
  name :: string
  job_type :: job_type
  cron_expression :: "string option"
  action_type :: string
  action_config :: json
  runtime_spec :: "json option"
  enabled :: bool
  concurrency_policy :: concurrency_policy
  max_retries :: int
  next_fire_at :: "time option"
  jcreated_at :: time
  updated_at :: time

subsection \<open>Tasks\<close>

datatype status = pending | running | success | failed | final_failed

datatype trigger_type = manual | by_schedule | dependency

record task =
  tid :: uuid
  task_job_id :: uuid
  status :: status
  trigger_type :: trigger_type
  retry_count :: int
  locked_by :: "string option"
  locked_until :: "time option"
  started_at :: "time option"
  finished_at :: "time option"
  stdout :: "string option"
  stderr :: "string option"
  tcreated_at :: time
  processed_for_chaining :: bool

text \<open>\<open>Task(job_id=..., status="pending", trigger_type=..., retry_count=...)\<close> once inserted: the
  primary key comes from \<open>uuid4\<close>, \<open>created_at\<close> from the server, every other column
  from its default.\<close>

definition new_task :: "uuid \<Rightarrow> uuid \<Rightarrow> trigger_type \<Rightarrow> int \<Rightarrow> time \<Rightarrow> task" where
  "new_task i j trig n t =
     \<lparr>tid = i, task_job_id = j, status = pending, trigger_type = trig, retry_count = n,
      locked_by = None, locked_until = None, started_at = None, finished_at = None,
      stdout = None, stderr = None, tcreated_at = t, processed_for_chaining = False\<rparr>"

subsection \<open>The database\<close>

record database =
  jobs :: "job list"
  tasks :: "task list"
  job_dependencies :: "(uuid \<times> uuid) list"

definition job_ids :: "database \<Rightarrow> uuid set" where
  "job_ids d = jid ` set (jobs d)"

definition task_ids :: "database \<Rightarrow> uuid set" where
  "task_ids d = tid ` set (tasks d)"

text \<open>The relationships \<open>Job.upstream_jobs\<close> and \<open>Job.downstream_jobs\<close>, through the secondary table.\<close>

definition upstream_job_ids :: "database \<Rightarrow> uuid \<Rightarrow> uuid list" where
  "upstream_job_ids d j = map fst (filter (\<lambda>e. snd e = j) (job_dependencies d))"

definition downstream_job_ids :: "database \<Rightarrow> uuid \<Rightarrow> uuid list" where
  "downstream_job_ids d j = map snd (filter (\<lambda>e. fst e = j) (job_dependencies d))"

definition get_job_row :: "database \<Rightarrow> uuid \<Rightarrow> job option" where
  "get_job_row d j = find_row jid j (jobs d)"

definition get_task_row :: "database \<Rightarrow> uuid \<Rightarrow> task option" where
  "get_task_row d t = find_row tid t (tasks d)"

subsection \<open>Well-formedness\<close>

definition job_ok :: "job \<Rightarrow> bool" where
  "job_ok j \<longleftrightarrow>
     (job_type j = normal \<longrightarrow> cron_expression j = None \<and> next_fire_at j = None) \<and>
     (job_type j = scheduled \<longrightarrow> cron_expression j \<noteq> None \<and> next_fire_at j \<noteq> None) \<and>
     0 \<le> max_retries j"

definition task_ok :: "task \<Rightarrow> bool" where
  "task_ok t \<longleftrightarrow>
     (status t = running \<longleftrightarrow> locked_by t \<noteq> None) \<and> (status t = running \<longleftrightarrow> locked_until t \<noteq> None) \<and>
     (status t = pending \<longrightarrow> started_at t = None) \<and>
     (finished_at t \<noteq> None \<longleftrightarrow> status t \<in> {success, failed, final_failed}) \<and>
     0 \<le> retry_count t"

definition keys_ok :: "database \<Rightarrow> bool" where
  "keys_ok d \<longleftrightarrow>
     distinct (map jid (jobs d)) \<and> distinct (map name (jobs d)) \<and> distinct (map tid (tasks d)) \<and>
     distinct (job_dependencies d)"

definition fks_ok :: "database \<Rightarrow> bool" where
  "fks_ok d \<longleftrightarrow>
     task_job_id ` set (tasks d) \<subseteq> job_ids d \<and>
     fst ` set (job_dependencies d) \<subseteq> job_ids d \<and> snd ` set (job_dependencies d) \<subseteq> job_ids d"

definition db_wf :: "database \<Rightarrow> bool" where
  "db_wf d \<longleftrightarrow>
     keys_ok d \<and> fks_ok d \<and> (\<forall>j \<in> set (jobs d). job_ok j) \<and> (\<forall>t \<in> set (tasks d). task_ok t)"

definition dag :: "database \<Rightarrow> bool" where
  "dag d \<longleftrightarrow> acyclic (set (job_dependencies d))"

subsection \<open>The world of a process\<close>

record 'q world =
  db :: database
  normal_queue :: 'q
  scheduled_queue :: 'q
  retry_queue :: 'q
  clock :: "nat \<Rightarrow> time"
  ticks :: nat
  uuid_source :: "nat \<Rightarrow> uuid"
  uuids_drawn :: nat

text \<open>\<open>utcnow()\<close> of \<open>app/utils/time.py\<close>, and the server's \<open>now()\<close>: both read a clock.\<close>

definition utcnow :: "'q world \<Rightarrow> time \<times> 'q world" where
  "utcnow w = (clock w (ticks w), w\<lparr>ticks := Suc (ticks w)\<rparr>)"

definition uuid4 :: "'q world \<Rightarrow> uuid \<times> 'q world" where
  "uuid4 w = (uuid_source w (uuids_drawn w), w\<lparr>uuids_drawn := Suc (uuids_drawn w)\<rparr>)"

text \<open>What the code relies on when it uses \<open>uuid4\<close> for primary keys: the values still to be
  drawn differ from each other and from every key in the tables.\<close>

definition uuids_fresh :: "'q world \<Rightarrow> bool" where
  "uuids_fresh w \<longleftrightarrow>
     inj (uuid_source w) \<and>
     (\<forall>n \<ge> uuids_drawn w. uuid_source w n \<notin> job_ids (db w) \<union> task_ids (db w))"

lemma utcnow_simps [simp, frame_simps]:
  "db (snd (utcnow w)) = db w" "normal_queue (snd (utcnow w)) = normal_queue w"
  "scheduled_queue (snd (utcnow w)) = scheduled_queue w" "retry_queue (snd (utcnow w)) = retry_queue w"
  "clock (snd (utcnow w)) = clock w" "uuid_source (snd (utcnow w)) = uuid_source w"
  "uuids_drawn (snd (utcnow w)) = uuids_drawn w" "ticks (snd (utcnow w)) = Suc (ticks w)"
  by (simp_all add: utcnow_def)

lemma uuid4_simps [simp, frame_simps]:
  "db (snd (uuid4 w)) = db w" "normal_queue (snd (uuid4 w)) = normal_queue w"
  "scheduled_queue (snd (uuid4 w)) = scheduled_queue w" "retry_queue (snd (uuid4 w)) = retry_queue w"
  "clock (snd (uuid4 w)) = clock w" "uuid_source (snd (uuid4 w)) = uuid_source w"
  "ticks (snd (uuid4 w)) = ticks w" "uuids_drawn (snd (uuid4 w)) = Suc (uuids_drawn w)"
  by (simp_all add: uuid4_def)

lemma uuid4_fresh:
  "uuids_fresh w \<Longrightarrow> fst (uuid4 w) \<notin> job_ids (db w) \<and> fst (uuid4 w) \<notin> task_ids (db w)"
  by (simp add: uuids_fresh_def uuid4_def)

lemma uuids_fresh_utcnow [simp]: "uuids_fresh (snd (utcnow w)) = uuids_fresh w"
  by (simp add: uuids_fresh_def)

subsection \<open>Reading rows of a well-formed database\<close>

lemma get_job_row_SomeD: "get_job_row d j = Some r \<Longrightarrow> r \<in> set (jobs d) \<and> jid r = j"
  by (auto simp: get_job_row_def dest: find_row_SomeD)

lemma get_task_row_SomeD: "get_task_row d t = Some r \<Longrightarrow> r \<in> set (tasks d) \<and> tid r = t"
  by (auto simp: get_task_row_def dest: find_row_SomeD)

lemma get_job_row_None_iff: "get_job_row d j = None \<longleftrightarrow> j \<notin> job_ids d"
  by (simp add: get_job_row_def find_row_None_iff job_ids_def)

lemma get_task_row_None_iff: "get_task_row d t = None \<longleftrightarrow> t \<notin> task_ids d"
  by (simp add: get_task_row_def find_row_None_iff task_ids_def)

lemma task_ok_new_task [simp]: "0 \<le> n \<Longrightarrow> task_ok (new_task i j trig n t)"
  by (simp add: task_ok_def new_task_def)

lemma new_task_sel [simp]:
  "tid (new_task i j trig n t) = i" "task_job_id (new_task i j trig n t) = j"
  "status (new_task i j trig n t) = pending" "trigger_type (new_task i j trig n t) = trig"
  "retry_count (new_task i j trig n t) = n" "tcreated_at (new_task i j trig n t) = t"
  "finished_at (new_task i j trig n t) = None" "processed_for_chaining (new_task i j trig n t) = False"
  "locked_by (new_task i j trig n t) = None" "locked_until (new_task i j trig n t) = None"
  by (simp_all add: new_task_def)

subsection \<open>Readings of the clock and of the generator\<close>

text \<open>\<open>quiet w w'\<close>: between the two worlds only values were drawn.\<close>

definition quiet :: "'q world \<Rightarrow> 'q world \<Rightarrow> bool" where
  "quiet w w' \<longleftrightarrow>
     db w' = db w \<and> normal_queue w' = normal_queue w \<and> scheduled_queue w' = scheduled_queue w \<and>
     retry_queue w' = retry_queue w \<and> clock w' = clock w \<and> uuid_source w' = uuid_source w \<and>
     ticks w \<le> ticks w' \<and> uuids_drawn w \<le> uuids_drawn w'"

lemma quiet_refl [simp]: "quiet w w"
  by (simp add: quiet_def)

lemma quiet_trans: "quiet w w' \<Longrightarrow> quiet w' w'' \<Longrightarrow> quiet w w''"
  by (simp add: quiet_def)

lemma quiet_utcnow: "utcnow w = (t, w') \<Longrightarrow> quiet w w'"
  by (auto simp: quiet_def utcnow_def)

lemma quiet_uuid4: "uuid4 w = (i, w') \<Longrightarrow> quiet w w'"
  by (auto simp: quiet_def uuid4_def)

lemma quietD:
  assumes "quiet w w'"
  shows "db w' = db w" "normal_queue w' = normal_queue w" "scheduled_queue w' = scheduled_queue w"
    "retry_queue w' = retry_queue w" "clock w' = clock w" "uuid_source w' = uuid_source w"
  using assms by (simp_all add: quiet_def)

lemma quiet_fresh: "quiet w w' \<Longrightarrow> uuids_fresh w \<Longrightarrow> uuids_fresh w'"
  by (auto simp: quiet_def uuids_fresh_def)

text \<open>Two worlds of one run: identifiers are drawn from the same stream, in order.\<close>

definition draws :: "'q world \<Rightarrow> 'q world \<Rightarrow> bool" where
  "draws w w' \<longleftrightarrow> uuid_source w' = uuid_source w \<and> uuids_drawn w \<le> uuids_drawn w'"

lemma draws_refl [simp]: "draws w w"
  by (simp add: draws_def)

lemma draws_trans: "draws w w' \<Longrightarrow> draws w' w'' \<Longrightarrow> draws w w''"
  by (simp add: draws_def)

lemma quiet_draws: "quiet w w' \<Longrightarrow> draws w w'"
  by (simp add: quiet_def draws_def)

lemma uuid4_new:
  "uuids_fresh w \<Longrightarrow> uuid4 w = (i, w') \<Longrightarrow> i \<notin> job_ids (db w) \<and> i \<notin> task_ids (db w)"
  by (auto simp: uuids_fresh_def uuid4_def)

text \<open>Storing the identifier just drawn keeps the others fresh.\<close>

lemma uuids_fresh_add:
  assumes fresh: "uuids_fresh w" and i: "uuid4 w = (i, w1)" and q: "quiet w1 w2"
    and ids: "job_ids (db w3) \<union> task_ids (db w3) \<subseteq> insert i (job_ids (db w) \<union> task_ids (db w))"
    and src: "uuid_source w3 = uuid_source w2" "uuids_drawn w2 \<le> uuids_drawn w3"
  shows "uuids_fresh w3"
proof -
  have eq: "uuid_source w3 = uuid_source w" "i = uuid_source w (uuids_drawn w)" "uuids_drawn w < uuids_drawn w3"
    using i q src by (auto simp: uuid4_def quiet_def)
  have "uuid_source w n \<notin> job_ids (db w3) \<union> task_ids (db w3)" if "uuids_drawn w3 \<le> n" for n
  proof -
    have "n \<noteq> uuids_drawn w" using eq that by simp
    then have "uuid_source w n \<noteq> i" using fresh eq by (metis uuids_fresh_def inj_eq)
    moreover have "uuid_source w n \<notin> job_ids (db w) \<union> task_ids (db w)"
      using fresh eq that unfolding uuids_fresh_def by force
    ultimately show ?thesis using ids by blast
  qed
  then show ?thesis using fresh eq by (simp add: uuids_fresh_def)
qed

lemma uuids_fresh_sub:
  assumes "uuids_fresh w" "uuid_source w' = uuid_source w" "uuids_drawn w \<le> uuids_drawn w'"
    "job_ids (db w') \<union> task_ids (db w') \<subseteq> job_ids (db w) \<union> task_ids (db w)"
  shows "uuids_fresh w'"
  using assms unfolding uuids_fresh_def by (metis order_trans subsetD)

end
