(* ===== verification/Queues.thy ===== *)
theory Queues
  imports Models Config
begin

text \<open>
  \<open>app/queue\<close>: the \<open>QueueClient\<close> protocol as a record of operations on a queue state, the
  in-memory client, and the SQS client over the calls of the SQS API, which is a parameter. The
  contract the services rely on is the locale \<open>queue_contract\<close>: a sent task id is waiting in the
  queue, and a receive only hands out what was waiting.
\<close>

subsection \<open>The protocol\<close>

record queue_message =
  body :: string
  receipt_handle :: string

record 'q queue_client =
  send_task :: "uuid \<Rightarrow> 'q \<Rightarrow> 'q result"
  receive_tasks :: "nat \<Rightarrow> nat \<Rightarrow> 'q \<Rightarrow> (queue_message list \<times> 'q) result"
  delete_message :: "string \<Rightarrow> 'q \<Rightarrow> 'q result"
  change_message_visibility :: "string \<Rightarrow> int \<Rightarrow> 'q \<Rightarrow> 'q result"

definition task_body :: "uuid \<Rightarrow> string" where
  "task_body t = json_dumps (JObj [(''task_id'', JStr t)])"

locale queue_contract =
  fixes client :: "'q queue_client"
    and waiting :: "'q \<Rightarrow> string multiset"
  assumes send_waiting: "send_task client t q = Inr q' \<Longrightarrow> waiting q' = add_mset (task_body t) (waiting q)"
    and receive_waiting: "receive_tasks client n s q = Inr (ms, q') \<Longrightarrow> mset (map body ms) \<subseteq># waiting q"
    and receive_bound: "receive_tasks client n s q = Inr (ms, q') \<Longrightarrow> length ms \<le> n"
begin

lemma sent_is_waiting: "send_task client t q = Inr q' \<Longrightarrow> task_body t \<in># waiting q'"
  by (simp add: send_waiting)

lemma send_size: "send_task client t q = Inr q' \<Longrightarrow> size (waiting q') = Suc (size (waiting q))"
  by (simp add: send_waiting)

lemma received_was_waiting: "receive_tasks client n s q = Inr (ms, q') \<Longrightarrow> m \<in> set ms \<Longrightarrow> body m \<in># waiting q"
  using receive_waiting [of n s q ms q'] by (metis imageI list.set_map mset_subset_eqD set_mset_mset)

end

text \<open>A client whose sends never fail, as the in-memory one.\<close>

locale reliable_queue = queue_contract client waiting
  for client :: "'q queue_client" and waiting :: "'q \<Rightarrow> string multiset" +
  assumes send_total: "\<exists>q'. send_task client t q = Inr q'"
begin

lemma send_not_error: "send_task client t q \<noteq> Inl e"
  using send_total [of t q] by auto

end

subsection \<open>The in-memory client\<close>

record mem_queue =
  mq_items :: "(string \<times> string) list"
  mq_uuid :: "nat \<Rightarrow> string"
  mq_drawn :: nat

definition empty_mem_queue :: "(nat \<Rightarrow> string) \<Rightarrow> mem_queue" where
  "empty_mem_queue src = \<lparr>mq_items = [], mq_uuid = src, mq_drawn = 0\<rparr>"

definition mem_send_task :: "uuid \<Rightarrow> mem_queue \<Rightarrow> mem_queue result" where
  "mem_send_task t q =
     (let handle = mq_uuid q (mq_drawn q) in
      Inr (q\<lparr>mq_items := mq_items q @ [(task_body t, handle)], mq_drawn := Suc (mq_drawn q)\<rparr>))"

fun mem_get_loop :: "nat \<Rightarrow> (string \<times> string) list \<Rightarrow> queue_message list \<times> (string \<times> string) list" where
  "mem_get_loop 0 xs = ([], xs)"
| "mem_get_loop (Suc n) [] = ([], [])"
| "mem_get_loop (Suc n) ((b, h) # xs) =
     (let (ms, rest) = mem_get_loop n xs in (\<lparr>body = b, receipt_handle = h\<rparr> # ms, rest))"

definition mem_receive_tasks :: "nat \<Rightarrow> nat \<Rightarrow> mem_queue \<Rightarrow> (queue_message list \<times> mem_queue) result" where
  "mem_receive_tasks max_messages wait_time_seconds q =
     (let (ms, rest) = mem_get_loop max_messages (mq_items q) in Inr (ms, q\<lparr>mq_items := rest\<rparr>))"

definition MemoryQueueClient :: "mem_queue queue_client" where
  "MemoryQueueClient =
     \<lparr>send_task = mem_send_task, receive_tasks = mem_receive_tasks,
      delete_message = (\<lambda>handle q. Inr q), change_message_visibility = (\<lambda>handle s q. Inr q)\<rparr>"

lemma mem_get_loop_eq:
  "mem_get_loop n xs = (map (\<lambda>p. \<lparr>body = fst p, receipt_handle = snd p\<rparr>) (take n xs), drop n xs)"
  by (induction n xs rule: mem_get_loop.induct) auto

lemma mem_receive_eq:
  "mem_receive_tasks n s q =
     Inr (map (\<lambda>p. \<lparr>body = fst p, receipt_handle = snd p\<rparr>) (take n (mq_items q)),
          q\<lparr>mq_items := drop n (mq_items q)\<rparr>)"
  by (simp add: mem_receive_tasks_def mem_get_loop_eq)

lemma MemoryQueueClient_sel [simp]:
  "send_task MemoryQueueClient = mem_send_task" "receive_tasks MemoryQueueClient = mem_receive_tasks"
  by (simp_all add: MemoryQueueClient_def)

text \<open>The bodies waiting in an in-memory queue.\<close>

definition queued :: "mem_queue \<Rightarrow> string multiset" where
  "queued q = mset (map fst (mq_items q))"

interpretation memq: reliable_queue MemoryQueueClient queued
proof (unfold_locales, goal_cases)
  case (1 t q q')
  then show ?case by (auto simp: mem_send_task_def Let_def queued_def)
next
  case (2 n s q ms q')
  then have "map body ms = take n (map fst (mq_items q))" by (auto simp: mem_receive_eq take_map o_def)
  then show ?case by (metis append_take_drop_id mset_append mset_subset_eq_add_left queued_def)
next
  case (3 n s q ms q')
  then show ?case by (auto simp: mem_receive_eq)
next
  case (4 t q)
  show ?case by (simp add: mem_send_task_def Let_def)
qed

text \<open>Sending a list of ids one after the other.\<close>

fun send_all :: "uuid list \<Rightarrow> mem_queue \<Rightarrow> mem_queue" where
  "send_all [] q = q"
| "send_all (t # ts) q = send_all ts (projr (mem_send_task t q))"

lemma send_all_items: "map fst (mq_items (send_all ts q)) = map fst (mq_items q) @ map task_body ts"
  by (induction ts q rule: send_all.induct) (auto simp: mem_send_task_def Let_def)

text \<open>The in-memory queue is first in, first out: whatever was waiting and is then sent comes out in that
  order, up to the number asked for, and the rest stays in order.\<close>

lemma memory_queue_fifo:
  "\<exists>ms q'. mem_receive_tasks n s (send_all ts q) = Inr (ms, q') \<and>
     map body ms = take n (map fst (mq_items q) @ map task_body ts) \<and>
     map fst (mq_items q') = drop n (map fst (mq_items q) @ map task_body ts)"
  by (simp add: mem_receive_eq o_def take_map [symmetric] drop_map [symmetric] send_all_items)

text \<open>A deployment before its first request, with the three in-memory queues; \<open>sample_world\<close> is a
  concrete one, whose clock ticks once a second.\<close>

definition initial_world :: "(nat \<Rightarrow> time) \<Rightarrow> (nat \<Rightarrow> uuid) \<Rightarrow> mem_queue world" where
  "initial_world clk src =
     \<lparr>db = \<lparr>jobs = [], tasks = [], job_dependencies = []\<rparr>, normal_queue = empty_mem_queue src,
      scheduled_queue = empty_mem_queue src, retry_queue = empty_mem_queue src, clock = clk, ticks = 0,
      uuid_source = src, uuids_drawn = 0\<rparr>"

definition sample_world :: "mem_queue world" where
  "sample_world = initial_world (\<lambda>n. seconds (int n)) (\<lambda>n. replicate (Suc n) (CHR ''a''))"

lemma initial_world_wf:
  assumes "inj src"
  shows "db_wf (db (initial_world clk src))" "dag (db (initial_world clk src))" "uuids_fresh (initial_world clk src)"
  using assms
  by (simp_all add: initial_world_def db_wf_def keys_ok_def fks_ok_def dag_def acyclic_def uuids_fresh_def
      job_ids_def task_ids_def)

lemma inj_replicate: "inj (\<lambda>n. replicate (Suc n) c)"
  by (rule injI) (metis length_replicate nat.inject)

subsection \<open>The SQS client\<close>

text \<open>The calls of boto3's SQS client that the code makes, on the state \<open>'s\<close> of the service.\<close>

record 's sqs_api =
  sqs_get_queue_url :: "string \<Rightarrow> 's \<Rightarrow> string result"
  sqs_create_queue :: "string \<Rightarrow> 's \<Rightarrow> (string \<times> 's) result"
  sqs_send_message :: "string \<Rightarrow> string \<Rightarrow> 's \<Rightarrow> 's result"
  sqs_receive_message :: "string \<Rightarrow> nat \<Rightarrow> nat \<Rightarrow> int \<Rightarrow> 's \<Rightarrow> ((string \<times> string) list option \<times> 's) result"
  sqs_delete_message :: "string \<Rightarrow> string \<Rightarrow> 's \<Rightarrow> 's result"
  sqs_change_message_visibility :: "string \<Rightarrow> string \<Rightarrow> int \<Rightarrow> 's \<Rightarrow> 's result"

definition resolve_queue_url :: "'s sqs_api \<Rightarrow> string \<Rightarrow> 's \<Rightarrow> (string \<times> 's) result" where
  "resolve_queue_url api qname s =
     (case sqs_get_queue_url api qname s of
        Inr url \<Rightarrow> Inr (url, s)
      | Inl e \<Rightarrow> if e = QueueDoesNotExist then sqs_create_queue api qname s else Inl e)"

definition SQSQueueClient :: "'s sqs_api \<Rightarrow> settings \<Rightarrow> string \<Rightarrow> 's queue_client" where
  "SQSQueueClient api cfg url =
     \<lparr>send_task = (\<lambda>t s. sqs_send_message api url (task_body t) s),
      receive_tasks = (\<lambda>n wait s.
        case sqs_receive_message api url n wait (worker_visibility_timeout_seconds cfg) s of
          Inl e \<Rightarrow> Inl e
        | Inr (messages, s') \<Rightarrow>
            Inr (map (\<lambda>m. \<lparr>body = fst m, receipt_handle = snd m\<rparr>)
                   (case messages of None \<Rightarrow> [] | Some ms \<Rightarrow> ms), s')),
      delete_message = (\<lambda>handle s. sqs_delete_message api url handle s),
      change_message_visibility = (\<lambda>handle secs s. sqs_change_message_visibility api url handle secs s)\<rparr>"

text \<open>\<open>app/queue/factory.py\<close>: which queue each dispatch path uses.\<close>

datatype queue_path = normal_path | scheduled_path | retry_path

definition path_queue_name :: "settings \<Rightarrow> queue_path \<Rightarrow> string" where
  "path_queue_name cfg p =
     (case p of normal_path \<Rightarrow> queue_name_normal cfg | scheduled_path \<Rightarrow> queue_name_scheduled cfg
      | retry_path \<Rightarrow> queue_name_retry cfg)"

definition get_queue_client ::
    "settings \<Rightarrow> 's sqs_api \<Rightarrow> queue_path \<Rightarrow> 's \<Rightarrow> ((mem_queue queue_client + 's queue_client) \<times> 's) result" where
  "get_queue_client cfg api p s =
     (if queue_backend cfg = memory_backend then Inr (Inl MemoryQueueClient, s)
      else case resolve_queue_url api (path_queue_name cfg p) s of
             Inl e \<Rightarrow> Inl e
           | Inr (url, s') \<Rightarrow> Inr (Inr (SQSQueueClient api cfg url), s'))"

end
