(* ===== verification/Job_Repository.thy ===== *)
theory Job_Repository
  imports Models "HOL-Library.While_Combinator"
begin

text \<open>
  \<open>app/repositories/job_repository.py\<close>. An operation that only reads returns its rows; one that
  writes returns the database after its commit, or the error of a violated constraint, in which
  case the transaction is rolled back. A query without \<open>ORDER BY\<close> returns the rows in table
  order, and sorting is stable: the database leaves both open, and no theorem depends on it.
\<close>

subsection \<open>Writes\<close>

definition name_taken :: "database \<Rightarrow> uuid \<Rightarrow> string \<Rightarrow> bool" where
  "name_taken d j n \<longleftrightarrow> (\<exists>r \<in> set (jobs d). jid r \<noteq> j \<and> name r = n)"

text \<open>\<open>create\<close>: the new row with the rows of the secondary table that its relationships add.\<close>

definition job_create :: "job \<Rightarrow> (uuid \<times> uuid) list \<Rightarrow> database \<Rightarrow> database result" where
  "job_create j edges d =
     (if jid j \<in> job_ids d \<or> name_taken d (jid j) (name j) then Inl IntegrityError
      else Inr (d\<lparr>jobs := jobs d @ [j], job_dependencies := job_dependencies d @ edges\<rparr>))"

text \<open>\<open>update\<close>: an \<open>UPDATE\<close> is sent only for columns that changed; \<open>onupdate\<close> stamps
  \<open>updated_at\<close> unless the new state sets that column itself.\<close>

definition job_update :: "time \<Rightarrow> job \<Rightarrow> database \<Rightarrow> database result" where
  "job_update now j d =
     (case get_job_row d (jid j) of
        None \<Rightarrow> Inl StaleDataError
      | Some old \<Rightarrow>
          if j = old then Inr d
          else if name_taken d (jid j) (name j) then Inl IntegrityError
          else Inr (d\<lparr>jobs := update_row jid (jid j)
                 (\<lambda>_. if updated_at j = updated_at old then j\<lparr>updated_at := now\<rparr> else j) (jobs d)\<rparr>))"

text \<open>\<open>delete\<close>: the cascade removes the job's tasks and its rows in the secondary table.\<close>

definition job_delete :: "uuid \<Rightarrow> database \<Rightarrow> database" where
  "job_delete j d =
     d\<lparr>jobs := filter (\<lambda>r. jid r \<noteq> j) (jobs d),
       tasks := filter (\<lambda>t. task_job_id t \<noteq> j) (tasks d),
       job_dependencies := filter (\<lambda>e. fst e \<noteq> j \<and> snd e \<noteq> j) (job_dependencies d)\<rparr>"

subsection \<open>Reads\<close>

text \<open>The key is the identifier as the \<open>GUID\<close> column binds it.\<close>

definition job_get :: "uuid \<Rightarrow> database \<Rightarrow> job option" where
  "job_get j d = get_job_row d j"

text \<open>SQL \<open>LIKE\<close> with its default escape character.\<close>

fun like :: "string \<Rightarrow> string \<Rightarrow> bool" where
  "like [] s = (s = [])"
| "like (c # p) s =
     (if c = CHR ''%'' then like p s \<or> (case s of [] \<Rightarrow> False | x # s' \<Rightarrow> like (c # p) s')
      else if c = CHR ''_'' then (case s of [] \<Rightarrow> False | x # s' \<Rightarrow> like p s')
      else if c = chr_of 92 then
        (case p of [] \<Rightarrow> False | e # p' \<Rightarrow> (case s of [] \<Rightarrow> False | x # s' \<Rightarrow> x = e \<and> like p' s'))
      else (case s of [] \<Rightarrow> False | x # s' \<Rightarrow> x = c \<and> like p s'))"

record job_filter =
  f_enabled :: "bool option"
  f_action_type :: "string option"
  f_concurrency_policy :: "concurrency_policy option"
  f_q :: "string option"

definition matches :: "job_filter \<Rightarrow> job \<Rightarrow> bool" where
  "matches f j \<longleftrightarrow>
     (case f_enabled f of None \<Rightarrow> True | Some b \<Rightarrow> enabled j = b) \<and>
     (case f_action_type f of None \<Rightarrow> True | Some a \<Rightarrow> action_type j = a) \<and>
     (case f_concurrency_policy f of None \<Rightarrow> True | Some p \<Rightarrow> concurrency_policy j = p) \<and>
     (case f_q f of None \<Rightarrow> True
      | Some q \<Rightarrow> q = [] \<or> like (''%'' @ lower q @ ''%'') (lower (name j)))"

definition selected :: "job_filter \<Rightarrow> database \<Rightarrow> job list" where
  "selected f d = sort_key (\<lambda>j. - jcreated_at j) (filter (matches f) (jobs d))"

definition list_paginated :: "nat \<Rightarrow> nat \<Rightarrow> job_filter \<Rightarrow> database \<Rightarrow> job list \<times> nat" where
  "list_paginated page page_size f d =
     (let total = length (filter (matches f) (jobs d));
          rows = sort_key (\<lambda>j. - jcreated_at j) (filter (matches f) (jobs d))
      in (take page_size (drop ((page - 1) * page_size) rows), total))"

definition list_updated_since :: "time option \<Rightarrow> database \<Rightarrow> job list" where
  "list_updated_since since d =
     filter (\<lambda>j. job_type j = scheduled \<and>
                 (case since of None \<Rightarrow> True | Some t \<Rightarrow> t \<le> updated_at j)) (jobs d)"

text \<open>
  \<open>get_all_descendants\<close>: the recursive common table expression. The working table holds the rows
  the last pass added; \<open>UNION\<close> drops rows already seen, and the query ends when a pass adds none.
\<close>

function descendants_loop :: "(uuid \<times> uuid) list \<Rightarrow> uuid list \<Rightarrow> uuid list \<Rightarrow> uuid list" where
  "descendants_loop deps seen work =
     (if work = [] then seen
      else let found = remdups (filter (\<lambda>x. x \<notin> set seen) (map snd (filter (\<lambda>e. fst e \<in> set work) deps)))
           in descendants_loop deps (seen @ found) found)"
  by pat_completeness auto
termination
proof (relation "measures [\<lambda>(deps, seen, work). card (snd ` set deps - set seen), \<lambda>(deps, seen, work). length work]",
    goal_cases)
  case 1
  show ?case by simp
next
  case (2 deps seen work found)
  show ?case
  proof (cases "found = []")
    case True
    with 2 show ?thesis by simp
  next
    case False
    then obtain x where "x \<in> set found" by (cases found) auto
    with 2 have "x \<in> snd ` set deps - set seen" by auto
    then have "snd ` set deps - set (seen @ found) \<subset> snd ` set deps - set seen"
      using \<open>x \<in> set found\<close> by auto
    then show ?thesis by (simp add: psubset_card_mono)
  qed
qed

declare descendants_loop.simps [simp del]

lemma descendants_loop_Nil [simp]: "descendants_loop deps seen [] = seen"
  by (subst descendants_loop.simps) simp

lemma descendants_loop_step:
  "work \<noteq> [] \<Longrightarrow> found = remdups (filter (\<lambda>x. x \<notin> set seen) (map snd (filter (\<lambda>e. fst e \<in> set work) deps))) \<Longrightarrow>
     descendants_loop deps seen work = descendants_loop deps (seen @ found) found"
  by (subst descendants_loop.simps) (simp add: Let_def)

definition get_all_descendants :: "uuid \<Rightarrow> database \<Rightarrow> uuid list" where
  "get_all_descendants j d =
     (let first_hop = remdups (map snd (filter (\<lambda>e. fst e = j) (job_dependencies d)))
      in descendants_loop (job_dependencies d) first_hop first_hop)"

subsection \<open>The recursive query computes the transitive closure\<close>

lemma descendants_loop_closed:
  assumes "set work \<subseteq> set seen"
    and "\<And>x y. x \<in> set seen - set work \<Longrightarrow> (x, y) \<in> set deps \<Longrightarrow> y \<in> set seen"
  shows "set seen \<subseteq> set (descendants_loop deps seen work) \<and>
     (\<forall>x \<in> set (descendants_loop deps seen work). \<forall>y. (x, y) \<in> set deps \<longrightarrow>
        y \<in> set (descendants_loop deps seen work))"
  using assms
proof (induction deps seen work rule: descendants_loop.induct)
  case (1 deps seen work)
  show ?case
  proof (cases "work = []")
    case True
    with 1(3) show ?thesis by simp
  next
    case False
    let ?f = "remdups (filter (\<lambda>x. x \<notin> set seen) (map snd (filter (\<lambda>e. fst e \<in> set work) deps)))"
    have cl: "y \<in> set (seen @ ?f)" if "x \<in> set (seen @ ?f) - set ?f" "(x, y) \<in> set deps" for x y
      using that 1(3) [of x y] by (cases "x \<in> set work") force+
    from 1(1)[OF False refl _ cl] False show ?thesis
      unfolding descendants_loop_step [OF False refl] by auto
  qed
qed

lemma descendants_loop_sound:
  assumes "set seen \<subseteq> {x. (j, x) \<in> (set deps)\<^sup>+}" "set work \<subseteq> {x. (j, x) \<in> (set deps)\<^sup>+}"
  shows "set (descendants_loop deps seen work) \<subseteq> {x. (j, x) \<in> (set deps)\<^sup>+}"
  using assms
proof (induction deps seen work rule: descendants_loop.induct)
  case (1 deps seen work)
  show ?case
  proof (cases "work = []")
    case True
    with 1(2) show ?thesis by simp
  next
    case False
    let ?f = "remdups (filter (\<lambda>x. x \<notin> set seen) (map snd (filter (\<lambda>e. fst e \<in> set work) deps)))"
    have f: "set ?f \<subseteq> {x. (j, x) \<in> (set deps)\<^sup>+}"
      using 1(3) by (auto intro: trancl_into_trancl)
    with 1(1)[OF False refl] 1(2) show ?thesis
      unfolding descendants_loop_step [OF False refl] by simp
  qed
qed

lemma get_all_descendants_trancl:
  "set (get_all_descendants j d) = {x. (j, x) \<in> (set (job_dependencies d))\<^sup>+}"
proof
  let ?E = "job_dependencies d"
  let ?h = "remdups (map snd (filter (\<lambda>e. fst e = j) ?E))"
  let ?R = "set (descendants_loop ?E ?h ?h)"
  have eq: "set (get_all_descendants j d) = ?R" by (simp add: get_all_descendants_def Let_def)
  show "set (get_all_descendants j d) \<subseteq> {x. (j, x) \<in> (set ?E)\<^sup>+}"
    unfolding eq by (rule descendants_loop_sound) auto
  have cl: "set ?h \<subseteq> ?R \<and> (\<forall>x \<in> ?R. \<forall>y. (x, y) \<in> set ?E \<longrightarrow> y \<in> ?R)"
    by (rule descendants_loop_closed) auto
  show "{x. (j, x) \<in> (set ?E)\<^sup>+} \<subseteq> set (get_all_descendants j d)"
  proof
    fix x assume "x \<in> {x. (j, x) \<in> (set ?E)\<^sup>+}"
    then have "(j, x) \<in> (set ?E)\<^sup>+" by simp
    then have "x \<in> ?R"
    proof (induction rule: trancl_induct)
      case (base y)
      then have "y \<in> set ?h" by force
      with cl show ?case by blast
    next
      case (step y z)
      with cl show ?case by blast
    qed
    with eq show "x \<in> set (get_all_descendants j d)" by simp
  qed
qed

subsection \<open>LIKE without wildcards is substring search\<close>

definition wildcard_free :: "string \<Rightarrow> bool" where
  "wildcard_free q \<longleftrightarrow> set q \<inter> {CHR ''%'', CHR ''_'', chr_of 92} = {}"

lemma like_percent: "like (CHR ''%'' # p) s = (like p s \<or> (case s of [] \<Rightarrow> False | x # s' \<Rightarrow> like (CHR ''%'' # p) s'))"
  by (subst like.simps) simp

lemma like_literal:
  "c \<noteq> CHR ''%'' \<Longrightarrow> c \<noteq> CHR ''_'' \<Longrightarrow> c \<noteq> chr_of 92 \<Longrightarrow>
     like (c # p) s = (case s of [] \<Rightarrow> False | x # s' \<Rightarrow> x = c \<and> like p s')"
  by (subst like.simps) simp

declare like.simps(2) [simp del]

lemma like_percent_any [simp]: "like ''%'' s"
  by (induction s) (simp_all add: like_percent)

lemma like_literal_prefix:
  "wildcard_free q \<Longrightarrow> like (q @ ''%'') s \<longleftrightarrow> is_prefix q s"
  by (induction q s rule: is_prefix.induct) (auto simp: wildcard_free_def like_literal)

lemma like_contains:
  assumes "wildcard_free q"
  shows "like (''%'' @ q @ ''%'') s \<longleftrightarrow> contains q s"
proof (induction s)
  case Nil
  then show ?case using like_literal_prefix [OF assms, of "[]"] by (cases q) (simp_all add: like_percent)
next
  case (Cons x xs)
  then show ?case using like_literal_prefix [OF assms, of "x # xs"] by (simp add: like_percent)
qed

subsection \<open>What the writes keep\<close>

lemma job_create_SomeD:
  "job_create j edges d = Inr d' \<Longrightarrow>
     jid j \<notin> job_ids d \<and> \<not> name_taken d (jid j) (name j) \<and>
     d' = d\<lparr>jobs := jobs d @ [j], job_dependencies := job_dependencies d @ edges\<rparr>"
  by (auto simp: job_create_def split: if_splits)

lemma job_create_wf [wf_intros]:
  assumes wf: "db_wf d" and c: "job_create j edges d = Inr d'" and j: "job_ok j"
    and e: "distinct edges" "set edges \<inter> set (job_dependencies d) = {}"
    and fk: "fst ` set edges \<subseteq> insert (jid j) (job_ids d)" "snd ` set edges \<subseteq> insert (jid j) (job_ids d)"
  shows "db_wf d'"
proof -
  note D = job_create_SomeD [OF c]
  have jnew: "jid j \<notin> jid ` set (jobs d)" using D by (simp add: job_ids_def)
  have "name r \<noteq> name j" if "r \<in> set (jobs d)" for r
  proof -
    have "jid r \<noteq> jid j" using not_in_imageD [OF jnew that] .
    then show ?thesis using D that by (auto simp: name_taken_def)
  qed
  then have "name j \<notin> name ` set (jobs d)" by force
  with jnew have "keys_ok d'" using wf e D by (simp add: db_wf_def keys_ok_def Int_commute)
  moreover have "fks_ok d'"
  proof -
    have "job_ids d' = insert (jid j) (job_ids d)" using D by (simp add: job_ids_def)
    then show ?thesis using wf fk D by (simp add: db_wf_def fks_ok_def image_Un subset_insertI2)
  qed
  ultimately show ?thesis using wf j D by (simp add: db_wf_def)
qed

lemma job_update_cases:
  assumes "job_update now j d = Inr d'"
  obtains "d' = d" "get_job_row d (jid j) = Some j"
  | old j' where "get_job_row d (jid j) = Some old" "\<not> name_taken d (jid j) (name j)"
      "j' = j \<or> j' = j\<lparr>updated_at := now\<rparr>" "d' = d\<lparr>jobs := update_row jid (jid j) (\<lambda>_. j') (jobs d)\<rparr>"
proof (cases "get_job_row d (jid j)")
  case None
  with assms show ?thesis by (simp add: job_update_def)
next
  case (Some old)
  show ?thesis
  proof (cases "j = old")
    case True
    with assms Some that(1) show ?thesis by (simp add: job_update_def)
  next
    case False
    with assms Some have d': "\<not> name_taken d (jid j) (name j)"
      "d' = d\<lparr>jobs := update_row jid (jid j)
                 (\<lambda>_. if updated_at j = updated_at old then j\<lparr>updated_at := now\<rparr> else j) (jobs d)\<rparr>"
      by (simp_all add: job_update_def split: if_splits)
    show ?thesis
      by (rule that(2) [OF Some d'(1) _ d'(2)]) simp
  qed
qed

lemma distinct_names_update:
  assumes "distinct (map name js)" "\<And>r. r \<in> set js \<Longrightarrow> jid r \<noteq> i \<Longrightarrow> name r \<noteq> name j'"
    and "distinct (map jid js)"
  shows "distinct (map name (update_row jid i (\<lambda>_. j') js))"
  using assms
proof (induction js)
  case Nil
  then show ?case by simp
next
  case (Cons r js)
  show ?case
  proof (cases "jid r = i")
    case True
    then have "update_row jid i (\<lambda>_. j') js = js"
      using Cons.prems by (intro update_row_absent) auto
    moreover have "name r' \<noteq> name j'" if "r' \<in> set js" for r'
    proof -
      have "jid r' \<noteq> i" using Cons.prems(3) True that not_in_imageD [of i jid "set js" r'] by simp
      then show ?thesis using Cons.prems(2) [of r'] that by simp
    qed
    then have "name j' \<notin> name ` set js" by force
    ultimately show ?thesis using Cons.prems True by auto
  next
    case False
    then have "name r \<noteq> name j'" using Cons.prems by simp
    with Cons False show ?thesis by (auto simp: set_update_row)
  qed
qed

lemma job_update_wf [wf_intros]:
  assumes wf: "db_wf d" and u: "job_update now j d = Inr d'" and j: "job_ok j"
  shows "db_wf d'"
  using u
proof (cases rule: job_update_cases)
  case 1
  with wf show ?thesis by simp
next
  case (2 old j')
  have "job_ok j'" "jid j' = jid j" "name j' = name j" using j 2 by (auto simp: job_ok_def)
  moreover have "distinct (map jid (update_row jid (jid j) (\<lambda>_. j') (jobs d)))"
    using wf calculation by (simp add: map_key_update_row db_wf_def keys_ok_def)
  moreover have "distinct (map name (update_row jid (jid j) (\<lambda>_. j') (jobs d)))"
    using wf 2 calculation by (intro distinct_names_update) (auto simp: db_wf_def keys_ok_def name_taken_def)
  ultimately have "keys_ok d'" "\<forall>r \<in> set (jobs d'). job_ok r"
    using wf 2 by (auto simp: db_wf_def keys_ok_def set_update_row)
  moreover have "job_ids d' = job_ids d" using 2 \<open>jid j' = jid j\<close> by (simp add: job_ids_def keys_update_row)
  ultimately show ?thesis using wf 2 by (simp add: db_wf_def fks_ok_def)
qed

lemma job_update_frame:
  assumes "job_update now j d = Inr d'"
  shows "tasks d' = tasks d \<and> job_dependencies d' = job_dependencies d \<and> job_ids d' = job_ids d"
  using assms
proof (cases rule: job_update_cases)
  case (2 old j')
  then have "jid j' = jid j" by auto
  with 2 show ?thesis by (simp add: job_ids_def keys_update_row)
qed simp

lemma job_update_row:
  assumes "job_update now j d = Inr d'"
  shows "\<exists>j'. get_job_row d' (jid j) = Some j' \<and> (j' = j \<or> j' = j\<lparr>updated_at := now\<rparr>)"
  using assms by (auto elim!: job_update_cases simp: get_job_row_def find_row_update_row)

lemma job_update_other:
  assumes "job_update now j d = Inr d'" "i \<noteq> jid j"
  shows "get_job_row d' i = get_job_row d i"
  using assms by (auto elim!: job_update_cases simp: get_job_row_def find_row_update_row)

lemma job_delete_wf [wf_intros]:
  assumes "db_wf d"
  shows "db_wf (job_delete j d)"
proof -
  let ?d = "job_delete j d"
  have ids: "job_ids ?d = job_ids d - {j}" by (auto simp: job_delete_def job_ids_def)
  have "keys_ok ?d" using assms by (simp add: db_wf_def keys_ok_def job_delete_def distinct_map_filter)
  moreover have "fks_ok ?d"
    using assms unfolding db_wf_def fks_ok_def ids by (auto simp: job_delete_def image_subset_iff)
  ultimately show ?thesis using assms by (simp add: db_wf_def job_delete_def)
qed

lemma job_delete_dag: "dag d \<Longrightarrow> dag (job_delete j d)"
  unfolding dag_def job_delete_def by (auto elim!: acyclic_subset)

lemma job_delete_gone: "get_job_row (job_delete j d) j = None"
  by (simp add: job_delete_def get_job_row_def find_row_filter_key)

end
