(* ===== verification/Task_Repository.thy ===== *)
theory Task_Repository
  imports Models
begin

text \<open>
  \<open>app/repositories/task_repository.py\<close>. The columns an ORM object was given are written by one
  \<open>UPDATE\<close> at its commit; a row that no longer exists makes that flush fail.
\<close>

subsection \<open>Writes\<close>

definition task_create :: "task \<Rightarrow> database \<Rightarrow> database result" where
  "task_create t d =
     (if tid t \<in> task_ids d \<or> task_job_id t \<notin> job_ids d then Inl IntegrityError
      else Inr (d\<lparr>tasks := tasks d @ [t]\<rparr>))"

definition task_write :: "uuid \<Rightarrow> (task \<Rightarrow> task) \<Rightarrow> database \<Rightarrow> database result" where
  "task_write t f d =
     (if t \<in> task_ids d then Inr (d\<lparr>tasks := update_row tid t f (tasks d)\<rparr>) else Inl StaleDataError)"

definition finish_columns :: "status \<Rightarrow> string option \<Rightarrow> string option \<Rightarrow> time \<Rightarrow> task \<Rightarrow> task" where
  "finish_columns st out err now t =
     t\<lparr>status := st, stdout := out, stderr := err, locked_by := None, locked_until := None,
       finished_at := Some now\<rparr>"

definition finish_task :: "uuid \<Rightarrow> status \<Rightarrow> string option \<Rightarrow> string option \<Rightarrow> time \<Rightarrow> database \<Rightarrow> database result" where
  "finish_task t st out err now d = task_write t (finish_columns st out err now) d"

definition mark_success :: "uuid \<Rightarrow> string option \<Rightarrow> string option \<Rightarrow> time \<Rightarrow> database \<Rightarrow> database result" where
  "mark_success t out err now d = finish_task t success out err now d"

definition mark_failed ::
    "uuid \<Rightarrow> string option \<Rightarrow> string option \<Rightarrow> bool \<Rightarrow> time \<Rightarrow> database \<Rightarrow> database result" where
  "mark_failed t out err final now d =
     finish_task t (if final then final_failed else failed) out err now d"

definition release_columns :: "task \<Rightarrow> task" where
  "release_columns t = t\<lparr>status := pending, locked_by := None, locked_until := None, started_at := None\<rparr>"

definition mark_running_expired_pending :: "uuid \<Rightarrow> database \<Rightarrow> database result" where
  "mark_running_expired_pending t d = task_write t release_columns d"

definition mark_processed_for_chaining :: "uuid \<Rightarrow> database \<Rightarrow> database result" where
  "mark_processed_for_chaining t d = task_write t (\<lambda>r. r\<lparr>processed_for_chaining := True\<rparr>) d"

subsection \<open>Reads\<close>

definition task_get :: "uuid \<Rightarrow> database \<Rightarrow> task option" where
  "task_get t d = get_task_row d t"

definition list_by_job :: "uuid \<Rightarrow> database \<Rightarrow> task list" where
  "list_by_job j d = sort_key (\<lambda>t. - tcreated_at t) (filter (\<lambda>t. task_job_id t = j) (tasks d))"

definition count_running_for_job :: "uuid \<Rightarrow> database \<Rightarrow> nat" where
  "count_running_for_job j d = length (filter (\<lambda>t. task_job_id t = j \<and> status t = running) (tasks d))"

definition expired :: "time \<Rightarrow> task \<Rightarrow> bool" where
  "expired now t \<longleftrightarrow> status t = running \<and> (case locked_until t of None \<Rightarrow> False | Some u \<Rightarrow> u < now)"

definition list_expired_running :: "time \<Rightarrow> database \<Rightarrow> task list" where
  "list_expired_running now d = filter (expired now) (tasks d)"

definition get_unprocessed_successful_tasks :: "nat \<Rightarrow> database \<Rightarrow> task list" where
  "get_unprocessed_successful_tasks limit d =
     take limit (sort_key tcreated_at
       (filter (\<lambda>t. status t = success \<and> \<not> processed_for_chaining t) (tasks d)))"

definition latest_task :: "database \<Rightarrow> uuid \<Rightarrow> task option" where
  "latest_task d j =
     (case sort_key (\<lambda>t. - tcreated_at t) (filter (\<lambda>t. task_job_id t = j) (tasks d)) of
        [] \<Rightarrow> None
      | t # _ \<Rightarrow> Some t)"

definition latest_task_per_job :: "uuid list \<Rightarrow> database \<Rightarrow> uuid \<Rightarrow> task option" where
  "latest_task_per_job ids d = (\<lambda>j. if j \<in> set ids then latest_task d j else None)"

subsection \<open>What the reads return\<close>

lemma latest_task_SomeD:
  assumes "latest_task d j = Some t"
  shows "t \<in> set (tasks d)" "task_job_id t = j"
    "\<And>u. u \<in> set (tasks d) \<Longrightarrow> task_job_id u = j \<Longrightarrow> tcreated_at u \<le> tcreated_at t"
proof -
  let ?xs = "filter (\<lambda>t. task_job_id t = j) (tasks d)"
  obtain ys where ys: "sort_key (\<lambda>t. - tcreated_at t) ?xs = t # ys"
    using assms by (auto simp: latest_task_def split: list.splits)
  then have "t \<in> set ?xs" by (metis list.set_intros(1) set_sort)
  then show "t \<in> set (tasks d)" "task_job_id t = j" by auto
  show "tcreated_at u \<le> tcreated_at t" if "u \<in> set (tasks d)" "task_job_id u = j" for u
    using sort_key_hd_min [OF ys, of u] that by simp
qed

lemma latest_task_None_iff: "latest_task d j = None \<longleftrightarrow> (\<forall>t \<in> set (tasks d). task_job_id t \<noteq> j)"
proof -
  let ?xs = "filter (\<lambda>t. task_job_id t = j) (tasks d)"
  have "latest_task d j = None \<longleftrightarrow> sort_key (\<lambda>t. - tcreated_at t) ?xs = []"
    by (simp add: latest_task_def split: list.splits)
  also have "\<dots> \<longleftrightarrow> set ?xs = {}" by (metis set_empty2 set_sort)
  finally show ?thesis by (auto simp: filter_empty_conv)
qed

lemma list_expired_running_iff:
  "t \<in> set (list_expired_running now d) \<longleftrightarrow> t \<in> set (tasks d) \<and> expired now t"
  by (auto simp: list_expired_running_def)

lemma unprocessed_in:
  "t \<in> set (get_unprocessed_successful_tasks n d) \<Longrightarrow>
     t \<in> set (tasks d) \<and> status t = success \<and> \<not> processed_for_chaining t"
  unfolding get_unprocessed_successful_tasks_def by (auto dest: in_set_takeD)

subsection \<open>What the writes keep\<close>

lemma task_create_SomeD:
  "task_create t d = Inr d' \<Longrightarrow> tid t \<notin> task_ids d \<and> task_job_id t \<in> job_ids d \<and> d' = d\<lparr>tasks := tasks d @ [t]\<rparr>"
  by (auto simp: task_create_def split: if_splits)

lemma task_create_wf [wf_intros]:
  assumes "db_wf d" "task_create t d = Inr d'" "task_ok t"
  shows "db_wf d'"
  using assms(1,3) task_create_SomeD [OF assms(2)]
  by (auto simp: db_wf_def keys_ok_def fks_ok_def task_ids_def job_ids_def)

lemma task_write_SomeD:
  "task_write t f d = Inr d' \<Longrightarrow> t \<in> task_ids d \<and> d' = d\<lparr>tasks := update_row tid t f (tasks d)\<rparr>"
  by (auto simp: task_write_def split: if_splits)

definition keeps_identity :: "(task \<Rightarrow> task) \<Rightarrow> bool" where
  "keeps_identity f \<longleftrightarrow> (\<forall>r. tid (f r) = tid r \<and> task_job_id (f r) = task_job_id r)"

lemma keeps_identity_columns [simp]:
  "keeps_identity (finish_columns st out err now)" "keeps_identity release_columns"
  "keeps_identity (\<lambda>r. r\<lparr>processed_for_chaining := b\<rparr>)"
  by (simp_all add: keeps_identity_def finish_columns_def release_columns_def)

lemma task_write_wf [wf_intros]:
  assumes wf: "db_wf d" and w: "task_write t f d = Inr d'" and f: "keeps_identity f"
    and ok: "\<And>r. r \<in> set (tasks d) \<Longrightarrow> tid r = t \<Longrightarrow> task_ok (f r)"
  shows "db_wf d'"
proof -
  have d': "d' = d\<lparr>tasks := update_row tid t f (tasks d)\<rparr>" using task_write_SomeD [OF w] by simp
  have "map tid (tasks d') = map tid (tasks d)" "map task_job_id (tasks d') = map task_job_id (tasks d)"
    using f d' by (simp_all add: map_key_update_row keeps_identity_def)
  moreover from this have "task_job_id ` set (tasks d') = task_job_id ` set (tasks d)"
    by (metis list.set_map)
  moreover have "\<forall>r \<in> set (tasks d'). task_ok r"
    using wf ok d' by (auto simp: db_wf_def elim!: in_update_rowE)
  ultimately show ?thesis using wf d' by (simp add: db_wf_def keys_ok_def fks_ok_def job_ids_def)
qed

lemma task_write_row:
  assumes "task_write t f d = Inr d'" "keeps_identity f"
  shows "get_task_row d' u = (if u = t then map_option f (get_task_row d t) else get_task_row d u)"
  using task_write_SomeD [OF assms(1)] assms(2)
  by (simp add: get_task_row_def find_row_update_row keeps_identity_def)

lemma task_write_frame:
  assumes "task_write t f d = Inr d'" "keeps_identity f"
  shows "jobs d' = jobs d \<and> job_dependencies d' = job_dependencies d \<and> task_ids d' = task_ids d \<and>
    length (tasks d') = length (tasks d)"
  using task_write_SomeD [OF assms(1)] assms(2)
  by (simp add: task_ids_def keys_update_row keeps_identity_def)

lemma task_create_row:
  assumes "task_create t d = Inr d'"
  shows "get_task_row d' u = (if u = tid t then Some t else get_task_row d u)"
proof -
  have "get_task_row d (tid t) = None"
    using task_create_SomeD [OF assms] by (simp add: get_task_row_None_iff)
  then show ?thesis using task_create_SomeD [OF assms]
    by (auto simp: get_task_row_def find_row_append split: option.splits)
qed

text \<open>Any task can be finished; a running one can be released.\<close>

lemma finish_task_wf [wf_intros]:
  assumes "db_wf d" "finish_task t st out err now d = Inr d'" "st \<in> {success, failed, final_failed}"
  shows "db_wf d'"
proof (rule task_write_wf)
  show "db_wf d" "task_write t (finish_columns st out err now) d = Inr d'"
    using assms by (simp_all add: finish_task_def)
  show "task_ok (finish_columns st out err now r)" if "r \<in> set (tasks d)" "tid r = t" for r
  proof -
    have "task_ok r" using assms(1) that by (auto simp: db_wf_def)
    then show ?thesis using assms(3) by (auto simp: task_ok_def finish_columns_def)
  qed
qed simp

lemma release_wf [wf_intros]:
  assumes "db_wf d" "mark_running_expired_pending t d = Inr d'"
    and "\<And>r. r \<in> set (tasks d) \<Longrightarrow> tid r = t \<Longrightarrow> status r = running"
  shows "db_wf d'"
proof (rule task_write_wf)
  show "db_wf d" "task_write t release_columns d = Inr d'"
    using assms by (simp_all add: mark_running_expired_pending_def)
  show "task_ok (release_columns r)" if "r \<in> set (tasks d)" "tid r = t" for r
  proof -
    have "task_ok r" "status r = running" using assms(1,3) that by (auto simp: db_wf_def)
    then show ?thesis by (auto simp: task_ok_def release_columns_def)
  qed
qed simp

lemma mark_processed_wf [wf_intros]:
  assumes "db_wf d" "mark_processed_for_chaining t d = Inr d'"
  shows "db_wf d'"
proof (rule task_write_wf)
  show "db_wf d" "task_write t (\<lambda>r. r\<lparr>processed_for_chaining := True\<rparr>) d = Inr d'"
    using assms by (simp_all add: mark_processed_for_chaining_def)
  show "task_ok (r\<lparr>processed_for_chaining := True\<rparr>)" if "r \<in> set (tasks d)" "tid r = t" for r
    using assms(1) that by (auto simp: db_wf_def task_ok_def)
qed simp

lemma same_row: "db_wf d \<Longrightarrow> get_task_row d t = Some r \<Longrightarrow> u \<in> set (tasks d) \<Longrightarrow> tid u = t \<Longrightarrow> u = r"
  by (auto simp: db_wf_def keys_ok_def get_task_row_def find_row_Some_iff distinct_map inj_on_def)

end
