(* ===== verification/Schemas.thy ===== *)
theory Schemas
  imports Models Config
begin

text \<open>
  \<open>app/schemas/job.py\<close>, \<open>app/utils/cron.py\<close>. The request bodies as records of their declared
  fields, and the validators of the two action configurations. Pydantic's coercion of a JSON
  value to \<open>int\<close> and the \<open>croniter\<close> package are parameters: \<open>lax_int\<close> returns the
  integer it accepts, and \<open>get_next\<close> returns no value where \<open>croniter\<close> raises
  \<open>CroniterBadDateError\<close>.
\<close>

subsection \<open>Cron expressions\<close>

record croniter =
  is_valid :: "string \<Rightarrow> bool"
  get_next :: "string \<Rightarrow> time \<Rightarrow> time option"

text \<open>What the documentation of \<open>get_next\<close> promises: the next matching time after the base.\<close>

definition croniter_advances :: "croniter \<Rightarrow> bool" where
  "croniter_advances cr \<longleftrightarrow> (\<forall>e base t. get_next cr e base = Some t \<longrightarrow> base < t)"

definition next_cron_time :: "croniter \<Rightarrow> string \<Rightarrow> time \<Rightarrow> time result" where
  "next_cron_time cr expression base_time =
     (case get_next cr expression base_time of None \<Rightarrow> Inl CroniterBadDateError | Some t \<Rightarrow> Inr t)"

text \<open>A concrete instance for evaluating the model: every expression fires on the minute.\<close>

definition minutely :: croniter where
  "minutely = \<lparr>is_valid = (\<lambda>e. e \<noteq> ''bad''), get_next = (\<lambda>e t. Some ((t div 60000000 + 1) * 60000000))\<rparr>"

lemma minutely_advances [simp]: "croniter_advances minutely"
proof -
  have "t < (t div 60000000 + 1) * 60000000" for t :: int
    using pos_mod_bound [of 60000000 t] div_mult_mod_eq [of t 60000000] by (simp add: algebra_simps)
  then show ?thesis by (simp add: croniter_advances_def minutely_def)
qed

subsection \<open>Action configurations\<close>

definition timeout_valid :: "(json \<Rightarrow> int option) \<Rightarrow> (string \<times> json) list \<Rightarrow> bool" where
  "timeout_valid lax_int kvs \<longleftrightarrow>
     (case jget ''timeout_seconds'' kvs of
        None \<Rightarrow> True
      | Some v \<Rightarrow> (case lax_int v of None \<Rightarrow> False | Some n \<Rightarrow> 1 \<le> n))"

definition is_str :: "json \<Rightarrow> bool" where
  "is_str v \<longleftrightarrow> (case v of JStr s \<Rightarrow> True | _ \<Rightarrow> False)"

definition HttpActionConfig_valid :: "(json \<Rightarrow> int option) \<Rightarrow> json \<Rightarrow> bool" where
  "HttpActionConfig_valid lax_int v \<longleftrightarrow>
     (case v of
        JObj kvs \<Rightarrow>
          (case jget ''method'' kvs of None \<Rightarrow> True | Some m \<Rightarrow> is_str m) \<and>
          (case jget ''url'' kvs of None \<Rightarrow> False | Some u \<Rightarrow> is_str u) \<and>
          (case jget ''headers'' kvs of None \<Rightarrow> True | Some (JObj hs) \<Rightarrow> list_all (\<lambda>h. is_str (snd h)) hs | _ \<Rightarrow> False) \<and>
          (case jget ''body'' kvs of
             None \<Rightarrow> True | Some JNull \<Rightarrow> True | Some (JStr s) \<Rightarrow> True | Some (JObj b) \<Rightarrow> True | _ \<Rightarrow> False) \<and>
          timeout_valid lax_int kvs
      | _ \<Rightarrow> False)"

definition ShellActionConfig_valid :: "(json \<Rightarrow> int option) \<Rightarrow> json \<Rightarrow> bool" where
  "ShellActionConfig_valid lax_int v \<longleftrightarrow>
     (case v of
        JObj kvs \<Rightarrow>
          (case jget ''command'' kvs of None \<Rightarrow> False | Some c \<Rightarrow> is_str c) \<and> timeout_valid lax_int kvs
      | _ \<Rightarrow> False)"

text \<open>\<open>JobBase.validate_action_config\<close>, and the lookup in \<open>_ACTION_CONFIG_SCHEMAS\<close>.\<close>

definition action_config_valid :: "(json \<Rightarrow> int option) \<Rightarrow> string \<Rightarrow> json \<Rightarrow> bool" where
  "action_config_valid lax_int at v \<longleftrightarrow>
     (if at = ''http'' then HttpActionConfig_valid lax_int v
      else if at = ''shell'' then ShellActionConfig_valid lax_int v
      else True)"

subsection \<open>Request bodies\<close>

record job_create_payload =
  p_name :: string
  p_cron_expression :: "string option"
  p_action_type :: string
  p_action_config :: json
  p_enabled :: bool
  p_concurrency_policy :: concurrency_policy
  p_max_retries :: int
  p_upstream_job_ids :: "uuid list"
  p_downstream_job_ids :: "uuid list"

definition JobCreate_valid :: "(json \<Rightarrow> int option) \<Rightarrow> job_create_payload \<Rightarrow> bool" where
  "JobCreate_valid lax_int p \<longleftrightarrow>
     p_action_type p \<in> {''http'', ''shell''} \<and>
     (case p_action_config p of JObj kvs \<Rightarrow> True | _ \<Rightarrow> False) \<and>
     0 \<le> p_max_retries p \<and>
     action_config_valid lax_int (p_action_type p) (p_action_config p)"

text \<open>A field of \<open>JobUpdate\<close> is unset (\<open>None\<close>), set to null (\<open>Some None\<close>) or set to a value:
  \<open>model_dump(exclude_unset=True)\<close> keeps the difference.\<close>

record job_update_payload =
  u_name :: "string option option"
  u_cron_expression :: "string option option"
  u_action_type :: "string option option"
  u_action_config :: "json option option"
  u_enabled :: "bool option option"
  u_concurrency_policy :: "concurrency_policy option option"
  u_max_retries :: "int option option"
  u_upstream_job_ids :: "uuid list option option"
  u_downstream_job_ids :: "uuid list option option"

definition JobUpdate_valid :: "job_update_payload \<Rightarrow> bool" where
  "JobUpdate_valid p \<longleftrightarrow>
     (case u_action_type p of Some (Some a) \<Rightarrow> a \<in> {''http'', ''shell''} | _ \<Rightarrow> True) \<and>
     (case u_action_config p of Some (Some c) \<Rightarrow> (case c of JObj kvs \<Rightarrow> True | _ \<Rightarrow> False) | _ \<Rightarrow> True) \<and>
     (case u_max_retries p of Some (Some n) \<Rightarrow> 0 \<le> n | _ \<Rightarrow> True)"

definition empty_update :: job_update_payload where
  "empty_update =
     \<lparr>u_name = None, u_cron_expression = None, u_action_type = None, u_action_config = None,
      u_enabled = None, u_concurrency_policy = None, u_max_retries = None,
      u_upstream_job_ids = None, u_downstream_job_ids = None\<rparr>"

text \<open>The concrete \<open>lax_int\<close> of the evaluations: it accepts the JSON integers.\<close>

definition strict_int :: "json \<Rightarrow> int option" where
  "strict_int v = (case v of JInt n \<Rightarrow> Some n | _ \<Rightarrow> None)"

end
