(* ===== verification/Job_Service.thy ===== *)
theory Job_Service
  imports Job_Repository Task_Repository Queues Schemas
begin

text \<open>
  \<open>app/services/job_service.py\<close> and its endpoints in \<open>app/api/v1/jobs.py\<close>. An operation takes the
  world and returns its result, or the exception that ends the request, with the world after
  it; a transaction that is not committed leaves the database as it was. On-demand runs go to
  the normal queue, which is the client the API passes.
\<close>

subsection \<open>Translating an action into a container specification\<close>

definition unprocessable :: "string \<Rightarrow> error" where
  "unprocessable detail = HTTPException 422 detail"

definition truthy :: "json \<Rightarrow> bool" where
  "truthy v =
     (case v of JNull \<Rightarrow> False | JBool b \<Rightarrow> b | JInt i \<Rightarrow> i \<noteq> 0
      | JFloat r n \<Rightarrow> r \<noteq> ''0.0'' \<and> r \<noteq> ''-0.0'' | JStr s \<Rightarrow> s \<noteq> [] | JArr vs \<Rightarrow> vs \<noteq> [] | JObj kvs \<Rightarrow> kvs \<noteq> [])"

definition spec_json :: "string \<Rightarrow> json list \<Rightarrow> int \<Rightarrow> json" where
  "spec_json img command timeout =
     JObj [(''image'', JStr img), (''command'', JArr command), (''env'', JObj []), (''timeout_seconds'', JInt timeout)]"

definition timeout_of :: "(string \<times> json) list \<Rightarrow> int result" where
  "timeout_of kvs = py_int (case jget ''timeout_seconds'' kvs of None \<Rightarrow> JInt 30 | Some v \<Rightarrow> v)"

definition header_args :: "json option \<Rightarrow> json list result" where
  "header_args headers =
     (case headers of
        None \<Rightarrow> Inr []
      | Some v \<Rightarrow>
          if \<not> truthy v then Inr []
          else (case v of
                  JObj hs \<Rightarrow> Inr (concat (map (\<lambda>h. [JStr ''-H'', JStr (fst h @ '': '' @ py_str (snd h))]) hs))
                | _ \<Rightarrow> Inl AttributeError))"

definition body_args :: "json option \<Rightarrow> json list" where
  "body_args b =
     (case b of
        None \<Rightarrow> []
      | Some JNull \<Rightarrow> []
      | Some (JObj kvs) \<Rightarrow> [JStr ''-d'', JStr (json_dumps (JObj kvs))]
      | Some (JArr vs) \<Rightarrow> [JStr ''-d'', JStr (json_dumps (JArr vs))]
      | Some v \<Rightarrow> [JStr ''-d'', JStr (py_str v)])"

definition shell_spec :: "(string \<times> json) list \<Rightarrow> json result" where
  "shell_spec kvs =
     (case jget ''command'' kvs of
        None \<Rightarrow> Inl (KeyError ''command'')
      | Some c \<Rightarrow>
          (case timeout_of kvs of
             Inl e \<Rightarrow> Inl e
           | Inr n \<Rightarrow> Inr (spec_json ''alpine:3'' [JStr ''sh'', JStr ''-c'', c] n)))"

definition http_spec :: "(string \<times> json) list \<Rightarrow> json result" where
  "http_spec kvs =
     (let verb = upper (py_str (case jget ''method'' kvs of None \<Rightarrow> JStr ''GET'' | Some m \<Rightarrow> m)) in
      case header_args (jget ''headers'' kvs) of
        Inl e \<Rightarrow> Inl e
      | Inr hs \<Rightarrow>
          (case jget ''url'' kvs of
             None \<Rightarrow> Inl (KeyError ''url'')
           | Some url \<Rightarrow>
               (case timeout_of kvs of
                  Inl e \<Rightarrow> Inl e
                | Inr n \<Rightarrow>
                    Inr (spec_json ''curlimages/curl:8.6.0''
                      ([JStr ''curl'', JStr ''-fsS'', JStr ''-X'', JStr verb] @ hs @ body_args (jget ''body'' kvs) @ [url]) n))))"

definition build_runtime_spec :: "settings \<Rightarrow> string option \<Rightarrow> json \<Rightarrow> json result" where
  "build_runtime_spec cfg at config =
     (if at = Some ''shell'' then
        (if \<not> shell_execution_enabled cfg
         then Inl (unprocessable ''Shell actions are disabled. Set DASS_SHELL_EXECUTION_ENABLED=true to allow them.'')
         else case config of JObj kvs \<Rightarrow> shell_spec kvs | _ \<Rightarrow> Inl TypeError)
      else if at = Some ''http'' then
        (case config of JObj kvs \<Rightarrow> http_spec kvs | _ \<Rightarrow> Inl AttributeError)
      else Inl (unprocessable (''Unsupported action_type: '' @ (case at of None \<Rightarrow> ''None'' | Some a \<Rightarrow> a))))"

subsection \<open>Schedules\<close>

definition resolve_schedule ::
    "croniter \<Rightarrow> string option \<Rightarrow> 'q world \<Rightarrow> (job_type \<times> string option \<times> time option) result \<times> 'q world" where
  "resolve_schedule cr raw_cron w =
     (let cron = strip (case raw_cron of None \<Rightarrow> [] | Some s \<Rightarrow> s) in
      if cron = [] then (Inr (normal, None, None), w)
      else if \<not> is_valid cr cron then (Inl (unprocessable ''Invalid cron expression''), w)
      else let (now, w') = utcnow w in
           (case next_cron_time cr cron now of
              Inl e \<Rightarrow> (Inl e, w')
            | Inr t \<Rightarrow> (Inr (scheduled, Some cron, Some t), w')))"

subsection \<open>Internals\<close>

definition jobs_by_id :: "uuid list \<Rightarrow> database \<Rightarrow> job list" where
  "jobs_by_id ids d = filter (\<lambda>j. jid j \<in> set ids) (jobs d)"

definition circular :: "uuid \<Rightarrow> database \<Rightarrow> bool" where
  "circular i d \<longleftrightarrow> i \<in> set (get_all_descendants i d)"

definition enqueue_task :: "'q queue_client \<Rightarrow> uuid \<Rightarrow> 'q world \<Rightarrow> task result \<times> 'q world" where
  "enqueue_task qc i w =
     (let (t_id, w1) = uuid4 w; (now, w2) = utcnow w1; t = new_task t_id i manual 0 now in
      case task_create t (db w2) of
        Inl e \<Rightarrow> (Inl e, w2)
      | Inr d \<Rightarrow>
          (let w3 = w2\<lparr>db := d\<rparr> in
           case send_task qc t_id (normal_queue w3) of
             Inl e \<Rightarrow> (Inl e, w3)
           | Inr q \<Rightarrow> (Inr t, w3\<lparr>normal_queue := q\<rparr>)))"

definition dispatch_if_one_time :: "'q queue_client \<Rightarrow> job \<Rightarrow> 'q world \<Rightarrow> unit result \<times> 'q world" where
  "dispatch_if_one_time qc j w =
     (if job_type j = normal \<and> enabled j \<and> upstream_job_ids (db w) (jid j) = [] then
        (case enqueue_task qc (jid j) w of (Inl e, w') \<Rightarrow> (Inl e, w') | (Inr t, w') \<Rightarrow> (Inr (), w'))
      else (Inr (), w))"

subsection \<open>Commands\<close>

text \<open>\<open>Job(...)\<close> of \<open>create_job\<close> once inserted, and the rows its relationships add.\<close>

definition created_job ::
    "job_create_payload \<Rightarrow> job_type \<times> string option \<times> time option \<Rightarrow> json \<Rightarrow> uuid \<Rightarrow> time \<Rightarrow> job" where
  "created_job p sched spec i now =
     (case sched of (jt, cron, nfa) \<Rightarrow>
        \<lparr>jid = i, name = p_name p, job_type = jt, cron_expression = cron,
         action_type = p_action_type p, action_config = p_action_config p,
         runtime_spec = Some spec, enabled = p_enabled p,
         concurrency_policy = p_concurrency_policy p, max_retries = p_max_retries p,
         next_fire_at = nfa, jcreated_at = now, updated_at = now\<rparr>)"

definition created_edges :: "job_create_payload \<Rightarrow> uuid \<Rightarrow> database \<Rightarrow> (uuid \<times> uuid) list" where
  "created_edges p i d =
     map (\<lambda>u. (jid u, i)) (jobs_by_id (p_upstream_job_ids p) d) @
     map (\<lambda>x. (i, jid x)) (jobs_by_id (p_downstream_job_ids p) d)"

definition create_job ::
    "settings \<Rightarrow> croniter \<Rightarrow> 'q queue_client \<Rightarrow> job_create_payload \<Rightarrow> 'q world \<Rightarrow> job result \<times> 'q world" where
  "create_job cfg cr qc p w =
     (case resolve_schedule cr (p_cron_expression p) w of
        (Inl e, w1) \<Rightarrow> (Inl e, w1)
      | (Inr sched, w1) \<Rightarrow>
          (case build_runtime_spec cfg (Some (p_action_type p)) (p_action_config p) of
             Inl e \<Rightarrow> (Inl e, w1)
           | Inr spec \<Rightarrow>
               (let (i, w2) = uuid4 w1;
                    (now, w3) = utcnow w2;
                    j = created_job p sched spec i now
                in case job_create j (created_edges p i (db w3)) (db w3) of
                     Inl e \<Rightarrow> (Inl e, w3)
                   | Inr d \<Rightarrow>
                       if circular i d then (Inl (unprocessable ''Circular dependency detected''), w3)
                       else (case dispatch_if_one_time qc j (w3\<lparr>db := d\<rparr>) of
                               (Inl e, w4) \<Rightarrow> (Inl e, w4)
                             | (Inr u, w4) \<Rightarrow> (Inr j, w4)))))"

text \<open>The \<open>setattr\<close> loop of \<open>update_job\<close>: a null for a column that does not allow it only fails
  when the row is flushed.\<close>

definition set_columns :: "job_update_payload \<Rightarrow> job \<Rightarrow> job" where
  "set_columns p j =
     j\<lparr>name := (case u_name p of Some (Some v) \<Rightarrow> v | _ \<Rightarrow> name j),
       action_type := (case u_action_type p of Some (Some v) \<Rightarrow> v | _ \<Rightarrow> action_type j),
       action_config := (case u_action_config p of Some (Some v) \<Rightarrow> v | _ \<Rightarrow> action_config j),
       enabled := (case u_enabled p of Some (Some v) \<Rightarrow> v | _ \<Rightarrow> enabled j),
       concurrency_policy := (case u_concurrency_policy p of Some (Some v) \<Rightarrow> v | _ \<Rightarrow> concurrency_policy j),
       max_retries := (case u_max_retries p of Some (Some v) \<Rightarrow> v | _ \<Rightarrow> max_retries j)\<rparr>"

definition sets_null :: "job_update_payload \<Rightarrow> bool" where
  "sets_null p \<longleftrightarrow>
     u_name p = Some None \<or> u_enabled p = Some None \<or> u_concurrency_policy p = Some None \<or>
     u_max_retries p = Some None"

definition rederive_spec ::
    "settings \<Rightarrow> (json \<Rightarrow> int option) \<Rightarrow> job_update_payload \<Rightarrow> job \<Rightarrow> json option result" where
  "rederive_spec cfg lax_int p j =
     (if u_action_type p = None \<and> u_action_config p = None then Inr (runtime_spec j)
      else
        (let at = (case u_action_type p of None \<Rightarrow> Some (action_type j) | Some v \<Rightarrow> v);
             config = (case u_action_config p of None \<Rightarrow> action_config j | Some None \<Rightarrow> JNull | Some (Some c) \<Rightarrow> c)
         in if (case at of None \<Rightarrow> False | Some a \<Rightarrow> \<not> action_config_valid lax_int a config) then Inl ValidationError
            else (case build_runtime_spec cfg at config of Inl e \<Rightarrow> Inl e | Inr spec \<Rightarrow> Inr (Some spec))))"

definition replace_dependencies :: "job_update_payload \<Rightarrow> uuid \<Rightarrow> database \<Rightarrow> (uuid \<times> uuid) list" where
  "replace_dependencies p i d =
     (let e0 = job_dependencies d;
          e1 = (case u_upstream_job_ids p of
                  Some (Some ids) \<Rightarrow> filter (\<lambda>e. snd e \<noteq> i) e0 @ map (\<lambda>u. (jid u, i)) (jobs_by_id ids d)
                | _ \<Rightarrow> e0)
      in case u_downstream_job_ids p of
           Some (Some ids) \<Rightarrow> filter (\<lambda>e. fst e \<noteq> i) e1 @ map (\<lambda>x. (i, jid x)) (jobs_by_id ids d)
         | _ \<Rightarrow> e1)"

definition dependencies_changed :: "job_update_payload \<Rightarrow> bool" where
  "dependencies_changed p \<longleftrightarrow>
     (case u_upstream_job_ids p of Some (Some ids) \<Rightarrow> True | _ \<Rightarrow> False) \<or>
     (case u_downstream_job_ids p of Some (Some ids) \<Rightarrow> True | _ \<Rightarrow> False)"

text \<open>\<open>db.refresh(job)\<close> reads the row back.\<close>

definition refreshed :: "database \<Rightarrow> job \<Rightarrow> job" where
  "refreshed d j = (case job_get (jid j) d of None \<Rightarrow> j | Some r \<Rightarrow> r)"

definition new_schedule ::
    "croniter \<Rightarrow> job_update_payload \<Rightarrow> job \<Rightarrow> 'q world \<Rightarrow> (job_type \<times> string option \<times> time option) result \<times> 'q world" where
  "new_schedule cr p j w =
     (case u_cron_expression p of
        None \<Rightarrow> (Inr (job_type j, cron_expression j, next_fire_at j), w)
      | Some raw \<Rightarrow> resolve_schedule cr raw w)"

definition set_schedule :: "job_type \<times> string option \<times> time option \<Rightarrow> job \<Rightarrow> job" where
  "set_schedule sched j =
     j\<lparr>job_type := fst sched, cron_expression := fst (snd sched), next_fire_at := snd (snd sched)\<rparr>"

text \<open>The commit of the changed row and relationships, after the check for a cycle.\<close>

definition store_update :: "job_update_payload \<Rightarrow> time \<Rightarrow> job \<Rightarrow> database \<Rightarrow> database result" where
  "store_update p now j d =
     (if sets_null p then Inl IntegrityError
      else case job_update now j (d\<lparr>job_dependencies := replace_dependencies p (jid j) d\<rparr>) of
             Inl e \<Rightarrow> Inl e
           | Inr d' \<Rightarrow>
               if dependencies_changed p \<and> circular (jid j) d'
               then Inl (unprocessable ''Circular dependency detected'')
               else Inr d')"

definition update_job ::
    "settings \<Rightarrow> croniter \<Rightarrow> (json \<Rightarrow> int option) \<Rightarrow> 'q queue_client \<Rightarrow> uuid \<Rightarrow> job_update_payload \<Rightarrow>
     'q world \<Rightarrow> job result \<times> 'q world" where
  "update_job cfg cr lax_int qc i p w =
     (case job_get i (db w) of
        None \<Rightarrow> (Inl (HTTPException 404 ''Job not found''), w)
      | Some j0 \<Rightarrow>
          (case new_schedule cr p (set_columns p j0) w of
             (Inl e, w1) \<Rightarrow> (Inl e, w1)
           | (Inr sched, w1) \<Rightarrow>
               (let j2 = set_schedule sched (set_columns p j0) in
                case rederive_spec cfg lax_int p j2 of
                  Inl e \<Rightarrow> (Inl e, w1)
                | Inr spec \<Rightarrow>
                    (let j3 = j2\<lparr>runtime_spec := spec\<rparr>; (now, w2) = utcnow w1
                     in case store_update p now j3 (db w2) of
                          Inl e \<Rightarrow> (Inl e, w2)
                        | Inr d \<Rightarrow>
                            (let w3 = w2\<lparr>db := d\<rparr>; j4 = refreshed d j3 in
                             if \<not> enabled j0 \<and> enabled j4 then
                               (case dispatch_if_one_time qc j4 w3 of
                                  (Inl e, w4) \<Rightarrow> (Inl e, w4)
                                | (Inr u, w4) \<Rightarrow> (Inr j4, w4))
                             else (Inr j4, w3))))))"

definition delete_job :: "uuid \<Rightarrow> 'q world \<Rightarrow> unit result \<times> 'q world" where
  "delete_job i w =
     (case job_get i (db w) of
        None \<Rightarrow> (Inl (HTTPException 404 ''Job not found''), w)
      | Some j \<Rightarrow> (Inr (), w\<lparr>db := job_delete (jid j) (db w)\<rparr>))"

definition trigger_job :: "'q queue_client \<Rightarrow> uuid \<Rightarrow> 'q world \<Rightarrow> task result \<times> 'q world" where
  "trigger_job qc i w =
     (case job_get i (db w) of
        None \<Rightarrow> (Inl (HTTPException 404 ''Job not found''), w)
      | Some j \<Rightarrow> enqueue_task qc (jid j) w)"

subsection \<open>Queries\<close>

definition get_job :: "uuid \<Rightarrow> database \<Rightarrow> job result" where
  "get_job i d = (case job_get i d of None \<Rightarrow> Inl (HTTPException 404 ''Job not found'') | Some j \<Rightarrow> Inr j)"

definition list_job_tasks :: "uuid \<Rightarrow> database \<Rightarrow> task list result" where
  "list_job_tasks i d = (case get_job i d of Inl e \<Rightarrow> Inl e | Inr j \<Rightarrow> Inr (list_by_job i d))"

record job_list_response =
  items :: "job list"
  page :: nat
  page_size :: nat
  total :: nat
  total_pages :: nat

definition list_jobs :: "nat \<Rightarrow> nat \<Rightarrow> job_filter \<Rightarrow> database \<Rightarrow> job list \<times> nat" where
  [simp]: "list_jobs pg psize f d = list_paginated pg psize f d"

text \<open>\<open>GET /api/v1/jobs\<close>: the bounds of the query parameters are FastAPI's, which answers 422 outside them.\<close>

definition list_jobs_endpoint :: "nat \<Rightarrow> nat \<Rightarrow> job_filter \<Rightarrow> database \<Rightarrow> job_list_response result" where
  "list_jobs_endpoint pg psize f d =
     (if pg < 1 \<or> psize < 1 \<or> 100 < psize \<or> (case f_q f of None \<Rightarrow> False | Some q \<Rightarrow> q = [] \<or> 255 < length q)
      then Inl (unprocessable ''query parameters'')
      else let (rows, n) = list_jobs pg psize f d in
        Inr \<lparr>items = rows, page = pg, page_size = psize, total = n,
             total_pages = max ((n + psize - 1) div psize) 1\<rparr>)"

subsection \<open>Edges at one job keep the graph acyclic unless they close a cycle through it\<close>

lemma trancl_through:
  assumes new: "\<And>x y. (x, y) \<in> E' \<Longrightarrow> (x, y) \<notin> E \<Longrightarrow> x = j \<or> y = j" and path: "(x, y) \<in> E'\<^sup>+"
  shows "(x, y) \<in> E\<^sup>+ \<or> (x, j) \<in> E'\<^sup>* \<and> (j, y) \<in> E'\<^sup>*"
  using path
proof (induction rule: trancl_induct)
  case (base y)
  then show ?case using new [of x y] by (cases "(x, y) \<in> E") auto
next
  case (step y z)
  have xy: "(x, y) \<in> E'\<^sup>*" using step.hyps(1) by (rule trancl_into_rtrancl)
  from step.IH show ?case
  proof
    assume "(x, y) \<in> E\<^sup>+"
    show ?thesis
    proof (cases "(y, z) \<in> E")
      case True
      with \<open>(x, y) \<in> E\<^sup>+\<close> show ?thesis by (auto intro: trancl_into_trancl)
    next
      case False
      with new step.hyps(2) have "y = j \<or> z = j" by blast
      with xy step.hyps(2) show ?thesis by (auto intro: rtrancl_into_rtrancl)
    qed
  next
    assume "(x, j) \<in> E'\<^sup>* \<and> (j, y) \<in> E'\<^sup>*"
    with step.hyps(2) show ?thesis by (auto intro: rtrancl_into_rtrancl)
  qed
qed

lemma acyclic_incident:
  assumes "acyclic E" and new: "\<And>x y. (x, y) \<in> E' \<Longrightarrow> (x, y) \<notin> E \<Longrightarrow> x = j \<or> y = j"
    and "(j, j) \<notin> E'\<^sup>+"
  shows "acyclic E'"
  unfolding acyclic_def
proof (intro allI notI)
  fix x assume x: "(x, x) \<in> E'\<^sup>+"
  from trancl_through [of E' E j x x, OF new this] assms(1)
  have "(j, x) \<in> E'\<^sup>*" "(x, j) \<in> E'\<^sup>*" by (auto simp: acyclic_def)
  with x have "(j, j) \<in> E'\<^sup>+" by (metis rtrancl_trancl_trancl trancl_rtrancl_trancl)
  with assms(3) show False ..
qed

lemma circular_iff: "circular i d \<longleftrightarrow> (i, i) \<in> (set (job_dependencies d))\<^sup>+"
  by (simp add: circular_def get_all_descendants_trancl)

subsection \<open>The invariant of the stored jobs\<close>

text \<open>The runtime specification is derived state.\<close>

definition spec_derived :: "settings \<Rightarrow> job \<Rightarrow> bool" where
  "spec_derived cfg j \<longleftrightarrow>
     (case build_runtime_spec cfg (Some (action_type j)) (action_config j) of
        Inl e \<Rightarrow> False | Inr spec \<Rightarrow> runtime_spec j = Some spec)"

lemma spec_derived_iff:
  "spec_derived cfg j \<longleftrightarrow>
     (\<exists>spec. build_runtime_spec cfg (Some (action_type j)) (action_config j) = Inr spec \<and> runtime_spec j = Some spec)"
  by (auto simp: spec_derived_def split: sum.splits)

definition specs_derived :: "settings \<Rightarrow> database \<Rightarrow> bool" where
  "specs_derived cfg d \<longleftrightarrow> (\<forall>j \<in> set (jobs d). spec_derived cfg j)"

definition store_inv :: "settings \<Rightarrow> 'q world \<Rightarrow> bool" where
  "store_inv cfg w \<longleftrightarrow> db_wf (db w) \<and> dag (db w) \<and> specs_derived cfg (db w) \<and> uuids_fresh w"

lemma store_inv_quiet: "quiet w w' \<Longrightarrow> store_inv cfg w \<Longrightarrow> store_inv cfg w'"
  by (simp add: store_inv_def quiet_fresh quietD)

subsection \<open>Schedules and on-demand tasks\<close>

lemma resolve_schedule_quiet: "resolve_schedule cr raw w = (r, w') \<Longrightarrow> quiet w w'"
  by (auto simp: resolve_schedule_def Let_def quiet_utcnow split: if_splits prod.splits sum.splits)

lemma resolve_schedule_ok:
  assumes "resolve_schedule cr raw w = (Inr (jt, cron, nfa), w')"
  shows "jt = normal \<and> cron = None \<and> nfa = None \<or> jt = scheduled \<and> (\<exists>c t. cron = Some c \<and> nfa = Some t)"
  using assms by (auto simp: resolve_schedule_def Let_def split: if_splits prod.splits sum.splits)

text \<open>The outcomes of \<open>_enqueue_task\<close>: rejected by the database, stored but not sent, or stored and sent.\<close>

lemma enqueue_task_cases:
  assumes "enqueue_task qc i w = (r, w')"
  obtains (rejected) e where "r = Inl e" "quiet w w'" "\<not> (uuids_fresh w \<and> i \<in> job_ids (db w))"
  | (unsent) e t_id now w1 w2 d where "r = Inl e" "uuid4 w = (t_id, w1)" "utcnow w1 = (now, w2)"
      "task_create (new_task t_id i manual 0 now) (db w) = Inr d" "w' = w2\<lparr>db := d\<rparr>"
      "send_task qc t_id (normal_queue w) = Inl e"
  | (sent) t_id now w1 w2 d q where "r = Inr (new_task t_id i manual 0 now)"
      "uuid4 w = (t_id, w1)" "utcnow w1 = (now, w2)"
      "task_create (new_task t_id i manual 0 now) (db w) = Inr d"
      "send_task qc t_id (normal_queue w) = Inr q" "w' = w2\<lparr>db := d, normal_queue := q\<rparr>"
proof -
  obtain t_id w1 where u: "uuid4 w = (t_id, w1)" by (cases "uuid4 w")
  obtain now w2 where n: "utcnow w1 = (now, w2)" by (cases "utcnow w1")
  have q: "quiet w w2" using quiet_trans [OF quiet_uuid4 [OF u] quiet_utcnow [OF n]] .
  let ?t = "new_task t_id i manual 0 now"
  show ?thesis
  proof (cases "task_create ?t (db w)")
    case (Inl e)
    then have "\<not> (uuids_fresh w \<and> i \<in> job_ids (db w))"
      using uuid4_new [OF _ u] by (auto simp: task_create_def split: if_splits)
    moreover have "r = Inl e" "w' = w2" using assms u n q Inl by (auto simp: enqueue_task_def quietD)
    ultimately show ?thesis using rejected [of e] q by simp
  next
    case (Inr d)
    show ?thesis
    proof (cases "send_task qc t_id (normal_queue w)")
      case (Inl e)
      then have "r = Inl e" "w' = w2\<lparr>db := d\<rparr>" using assms u n q Inr by (auto simp: enqueue_task_def quietD)
      then show ?thesis using unsent [OF _ u n Inr _ Inl] by simp
    next
      case (Inr q')
      then have "r = Inr ?t" "w' = w2\<lparr>db := d, normal_queue := q'\<rparr>"
        using assms u n q \<open>task_create ?t (db w) = Inr d\<close> by (auto simp: enqueue_task_def quietD)
      then show ?thesis using sent [OF _ u n \<open>task_create ?t (db w) = Inr d\<close> Inr] by simp
    qed
  qed
qed

lemma task_create_store:
  assumes inv: "store_inv cfg w" and u: "uuid4 w = (t_id, w1)" and q: "quiet w1 w2"
    and c: "task_create t (db w) = Inr (db w3)" and t: "task_ok t" "tid t = t_id"
    and src: "uuid_source w3 = uuid_source w2" "uuids_drawn w2 \<le> uuids_drawn w3"
  shows "store_inv cfg w3"
proof -
  note D = task_create_SomeD [OF c]
  have "db_wf (db w3)" using inv c t by (auto simp: store_inv_def intro: task_create_wf)
  moreover have "uuids_fresh w3"
    using inv u q D t src
    by (intro uuids_fresh_add [of w t_id w1 w2 w3]) (auto simp: store_inv_def job_ids_def task_ids_def)
  ultimately show ?thesis using inv D by (auto simp: store_inv_def dag_def specs_derived_def)
qed

lemma enqueue_task_store:
  assumes "store_inv cfg w" "enqueue_task qc i w = (r, w')"
  shows "store_inv cfg w'"
  using assms(2)
proof (cases rule: enqueue_task_cases)
  case (rejected e)
  then show ?thesis using assms(1) by (simp add: store_inv_quiet)
next
  case (unsent e t_id now w1 w2 d)
  show ?thesis
    using task_create_store [OF assms(1) unsent(2) quiet_utcnow [OF unsent(3)], of _ w'] unsent(4,5) by simp
next
  case (sent t_id now w1 w2 d q)
  show ?thesis
    using task_create_store [OF assms(1) sent(2) quiet_utcnow [OF sent(3)], of _ w'] sent(4,6) by simp
qed

lemma dispatch_if_one_time_store:
  assumes "store_inv cfg w" "dispatch_if_one_time qc j w = (r, w')"
  shows "store_inv cfg w'"
  using assms enqueue_task_store
  by (auto simp: dispatch_if_one_time_def split: if_splits prod.splits sum.splits)

subsection \<open>Creating a job\<close>

lemma created_job_sel [simp]:
  "jid (created_job p s spec i now) = i" "name (created_job p s spec i now) = p_name p"
  "job_type (created_job p s spec i now) = fst s"
  "cron_expression (created_job p s spec i now) = fst (snd s)"
  "next_fire_at (created_job p s spec i now) = snd (snd s)"
  "action_type (created_job p s spec i now) = p_action_type p"
  "action_config (created_job p s spec i now) = p_action_config p"
  "runtime_spec (created_job p s spec i now) = Some spec"
  "enabled (created_job p s spec i now) = p_enabled p"
  "max_retries (created_job p s spec i now) = p_max_retries p"
  by (simp_all add: created_job_def split: prod.splits)

lemma jobs_by_id_ids [simp]: "jid ` set (jobs_by_id ids d) = job_ids d \<inter> set ids"
  by (auto simp: jobs_by_id_def job_ids_def)

lemma create_job_cases:
  assumes "create_job cfg cr qc p w = (r, w')"
  obtains (rejected) e where "r = Inl e" "quiet w w'"
  | (stored) s spec i now w1 w2 w3 d r4 j where
      "resolve_schedule cr (p_cron_expression p) w = (Inr s, w1)"
      "build_runtime_spec cfg (Some (p_action_type p)) (p_action_config p) = Inr spec"
      "uuid4 w1 = (i, w2)" "utcnow w2 = (now, w3)" "j = created_job p s spec i now"
      "job_create j (created_edges p i (db w)) (db w) = Inr d" "\<not> circular i d"
      "dispatch_if_one_time qc j (w3\<lparr>db := d\<rparr>) = (r4, w')"
      "r = (case r4 of Inl e \<Rightarrow> Inl e | Inr u \<Rightarrow> Inr j)"
proof -
  obtain r1 w1 where s: "resolve_schedule cr (p_cron_expression p) w = (r1, w1)" by fastforce
  obtain i w2 where u: "uuid4 w1 = (i, w2)" by fastforce
  obtain now w3 where n: "utcnow w2 = (now, w3)" by fastforce
  note q1 = resolve_schedule_quiet [OF s]
  have q3: "quiet w w3" using quiet_trans [OF q1 quiet_trans [OF quiet_uuid4 [OF u] quiet_utcnow [OF n]]] .
  note def = assms [unfolded create_job_def s]
  show ?thesis
  proof (cases r1)
    case (Inl e)
    with def rejected [of e] q1 show ?thesis by simp
  next
    case r1: (Inr s')
    show ?thesis
    proof (cases "build_runtime_spec cfg (Some (p_action_type p)) (p_action_config p)")
      case (Inl e)
      with def r1 rejected [of e] q1 show ?thesis by simp
    next
      case spec: (Inr spec)
      let ?j = "created_job p s' spec i now"
      show ?thesis
      proof (cases "job_create ?j (created_edges p i (db w)) (db w)")
        case (Inl e)
        with def r1 spec u n q3 rejected [of e] show ?thesis by (simp add: quietD(1) [OF q3])
      next
        case d: (Inr d)
        show ?thesis
        proof (cases "circular i d")
          case True
          with def r1 spec u n d have "r = Inl (unprocessable ''Circular dependency detected'')" "w' = w3"
            by (auto simp: quietD(1) [OF q3])
          with rejected q3 show ?thesis by blast
        next
          case False
          obtain r4 w4 where w4: "dispatch_if_one_time qc ?j (w3\<lparr>db := d\<rparr>) = (r4, w4)" by fastforce
          have "create_job cfg cr qc p w = (case r4 of Inl e \<Rightarrow> Inl e | Inr u \<Rightarrow> Inr ?j, w4)"
            by (cases r4) (simp_all add: create_job_def s r1 spec u n quietD(1) [OF q3] d False w4 Let_def)
          with assms have "w' = w4" "r = (case r4 of Inl e \<Rightarrow> Inl e | Inr u \<Rightarrow> Inr ?j)" by simp_all
          with stored [OF s [unfolded r1] spec u n refl d False] w4 show ?thesis by simp
        qed
      qed
    qed
  qed
qed

lemma created_edges_set:
  "set (created_edges p i d) =
     (\<lambda>u. (u, i)) ` (job_ids d \<inter> set (p_upstream_job_ids p)) \<union>
     (\<lambda>x. (i, x)) ` (job_ids d \<inter> set (p_downstream_job_ids p))"
  unfolding created_edges_def jobs_by_id_ids [symmetric] by (simp add: image_image del: jobs_by_id_ids)

lemma created_edges_distinct:
  assumes "keys_ok d" "i \<notin> job_ids d"
  shows "distinct (created_edges p i d)"
proof -
  have "inj_on jid (set (jobs d))" "distinct (jobs d)"
    using assms by (auto simp: keys_ok_def distinct_map)
  then have "distinct (map (\<lambda>u. (jid u, i)) (jobs_by_id ids d))" "distinct (map (\<lambda>u. (i, jid u)) (jobs_by_id ids d))"
    for ids by (auto simp: jobs_by_id_def distinct_map inj_on_def)
  moreover have "set (map (\<lambda>u. (jid u, i)) (jobs_by_id ids d)) \<inter> set (map (\<lambda>u. (i, jid u)) (jobs_by_id ids' d)) = {}"
    for ids ids' using assms(2) by (auto simp: jobs_by_id_def job_ids_def)
  ultimately show ?thesis by (simp add: created_edges_def)
qed

lemma stored_job_inv:
  assumes inv: "store_inv cfg w" and q1: "quiet w w1" and u: "uuid4 w1 = (i, w2)" and q2: "quiet w2 w3"
    and c: "job_create j (created_edges p i (db w)) (db w) = Inr d" and nc: "\<not> circular i d"
    and j: "jid j = i" "job_ok j" "spec_derived cfg j"
  shows "store_inv cfg (w3\<lparr>db := d\<rparr>)"
proof -
  note D = job_create_SomeD [OF c]
  have db1: "db w1 = db w" using quietD(1) [OF q1] .
  have fresh1: "uuids_fresh w1" using inv q1 by (auto simp: store_inv_def quiet_fresh)
  then have new: "i \<notin> job_ids (db w)" using uuid4_new [OF fresh1 u] db1 by simp
  have fk: "fst ` set (job_dependencies (db w)) \<subseteq> job_ids (db w)"
    "snd ` set (job_dependencies (db w)) \<subseteq> job_ids (db w)"
    using inv by (auto simp: store_inv_def db_wf_def fks_ok_def)
  have "db_wf d"
  proof (rule job_create_wf [OF _ c j(2)])
    show "db_wf (db w)" using inv by (simp add: store_inv_def)
    then show "distinct (created_edges p i (db w))" using new by (auto simp: db_wf_def created_edges_distinct)
    show "set (created_edges p i (db w)) \<inter> set (job_dependencies (db w)) = {}"
      using new fk by (force simp: created_edges_set)
  qed (auto simp: created_edges_set j)
  moreover have "dag d"
    unfolding dag_def
  proof (rule acyclic_incident)
    show "acyclic (set (job_dependencies (db w)))" using inv by (simp add: store_inv_def dag_def)
    show "(i, i) \<notin> (set (job_dependencies d))\<^sup>+" using nc by (simp add: circular_iff)
  qed (use D in \<open>auto simp: created_edges_set\<close>)
  moreover have "specs_derived cfg d" using inv D j by (simp add: store_inv_def specs_derived_def)
  moreover have "uuids_fresh (w3\<lparr>db := d\<rparr>)"
    by (rule uuids_fresh_add [OF fresh1 u q2]) (use D j db1 in \<open>auto simp: job_ids_def task_ids_def\<close>)
  ultimately show ?thesis by (simp add: store_inv_def)
qed

lemma create_job_store:
  assumes inv: "store_inv cfg w" and r: "0 \<le> p_max_retries p" and c: "create_job cfg cr qc p w = (r, w')"
  shows "store_inv cfg w'"
  using c
proof (cases rule: create_job_cases)
  case (rejected e)
  with inv show ?thesis by (simp add: store_inv_quiet)
next
  case (stored s spec i now w1 w2 w3 d r4 j)
  obtain jt cron nfa where s: "s = (jt, cron, nfa)" by (cases s)
  have "job_ok j" using resolve_schedule_ok [OF stored(1) [unfolded s]] r stored(5) s by (auto simp: job_ok_def)
  moreover have "spec_derived cfg j" using stored by (simp add: spec_derived_def)
  ultimately have "store_inv cfg (w3\<lparr>db := d\<rparr>)"
    using stored_job_inv [OF inv resolve_schedule_quiet [OF stored(1)] stored(3) quiet_utcnow [OF stored(4)]
        stored(6,7)] stored(5) by simp
  with stored(8) show ?thesis by (rule dispatch_if_one_time_store [rotated])
qed

subsection \<open>Updating a job\<close>

lemma new_schedule_quiet: "new_schedule cr p j w = (r, w') \<Longrightarrow> quiet w w'"
  by (auto simp: new_schedule_def resolve_schedule_quiet split: option.splits)

lemma set_columns_sel [simp]:
  "jid (set_columns p j) = jid j" "job_type (set_columns p j) = job_type j"
  "cron_expression (set_columns p j) = cron_expression j" "next_fire_at (set_columns p j) = next_fire_at j"
  "runtime_spec (set_columns p j) = runtime_spec j" "updated_at (set_columns p j) = updated_at j"
  "jcreated_at (set_columns p j) = jcreated_at j"
  by (simp_all add: set_columns_def)

lemma set_schedule_sel [simp]:
  "jid (set_schedule s j) = jid j" "job_type (set_schedule s j) = fst s"
  "cron_expression (set_schedule s j) = fst (snd s)" "next_fire_at (set_schedule s j) = snd (snd s)"
  "runtime_spec (set_schedule s j) = runtime_spec j" "action_type (set_schedule s j) = action_type j"
  "action_config (set_schedule s j) = action_config j" "max_retries (set_schedule s j) = max_retries j"
  "enabled (set_schedule s j) = enabled j" "name (set_schedule s j) = name j"
  by (simp_all add: set_schedule_def)

lemma update_job_cases:
  assumes "update_job cfg cr li qc i p w = (r, w')"
  obtains (rejected) e where "r = Inl e" "quiet w w'"
  | (stored) j0 s spec now w1 w2 d j2 j4 where
      "get_job_row (db w) i = Some j0" "new_schedule cr p (set_columns p j0) w = (Inr s, w1)"
      "j2 = set_schedule s (set_columns p j0)" "rederive_spec cfg li p j2 = Inr spec" "utcnow w1 = (now, w2)"
      "store_update p now (j2\<lparr>runtime_spec := spec\<rparr>) (db w) = Inr d"
      "j4 = refreshed d (j2\<lparr>runtime_spec := spec\<rparr>)"
      "(r, w') = (if \<not> enabled j0 \<and> enabled j4 then
          (case dispatch_if_one_time qc j4 (w2\<lparr>db := d\<rparr>) of
             (Inl e, w4) \<Rightarrow> (Inl e, w4) | (Inr u, w4) \<Rightarrow> (Inr j4, w4))
        else (Inr j4, w2\<lparr>db := d\<rparr>))"
proof (cases "get_job_row (db w) i")
  case None
  with assms rejected [of "HTTPException 404 ''Job not found''"] show ?thesis
    by (simp add: update_job_def job_get_def)
next
  case j0: (Some j0)
  obtain r1 w1 where s: "new_schedule cr p (set_columns p j0) w = (r1, w1)" by fastforce
  obtain now w2 where n: "utcnow w1 = (now, w2)" by fastforce
  note q1 = new_schedule_quiet [OF s]
  have q2: "quiet w w2" using quiet_trans [OF q1 quiet_utcnow [OF n]] .
  show ?thesis
  proof (cases r1)
    case (Inl e)
    then have "update_job cfg cr li qc i p w = (Inl e, w1)" by (simp add: update_job_def job_get_def j0 s)
    with assms rejected [of e] q1 show ?thesis by simp
  next
    case r1: (Inr s')
    let ?j2 = "set_schedule s' (set_columns p j0)"
    show ?thesis
    proof (cases "rederive_spec cfg li p ?j2")
      case (Inl e)
      then have "update_job cfg cr li qc i p w = (Inl e, w1)" by (simp add: update_job_def job_get_def j0 s r1)
      with assms rejected [of e] q1 show ?thesis by simp
    next
      case spec: (Inr spec)
      let ?j3 = "?j2\<lparr>runtime_spec := spec\<rparr>"
      show ?thesis
      proof (cases "store_update p now ?j3 (db w)")
        case (Inl e)
        then have "update_job cfg cr li qc i p w = (Inl e, w2)"
          by (simp add: update_job_def job_get_def j0 s r1 spec n quietD(1) [OF q2] Let_def)
        with assms rejected [of e] q2 show ?thesis by simp
      next
        case d: (Inr d)
        from assms have "(r, w') = (if \<not> enabled j0 \<and> enabled (refreshed d ?j3) then
              (case dispatch_if_one_time qc (refreshed d ?j3) (w2\<lparr>db := d\<rparr>) of
                 (Inl e, w4) \<Rightarrow> (Inl e, w4) | (Inr u, w4) \<Rightarrow> (Inr (refreshed d ?j3), w4))
            else (Inr (refreshed d ?j3), w2\<lparr>db := d\<rparr>))"
          by (simp add: update_job_def job_get_def j0 s r1 spec n quietD(1) [OF q2] d Let_def)
        with stored [OF j0 s [unfolded r1] refl spec n d refl] show ?thesis by blast
      qed
    qed
  qed
qed

lemma distinct_edges_from:
  assumes "keys_ok d" shows "distinct (map (\<lambda>x. (i, jid x)) (jobs_by_id ids d))"
  using assms by (auto simp: keys_ok_def jobs_by_id_def distinct_map inj_on_def)

lemma distinct_edges_to:
  assumes "keys_ok d" shows "distinct (map (\<lambda>x. (jid x, i)) (jobs_by_id ids d))"
  using assms by (auto simp: keys_ok_def jobs_by_id_def distinct_map inj_on_def)

lemma replace_dependencies_distinct:
  assumes "keys_ok d" shows "distinct (replace_dependencies p i d)"
proof -
  have "distinct (job_dependencies d)" using assms by (simp add: keys_ok_def)
  then show ?thesis
    by (auto simp: replace_dependencies_def Let_def distinct_edges_from [OF assms] distinct_edges_to [OF assms]
        split: option.splits intro!: distinct_filter)
qed

lemma replace_dependencies_new:
  "(x, y) \<in> set (replace_dependencies p i d) \<Longrightarrow> (x, y) \<notin> set (job_dependencies d) \<Longrightarrow> x = i \<or> y = i"
  by (auto simp: replace_dependencies_def Let_def split: option.splits if_splits)

lemma replace_dependencies_unchanged:
  "\<not> dependencies_changed p \<Longrightarrow> replace_dependencies p i d = job_dependencies d"
  by (auto simp: replace_dependencies_def dependencies_changed_def Let_def split: option.splits)

lemma replace_dependencies_fk:
  assumes "fks_ok d" "i \<in> job_ids d"
  shows "fst ` set (replace_dependencies p i d) \<subseteq> job_ids d" "snd ` set (replace_dependencies p i d) \<subseteq> job_ids d"
  using assms
  by (auto simp: replace_dependencies_def Let_def fks_ok_def jobs_by_id_def job_ids_def split: option.splits if_splits)

lemma store_update_inv:
  assumes inv: "store_inv cfg w" and q: "quiet w w2" and u: "store_update p now j (db w) = Inr d"
    and j: "jid j \<in> job_ids (db w)" "job_ok j" "spec_derived cfg j"
  shows "store_inv cfg (w2\<lparr>db := d\<rparr>)"
proof -
  let ?d1 = "(db w)\<lparr>job_dependencies := replace_dependencies p (jid j) (db w)\<rparr>"
  have wf: "keys_ok (db w)" "fks_ok (db w)" using inv by (simp_all add: store_inv_def db_wf_def)
  have u': "job_update now j ?d1 = Inr d" "dependencies_changed p \<longrightarrow> \<not> circular (jid j) d"
    using u by (auto simp: store_update_def split: if_splits sum.splits)
  note F = job_update_frame [OF u'(1)]
  have "db_wf ?d1"
    using inv replace_dependencies_distinct [OF wf(1)] replace_dependencies_fk [OF wf(2) j(1)]
    by (simp add: store_inv_def db_wf_def keys_ok_def fks_ok_def job_ids_def)
  then have "db_wf d" using u'(1) j(2) by (rule job_update_wf)
  moreover have "dag d"
  proof (cases "dependencies_changed p")
    case True
    show ?thesis unfolding dag_def
    proof (rule acyclic_incident)
      show "acyclic (set (job_dependencies (db w)))" using inv by (simp add: store_inv_def dag_def)
      show "(jid j, jid j) \<notin> (set (job_dependencies d))\<^sup>+" using u' True by (simp add: circular_iff)
    qed (use F in \<open>auto dest: replace_dependencies_new\<close>)
  next
    case False
    with F inv show ?thesis by (simp add: replace_dependencies_unchanged store_inv_def dag_def)
  qed
  moreover have "specs_derived cfg d"
    using u'(1)
  proof (cases rule: job_update_cases)
    case 1
    with inv show ?thesis by (simp add: store_inv_def specs_derived_def)
  next
    case (2 old j')
    then have "spec_derived cfg j'" using j(3) by (auto simp: spec_derived_iff)
    with 2 inv show ?thesis by (auto simp: store_inv_def specs_derived_def elim!: in_update_rowE)
  qed
  moreover have "uuids_fresh (w2\<lparr>db := d\<rparr>)"
  proof (rule uuids_fresh_sub)
    show "uuids_fresh w" using inv by (simp add: store_inv_def)
    show "job_ids (db (w2\<lparr>db := d\<rparr>)) \<union> task_ids (db (w2\<lparr>db := d\<rparr>)) \<subseteq> job_ids (db w) \<union> task_ids (db w)"
      using F by (simp add: job_ids_def task_ids_def)
  qed (use q in \<open>simp_all add: quiet_def\<close>)
  ultimately show ?thesis by (simp add: store_inv_def)
qed

lemma rederive_spec_derived:
  assumes "spec_derived cfg j0" "rederive_spec cfg li p j = Inr spec"
    and j: "runtime_spec j = runtime_spec j0" "action_type j = action_type (set_columns p j0)"
      "action_config j = action_config (set_columns p j0)"
  shows "spec_derived cfg (j\<lparr>runtime_spec := spec\<rparr>)"
proof (cases "u_action_type p = None \<and> u_action_config p = None")
  case True
  then show ?thesis using assms by (auto simp: rederive_spec_def spec_derived_iff set_columns_def)
next
  case False
  let ?at = "case u_action_type p of None \<Rightarrow> Some (action_type j) | Some v \<Rightarrow> v"
  let ?c = "case u_action_config p of None \<Rightarrow> action_config j | Some None \<Rightarrow> JNull | Some (Some c) \<Rightarrow> c"
  obtain sp where sp: "spec = Some sp" "build_runtime_spec cfg ?at ?c = Inr sp"
    "case ?at of None \<Rightarrow> True | Some a \<Rightarrow> action_config_valid li a ?c"
    using assms(2) False by (auto simp: rederive_spec_def Let_def split: if_splits option.splits sum.splits)
  have "?at = Some (action_type j)"
    using sp(2) j by (auto simp: set_columns_def build_runtime_spec_def split: option.splits)
  moreover have "?c = action_config j"
  proof (cases "u_action_config p = Some None")
    case True
    then show ?thesis using sp(2,3) calculation
      by (auto simp: build_runtime_spec_def action_config_valid_def HttpActionConfig_valid_def
          ShellActionConfig_valid_def split: if_splits)
  next
    case False
    then show ?thesis using j by (auto simp: set_columns_def split: option.splits)
  qed
  ultimately show ?thesis using sp by (simp add: spec_derived_def)
qed

lemma updated_job_ok:
  assumes "job_ok j0" "new_schedule cr p (set_columns p j0) w = (Inr s, w1)" "JobUpdate_valid p"
  shows "job_ok (set_schedule s (set_columns p j0))"
proof -
  obtain jt cron nfa where s: "s = (jt, cron, nfa)" by (cases s)
  have "0 \<le> max_retries (set_columns p j0)"
    using assms(1,3) by (auto simp: set_columns_def JobUpdate_valid_def job_ok_def split: option.splits)
  moreover have "jt = normal \<and> cron = None \<and> nfa = None \<or> jt = scheduled \<and> cron \<noteq> None \<and> nfa \<noteq> None"
  proof (cases "u_cron_expression p")
    case None
    then show ?thesis using assms(1,2) s by (cases jt) (auto simp: new_schedule_def job_ok_def)
  next
    case (Some raw)
    then have "resolve_schedule cr raw w = (Inr (jt, cron, nfa), w1)" using assms(2) s by (simp add: new_schedule_def)
    from resolve_schedule_ok [OF this] show ?thesis by auto
  qed
  ultimately show ?thesis using s by (auto simp: job_ok_def)
qed

lemma update_job_store_row:
  assumes inv: "store_inv cfg w" and v: "JobUpdate_valid p" and j0: "get_job_row (db w) i = Some j0"
    and s: "new_schedule cr p (set_columns p j0) w = (Inr s, w1)" and j2: "j2 = set_schedule s (set_columns p j0)"
    and sp: "rederive_spec cfg li p j2 = Inr spec" and n: "utcnow w1 = (now, w2)"
    and u: "store_update p now (j2\<lparr>runtime_spec := spec\<rparr>) (db w) = Inr d"
  shows "store_inv cfg (w2\<lparr>db := d\<rparr>)"
proof (rule store_update_inv [OF inv _ u])
  show "quiet w w2" using quiet_trans [OF new_schedule_quiet [OF s] quiet_utcnow [OF n]] .
  have row: "j0 \<in> set (jobs (db w))" using get_job_row_SomeD [OF j0] by simp
  then have ok0: "job_ok j0" "spec_derived cfg j0"
    using inv by (auto simp: store_inv_def db_wf_def specs_derived_def)
  show "job_ok (j2\<lparr>runtime_spec := spec\<rparr>)"
    using updated_job_ok [OF ok0(1) s v] j2 by (simp add: job_ok_def)
  show "spec_derived cfg (j2\<lparr>runtime_spec := spec\<rparr>)" using rederive_spec_derived [OF ok0(2) sp] j2 by simp
  show "jid (j2\<lparr>runtime_spec := spec\<rparr>) \<in> job_ids (db w)" using row j2 by (simp add: job_ids_def)
qed

lemma update_job_store:
  assumes inv: "store_inv cfg w" and v: "JobUpdate_valid p" and u: "update_job cfg cr li qc i p w = (r, w')"
  shows "store_inv cfg w'"
  using u
proof (cases rule: update_job_cases)
  case (rejected e)
  with inv show ?thesis by (simp add: store_inv_quiet)
next
  case (stored j0 s spec now w1 w2 d j2 j4)
  note inv2 = update_job_store_row [OF inv v stored(1-6)]
  obtain r4 w4 where d4: "dispatch_if_one_time qc j4 (w2\<lparr>db := d\<rparr>) = (r4, w4)" by fastforce
  then have "w' = w4 \<or> w' = w2\<lparr>db := d\<rparr>" using stored(8) by (cases r4) (auto split: if_splits)
  with dispatch_if_one_time_store [OF inv2 d4] inv2 show ?thesis by auto
qed

subsection \<open>Deleting and triggering\<close>

lemma delete_job_store:
  assumes inv: "store_inv cfg w" and d: "delete_job i w = (r, w')"
  shows "store_inv cfg w'"
proof (cases "job_get i (db w)")
  case None
  with d inv show ?thesis by (simp add: delete_job_def)
next
  case (Some j)
  with d have w': "w' = w\<lparr>db := job_delete (jid j) (db w)\<rparr>" by (simp add: delete_job_def)
  have "uuids_fresh w'"
    by (rule uuids_fresh_sub [of w])
      (use inv w' in \<open>auto simp: store_inv_def job_delete_def job_ids_def task_ids_def\<close>)
  moreover have "specs_derived cfg (job_delete (jid j) (db w))"
    using inv by (simp add: store_inv_def specs_derived_def job_delete_def)
  ultimately show ?thesis using inv w' by (simp add: store_inv_def job_delete_wf job_delete_dag)
qed

lemma trigger_job_store:
  assumes "store_inv cfg w" "trigger_job qc i w = (r, w')"
  shows "store_inv cfg w'"
  using assms enqueue_task_store by (auto simp: trigger_job_def split: option.splits)

lemma initial_store_inv: "inj src \<Longrightarrow> store_inv cfg (initial_world clk src)"
  using initial_world_wf [of src clk] by (simp add: store_inv_def specs_derived_def initial_world_def)

lemma sample_store_inv [simp]: "store_inv cfg sample_world"
  unfolding sample_world_def by (rule initial_store_inv [OF inj_replicate])

subsection \<open>The commands over any queue client\<close>

text \<open>\<open>runs_once d t\<close>: the table gained exactly the row of one fresh on-demand run of the job.\<close>

definition runs_once :: "uuid \<Rightarrow> database \<Rightarrow> database \<Rightarrow> task \<Rightarrow> bool" where
  "runs_once i d d' t \<longleftrightarrow>
     d' = d\<lparr>tasks := tasks d @ [t]\<rparr> \<and> t = new_task (tid t) i manual 0 (tcreated_at t) \<and> tid t \<notin> task_ids d"

text \<open>\<open>sent_or_failed\<close>: the message of the task was sent, and the request ends with \<open>x\<close>; or sending raised, the
  queue is as it was and the request ends with that error. The row is committed either way.\<close>

definition sent_or_failed :: "'q queue_client \<Rightarrow> uuid \<Rightarrow> 'q \<Rightarrow> 'q \<Rightarrow> 'a result \<Rightarrow> 'a \<Rightarrow> bool" where
  "sent_or_failed qc t q q' r x \<longleftrightarrow>
     (case send_task qc t q of Inl e \<Rightarrow> r = Inl e \<and> q' = q | Inr q1 \<Rightarrow> r = Inr x \<and> q' = q1)"

lemma enqueue_task_any:
  assumes "uuids_fresh w" "i \<in> job_ids (db w)" "enqueue_task qc i w = (r, w')"
  shows "\<exists>t. runs_once i (db w) (db w') t \<and> sent_or_failed qc (tid t) (normal_queue w) (normal_queue w') r t \<and>
    scheduled_queue w' = scheduled_queue w \<and> retry_queue w' = retry_queue w"
  using assms(3)
proof (cases rule: enqueue_task_cases)
  case (rejected e)
  with assms(1,2) show ?thesis by simp
next
  case (unsent e t_id now w1 w2 d)
  have q: "quiet w w2" using quiet_trans [OF quiet_uuid4 [OF unsent(2)] quiet_utcnow [OF unsent(3)]] .
  have "send_task qc t_id (normal_queue w) = Inl e" using unsent(6) by blast
  then show ?thesis
    using unsent(1,5) task_create_SomeD [OF unsent(4)] quietD [OF q]
    by (intro exI [of _ "new_task t_id i manual 0 now"]) (simp add: runs_once_def sent_or_failed_def)
next
  case (sent t_id now w1 w2 d q)
  have "quiet w w2" using quiet_trans [OF quiet_uuid4 [OF sent(2)] quiet_utcnow [OF sent(3)]] .
  then show ?thesis
    using sent(1,5,6) task_create_SomeD [OF sent(4)]
    by (intro exI [of _ "new_task t_id i manual 0 now"]) (simp add: runs_once_def sent_or_failed_def quietD)
qed

lemma dispatch_if_one_time_any:
  assumes "uuids_fresh w" "jid j \<in> job_ids (db w)" "dispatch_if_one_time qc j w = (r, w')"
  shows "if job_type j = normal \<and> enabled j \<and> upstream_job_ids (db w) (jid j) = []
     then \<exists>t. runs_once (jid j) (db w) (db w') t \<and> sent_or_failed qc (tid t) (normal_queue w) (normal_queue w') r ()
     else r = Inr () \<and> w' = w"
proof (cases "job_type j = normal \<and> enabled j \<and> upstream_job_ids (db w) (jid j) = []")
  case True
  obtain r1 w1 where e: "enqueue_task qc (jid j) w = (r1, w1)" by fastforce
  have "w' = w1" "r = map_sum id (\<lambda>t. ()) r1" using assms(3) True e by (auto simp: dispatch_if_one_time_def split: sum.splits)
  moreover obtain t where "runs_once (jid j) (db w) (db w1) t"
    "sent_or_failed qc (tid t) (normal_queue w) (normal_queue w1) r1 t"
    using enqueue_task_any [OF assms(1,2) e] by blast
  moreover from this(2) have "sent_or_failed qc (tid t) (normal_queue w) (normal_queue w1) (map_sum id (\<lambda>t. ()) r1) ()"
    by (auto simp: sent_or_failed_def split: sum.splits)
  ultimately show ?thesis using True by auto
next
  case False
  with assms(3) show ?thesis by (auto simp: dispatch_if_one_time_def)
qed

lemma create_job_any:
  assumes inv: "store_inv cfg w" and v: "0 \<le> p_max_retries p" and c: "create_job cfg cr qc p w = (r, w')"
  shows "(\<exists>e. r = Inl e \<and> quiet w w') \<or>
    (\<exists>j. jobs (db w') = jobs (db w) @ [j] \<and>
       set (job_dependencies (db w')) = set (job_dependencies (db w)) \<union>
         (\<lambda>u. (u, jid j)) ` (job_ids (db w) \<inter> set (p_upstream_job_ids p)) \<union>
         (\<lambda>x. (jid j, x)) ` (job_ids (db w) \<inter> set (p_downstream_job_ids p)) \<and>
       (if job_type j = normal \<and> enabled j \<and> upstream_job_ids (db w') (jid j) = []
        then \<exists>t. tasks (db w') = tasks (db w) @ [t] \<and> t = new_task (tid t) (jid j) manual 0 (tcreated_at t) \<and>
               sent_or_failed qc (tid t) (normal_queue w) (normal_queue w') r j
        else r = Inr j \<and> tasks (db w') = tasks (db w) \<and> normal_queue w' = normal_queue w))"
  using c
proof (cases rule: create_job_cases)
  case (rejected e)
  then show ?thesis by simp
next
  case (stored s spec i now w1 w2 w3 d r4 j)
  note q1 = resolve_schedule_quiet [OF stored(1)]
  have q3: "quiet w w3"
    using quiet_trans [OF q1 quiet_trans [OF quiet_uuid4 [OF stored(3)] quiet_utcnow [OF stored(4)]]] .
  obtain jt cron nfa where s: "s = (jt, cron, nfa)" by (cases s)
  have j: "jid j = i" "job_ok j" "spec_derived cfg j"
    using resolve_schedule_ok [OF stored(1) [unfolded s]] v stored(2,5) s by (auto simp: job_ok_def spec_derived_def)
  note D = job_create_SomeD [OF stored(6)]
  let ?w = "w3\<lparr>db := d\<rparr>"
  have "store_inv cfg ?w"
    by (rule stored_job_inv [OF inv q1 stored(3) quiet_utcnow [OF stored(4)] stored(6,7) j])
  then have fresh: "uuids_fresh ?w" by (simp add: store_inv_def)
  have mem: "jid j \<in> job_ids (db ?w)" using D by (simp add: job_ids_def)
  have r: "r = map_sum id (\<lambda>u. j) r4" using stored(9) by (simp split: sum.splits)
  note S = dispatch_if_one_time_any [OF fresh mem stored(8)]
  show ?thesis
  proof (cases "job_type j = normal \<and> enabled j \<and> upstream_job_ids d (jid j) = []")
    case True
    with S obtain t where t: "runs_once (jid j) d (db w') t"
      "sent_or_failed qc (tid t) (normal_queue w) (normal_queue w') r4 ()"
      using quietD(2) [OF q3] by auto
    have "upstream_job_ids (db w') (jid j) = []" using t(1) True by (simp add: runs_once_def upstream_job_ids_def)
    moreover have "sent_or_failed qc (tid t) (normal_queue w) (normal_queue w') r j"
      using t(2) r by (auto simp: sent_or_failed_def split: sum.splits)
    ultimately show ?thesis using t(1) D True j(1) by (intro disjI2 exI [of _ j]) (auto simp: runs_once_def created_edges_set)
  next
    case False
    then have w': "w' = ?w" "r = Inr j" using S r by auto
    have "\<not> (job_type j = normal \<and> enabled j \<and> upstream_job_ids (db w') (jid j) = [])" using False w' by simp
    then show ?thesis using w' D j(1) quietD(2) [OF q3]
      by (intro disjI2 exI [of _ j]) (simp add: created_edges_set Un_assoc)
  qed
qed

lemma update_job_any:
  assumes inv: "store_inv cfg w" and v: "JobUpdate_valid p" and c: "update_job cfg cr li qc i p w = (r, w')"
  shows "(\<exists>e. r = Inl e \<and> quiet w w') \<or>
    (\<exists>j0 j. get_job_row (db w) i = Some j0 \<and> get_job_row (db w') i = Some j \<and>
       (\<forall>k. k \<noteq> i \<longrightarrow> get_job_row (db w') k = get_job_row (db w) k) \<and>
       job_dependencies (db w') = replace_dependencies p i (db w) \<and>
       (if \<not> enabled j0 \<and> enabled j \<and> job_type j = normal \<and> upstream_job_ids (db w') i = []
        then \<exists>t. tasks (db w') = tasks (db w) @ [t] \<and> t = new_task (tid t) i manual 0 (tcreated_at t) \<and>
               sent_or_failed qc (tid t) (normal_queue w) (normal_queue w') r j
        else r = Inr j \<and> tasks (db w') = tasks (db w) \<and> normal_queue w' = normal_queue w))"
  using c
proof (cases rule: update_job_cases)
  case (rejected e)
  then show ?thesis by simp
next
  case (stored j0 s spec now w1 w2 d j2 j4)
  let ?j3 = "j2\<lparr>runtime_spec := spec\<rparr>"
  let ?w = "w2\<lparr>db := d\<rparr>"
  let ?d1 = "(db w)\<lparr>job_dependencies := replace_dependencies p i (db w)\<rparr>"
  have q: "quiet w w2"
    using quiet_trans [OF new_schedule_quiet [OF stored(2)] quiet_utcnow [OF stored(5)]] .
  have j3: "jid ?j3 = i" using stored(3) get_job_row_SomeD [OF stored(1)] by simp
  have up: "job_update now ?j3 ?d1 = Inr d"
    using stored(6) j3 by (auto simp: store_update_def split: if_splits sum.splits)
  note F = job_update_frame [OF up]
  obtain j' where j': "get_job_row d i = Some j'" "j' = ?j3 \<or> j' = ?j3\<lparr>updated_at := now\<rparr>"
    using job_update_row [OF up] j3 by auto
  then have j4: "get_job_row d i = Some j4" "jid j4 = i"
    using stored(7) j3 by (auto simp: refreshed_def job_get_def)
  have others: "get_job_row d k = get_job_row (db w) k" if "k \<noteq> i" for k
    using job_update_other [OF up, of k] that j3 by (simp add: get_job_row_def)
  have inv2: "store_inv cfg ?w"
    by (rule update_job_store_row [OF inv v stored(1-6)])
  have mem: "jid j4 \<in> job_ids (db ?w)" using j4 get_job_row_None_iff [of d i] by simp
  show ?thesis
  proof (cases "\<not> enabled j0 \<and> enabled j4")
    case True
    obtain r4 w4 where d4: "dispatch_if_one_time qc j4 ?w = (r4, w4)" by fastforce
    have fresh: "uuids_fresh ?w" using inv2 by (simp add: store_inv_def)
    note S = dispatch_if_one_time_any [OF fresh mem d4]
    have r: "r = map_sum id (\<lambda>u. j4) r4" "w' = w4" using stored(8) True d4 by (auto split: sum.splits)
    show ?thesis
    proof (cases "job_type j4 = normal \<and> upstream_job_ids d i = []")
      case one: True
      with S True j4 obtain t where t: "runs_once i d (db w4) t"
        "sent_or_failed qc (tid t) (normal_queue w) (normal_queue w4) r4 ()"
        using quietD(2) [OF q] by auto
      have "sent_or_failed qc (tid t) (normal_queue w) (normal_queue w4) r j4"
        using t(2) r(1) by (auto simp: sent_or_failed_def split: sum.splits)
      moreover have "jobs (db w4) = jobs d" "job_dependencies (db w4) = job_dependencies d"
        using t(1) by (simp_all add: runs_once_def)
      ultimately show ?thesis using t(1) F r(2) j4 others stored(1) True one
        by (auto simp: get_job_row_def upstream_job_ids_def runs_once_def)
    next
      case False
      then have "w4 = ?w" "r = Inr j4" using S j4 r(1) by auto
      then show ?thesis using F r(2) j4 others stored(1) False quietD(2) [OF q] by auto
    qed
  next
    case False
    then have "r = Inr j4" "w' = ?w" using stored(8) by auto
    then show ?thesis using F j4 others stored(1) False quietD(2) [OF q] by auto
  qed
qed

subsection \<open>The commands over a queue whose sends succeed\<close>

context reliable_queue
begin

lemma sent_not_failed:
  "sent_or_failed client t q q' r x \<longleftrightarrow> r = Inr x \<and> send_task client t q = Inr q'"
  using send_not_error by (auto simp: sent_or_failed_def split: sum.splits)

lemma enqueue_task_sent:
  assumes "uuids_fresh w" "i \<in> job_ids (db w)" "enqueue_task client i w = (r, w')"
  shows "\<exists>t. r = Inr t \<and> runs_once i (db w) (db w') t \<and>
    waiting (normal_queue w') = add_mset (task_body (tid t)) (waiting (normal_queue w)) \<and>
    scheduled_queue w' = scheduled_queue w \<and> retry_queue w' = retry_queue w"
  using enqueue_task_any [OF assms] send_waiting by (auto simp: sent_not_failed)

lemma dispatch_if_one_time_sent:
  assumes "uuids_fresh w" "jid j \<in> job_ids (db w)" "dispatch_if_one_time client j w = (r, w')"
  shows "r = Inr () \<and>
    (if job_type j = normal \<and> enabled j \<and> upstream_job_ids (db w) (jid j) = []
     then \<exists>t. runs_once (jid j) (db w) (db w') t \<and>
            waiting (normal_queue w') = add_mset (task_body (tid t)) (waiting (normal_queue w))
     else w' = w)"
  using dispatch_if_one_time_any [OF assms] send_waiting by (auto simp: sent_not_failed split: if_splits)

lemma create_job_outcome:
  assumes inv: "store_inv cfg w" and v: "0 \<le> p_max_retries p" and c: "create_job cfg cr client p w = (r, w')"
  shows "case r of
      Inl e \<Rightarrow> quiet w w'
    | Inr j \<Rightarrow> jobs (db w') = jobs (db w) @ [j] \<and>
        set (job_dependencies (db w')) = set (job_dependencies (db w)) \<union>
          (\<lambda>u. (u, jid j)) ` (job_ids (db w) \<inter> set (p_upstream_job_ids p)) \<union>
          (\<lambda>x. (jid j, x)) ` (job_ids (db w) \<inter> set (p_downstream_job_ids p)) \<and>
        (if job_type j = normal \<and> enabled j \<and> upstream_job_ids (db w') (jid j) = []
         then \<exists>t. tasks (db w') = tasks (db w) @ [t] \<and> t = new_task (tid t) (jid j) manual 0 (tcreated_at t) \<and>
                waiting (normal_queue w') = add_mset (task_body (tid t)) (waiting (normal_queue w))
         else tasks (db w') = tasks (db w) \<and> normal_queue w' = normal_queue w)"
  using create_job_any [OF assms]
proof (elim disjE exE conjE, goal_cases)
  case (2 j)
  then have "r = Inr j" by (auto simp: sent_not_failed split: if_splits)
  then show ?case using 2 send_waiting by (fastforce simp: sent_not_failed split: if_splits)
qed simp

end

subsection \<open>Properties of the commands\<close>

definition sample_payload :: job_create_payload where
  "sample_payload =
     \<lparr>p_name = ''nightly'', p_cron_expression = Some ''* * * * *'', p_action_type = ''http'',
      p_action_config = JObj [(''url'', JStr ''http://x'')], p_enabled = True, p_concurrency_policy = forbid,
      p_max_retries = 2, p_upstream_job_ids = [], p_downstream_job_ids = []\<rparr>"

lemma sample_payload_valid [simp]: "JobCreate_valid strict_int sample_payload"
  by (simp add: JobCreate_valid_def sample_payload_def action_config_valid_def HttpActionConfig_valid_def
      jget_def is_str_def timeout_valid_def)

text \<open>(C10) \<open>create_job\<close> keeps the store consistent whatever the queue client does and whichever way
  the request ends: keys and foreign keys hold, the dependency graph stays acyclic, the schedule
  columns agree with the job type, and every stored runtime specification is the one derived from
  the stored action.\<close>

theorem create_job_keeps_store:
  assumes "store_inv cfg w" "JobCreate_valid lax_int p"
  shows "store_inv cfg (snd (create_job cfg cr qc p w))"
proof -
  obtain r w' where c: "create_job cfg cr qc p w = (r, w')" by fastforce
  have "0 \<le> p_max_retries p" using assms(2) by (simp add: JobCreate_valid_def)
  with create_job_store [OF assms(1) _ c] c show ?thesis by simp
qed

theorem create_job_keeps_store_witness:
  "store_inv default_settings (snd (create_job default_settings minutely MemoryQueueClient sample_payload sample_world))"
  by (rule create_job_keeps_store [where lax_int = strict_int]) simp_all

text \<open>(C15) \<open>update_job\<close> keeps the store consistent for every partial update the request schema
  accepts, whichever way the request ends.\<close>

theorem update_job_keeps_store:
  assumes "store_inv cfg w" "JobUpdate_valid p"
  shows "store_inv cfg (snd (update_job cfg cr lax_int qc i p w))"
proof -
  obtain r w' where c: "update_job cfg cr lax_int qc i p w = (r, w')" by fastforce
  with update_job_store [OF assms c] show ?thesis by simp
qed

theorem update_job_keeps_store_witness:
  "store_inv default_settings
     (snd (update_job default_settings minutely strict_int MemoryQueueClient ''a''
             (empty_update\<lparr>u_enabled := Some (Some False), u_cron_expression := Some None\<rparr>)
             (snd (create_job default_settings minutely MemoryQueueClient sample_payload sample_world))))"
proof (rule update_job_keeps_store)
  show "JobUpdate_valid (empty_update\<lparr>u_enabled := Some (Some False), u_cron_expression := Some None\<rparr>)"
    by (simp add: JobUpdate_valid_def empty_update_def)
  show "store_inv default_settings (snd (create_job default_settings minutely MemoryQueueClient sample_payload
      sample_world))"
    by (metis create_job_store prod.collapse sample_payload_valid JobCreate_valid_def sample_store_inv)
qed

text \<open>(C16) What a \<open>create_job\<close> request does, over any queue client. Either it ends with an error and nothing is
  stored and nothing is queued. Or the job's row and exactly the requested edges between existing jobs are
  added. Then a one-time job that is enabled and waits for no upstream gets exactly one pending manual task
  and one send of its id to the normal queue: when the send succeeds the request answers with the job; when it
  raises, the request ends with that error although the job and the task stay, and the queue is as it
  was. Every other job gets no task, sends nothing and is answered.\<close>

theorem create_job_effects:
  assumes "store_inv cfg w" "JobCreate_valid lax_int p" "create_job cfg cr qc p w = (r, w')"
  shows "(\<exists>e. r = Inl e \<and> db w' = db w \<and> normal_queue w' = normal_queue w) \<or>
    (\<exists>j. jobs (db w') = jobs (db w) @ [j] \<and>
       set (job_dependencies (db w')) = set (job_dependencies (db w)) \<union>
         (\<lambda>u. (u, jid j)) ` (job_ids (db w) \<inter> set (p_upstream_job_ids p)) \<union>
         (\<lambda>x. (jid j, x)) ` (job_ids (db w) \<inter> set (p_downstream_job_ids p)) \<and>
       (if job_type j = normal \<and> enabled j \<and> upstream_job_ids (db w') (jid j) = []
        then \<exists>t. tasks (db w') = tasks (db w) @ [t] \<and> t = new_task (tid t) (jid j) manual 0 (tcreated_at t) \<and>
               (case send_task qc (tid t) (normal_queue w) of
                  Inl e \<Rightarrow> r = Inl e \<and> normal_queue w' = normal_queue w
                | Inr q \<Rightarrow> r = Inr j \<and> normal_queue w' = q)
        else r = Inr j \<and> tasks (db w') = tasks (db w) \<and> normal_queue w' = normal_queue w))"
proof -
  have "0 \<le> p_max_retries p" using assms(2) by (simp add: JobCreate_valid_def)
  from create_job_any [OF assms(1) this assms(3)] show ?thesis unfolding sent_or_failed_def
  proof
    assume "\<exists>e. r = Inl e \<and> quiet w w'"
    then show ?thesis by (auto simp: quietD)
  qed (rule disjI2)
qed

text \<open>A queue client that is down.\<close>

definition broken_client :: "mem_queue queue_client" where
  "broken_client = MemoryQueueClient\<lparr>send_task := (\<lambda>t q. Inl QueueError)\<rparr>"

lemma broken_send: "send_task broken_client t q = Inl QueueError"
  by (simp add: broken_client_def)

lemma broken_create:
  "length (tasks (db (snd (create_job default_settings minutely broken_client (sample_payload\<lparr>p_cron_expression := None\<rparr>)
     sample_world)))) = 1"
  by code_simp

theorem create_job_effects_witness:
  "\<exists>t w'. create_job default_settings minutely broken_client (sample_payload\<lparr>p_cron_expression := None\<rparr>) sample_world =
       (Inl QueueError, w') \<and> tasks (db w') = [t] \<and> status t = pending \<and> trigger_type t = manual \<and>
     normal_queue w' = normal_queue sample_world"
proof -
  let ?p = "sample_payload\<lparr>p_cron_expression := None\<rparr>"
  obtain r w' where c: "create_job default_settings minutely broken_client ?p sample_world = (r, w')" by fastforce
  have one: "length (tasks (db w')) = 1" using broken_create c by simp
  have none: "tasks (db sample_world) = []" by (simp add: sample_world_def initial_world_def)
  have v: "JobCreate_valid strict_int ?p" using sample_payload_valid by (simp add: JobCreate_valid_def)
  have "\<exists>i t. tasks (db w') = [t] \<and> t = new_task (tid t) i manual 0 (tcreated_at t) \<and> r = Inl QueueError \<and>
      normal_queue w' = normal_queue sample_world"
    using create_job_effects [OF sample_store_inv v c] one none by (auto simp: broken_send split: if_splits)
  then obtain i t where t: "tasks (db w') = [t]" "t = new_task (tid t) i manual 0 (tcreated_at t)" "r = Inl QueueError"
    "normal_queue w' = normal_queue sample_world" by blast
  then have "status t = pending" "trigger_type t = manual" by (metis new_task_sel(3,4))+
  then show ?thesis using c t(1,3,4) by blast
qed

text \<open>(C24) What an \<open>update_job\<close> request does, over any queue client. Either it ends with an error and nothing is
  stored and nothing is queued. Or only the row of that job and its edges change. Then a one-time job that this
  update enables and that waits for no upstream gets exactly one pending manual task and one send of its id:
  when the send succeeds the request answers with the stored row; when it raises, the request ends with that
  error although the update and the task stay, and the queue is as it was. No other update creates a task.\<close>

theorem update_job_effects:
  assumes "store_inv cfg w" "JobUpdate_valid p" "update_job cfg cr lax_int qc i p w = (r, w')"
  shows "(\<exists>e. r = Inl e \<and> db w' = db w \<and> normal_queue w' = normal_queue w) \<or>
    (\<exists>j0 j. get_job_row (db w) i = Some j0 \<and> get_job_row (db w') i = Some j \<and>
       (\<forall>k. k \<noteq> i \<longrightarrow> get_job_row (db w') k = get_job_row (db w) k) \<and>
       job_dependencies (db w') = replace_dependencies p i (db w) \<and>
       (if \<not> enabled j0 \<and> enabled j \<and> job_type j = normal \<and> upstream_job_ids (db w') i = []
        then \<exists>t. tasks (db w') = tasks (db w) @ [t] \<and> t = new_task (tid t) i manual 0 (tcreated_at t) \<and>
               (case send_task qc (tid t) (normal_queue w) of
                  Inl e \<Rightarrow> r = Inl e \<and> normal_queue w' = normal_queue w
                | Inr q \<Rightarrow> r = Inr j \<and> normal_queue w' = q)
        else r = Inr j \<and> tasks (db w') = tasks (db w) \<and> normal_queue w' = normal_queue w))"
  using update_job_any [OF assms] unfolding sent_or_failed_def
proof
  assume "\<exists>e. r = Inl e \<and> quiet w w'"
  then show ?thesis by (auto simp: quietD)
qed (rule disjI2)

definition paused_job :: job where
  "paused_job =
     \<lparr>jid = ''a'', name = ''once'', job_type = normal, cron_expression = None, action_type = ''http'',
      action_config = JObj [(''url'', JStr ''http://x'')],
      runtime_spec = Some (spec_json ''curlimages/curl:8.6.0''
        [JStr ''curl'', JStr ''-fsS'', JStr ''-X'', JStr ''GET'', JStr ''http://x''] 30),
      enabled = False, concurrency_policy = forbid, max_retries = 0, next_fire_at = None,
      jcreated_at = 0, updated_at = 0\<rparr>"

definition paused_world :: "mem_queue world" where
  "paused_world =
     sample_world\<lparr>db := \<lparr>jobs = [paused_job], tasks = [], job_dependencies = []\<rparr>, uuids_drawn := 1\<rparr>"

lemma paused_spec: "spec_derived default_settings paused_job"
  by code_simp

lemma paused_store_inv: "store_inv default_settings paused_world"
proof -
  have "uuids_fresh paused_world"
    by (rule uuids_fresh_add [of sample_world _ _ "snd (uuid4 sample_world)"])
      (use sample_store_inv [of default_settings] in
        \<open>auto simp: store_inv_def uuid4_def paused_world_def sample_world_def initial_world_def job_ids_def
          task_ids_def paused_job_def\<close>)
  moreover have "db_wf (db paused_world)"
    by (simp add: paused_world_def db_wf_def keys_ok_def fks_ok_def job_ok_def paused_job_def)
  ultimately show ?thesis
    using paused_spec by (simp add: store_inv_def specs_derived_def paused_world_def dag_def acyclic_def)
qed

definition enable_it :: job_update_payload where
  "enable_it = empty_update\<lparr>u_enabled := Some (Some True)\<rparr>"

lemma enable_paused:
  "length (tasks (db (snd (update_job default_settings minutely strict_int broken_client ''a'' enable_it paused_world)))) = 1"
  by code_simp

theorem update_job_effects_witness:
  "\<exists>t w'. update_job default_settings minutely strict_int broken_client ''a'' enable_it paused_world = (Inl QueueError, w') \<and>
     tasks (db w') = [t] \<and> status t = pending \<and> task_job_id t = ''a'' \<and> normal_queue w' = normal_queue paused_world"
proof -
  obtain r w' where u: "update_job default_settings minutely strict_int broken_client ''a'' enable_it paused_world = (r, w')"
    by fastforce
  have one: "length (tasks (db w')) = 1" using enable_paused u by simp
  have none: "tasks (db paused_world) = []" by (simp add: paused_world_def)
  have v: "JobUpdate_valid enable_it" by (simp add: JobUpdate_valid_def enable_it_def empty_update_def)
  have "\<exists>t. tasks (db w') = [t] \<and> t = new_task (tid t) ''a'' manual 0 (tcreated_at t) \<and> r = Inl QueueError \<and>
      normal_queue w' = normal_queue paused_world"
    using update_job_effects [OF paused_store_inv v u] one none by (auto simp: broken_send split: if_splits)
  then obtain t where t: "tasks (db w') = [t]" "t = new_task (tid t) ''a'' manual 0 (tcreated_at t)" "r = Inl QueueError"
    "normal_queue w' = normal_queue paused_world" by blast
  then have "status t = pending" "task_job_id t = ''a''" by (metis new_task_sel(2,3))+
  then show ?thesis using u t(1,3,4) by blast
qed

subsection \<open>Which requests are rejected as circular\<close>

lemma path_to_new:
  assumes "(y, i) \<in> E'\<^sup>*" "y \<noteq> i"
    and "\<And>y z. (y, z) \<in> E' \<Longrightarrow> y \<noteq> i \<Longrightarrow> z \<noteq> i \<Longrightarrow> (y, z) \<in> E" "\<And>y. (y, i) \<in> E' \<Longrightarrow> y \<noteq> i \<Longrightarrow> y \<in> U"
  shows "\<exists>u \<in> U. (y, u) \<in> E\<^sup>*"
  using assms(1,2)
proof (induction rule: converse_rtrancl_induct)
  case base
  then show ?case by simp
next
  case (step y z)
  show ?case
  proof (cases "z = i")
    case True
    with step assms(4) show ?thesis by auto
  next
    case False
    with step assms(3) [of y z] show ?thesis by (meson converse_rtrancl_into_rtrancl)
  qed
qed

lemma new_cycle_iff:
  assumes E: "i \<notin> fst ` E" "i \<notin> snd ` E" and U: "i \<notin> U" and D: "i \<notin> D"
    and E': "E' = E \<union> (\<lambda>u. (u, i)) ` U \<union> (\<lambda>x. (i, x)) ` D"
  shows "(i, i) \<in> E'\<^sup>+ \<longleftrightarrow> (\<exists>x \<in> D. \<exists>u \<in> U. (x, u) \<in> E\<^sup>*)"
proof
  assume "(i, i) \<in> E'\<^sup>+"
  then obtain x where "(i, x) \<in> E'" "(x, i) \<in> E'\<^sup>*" by (auto dest: tranclD)
  moreover from this have x: "x \<in> D" using E U D by (force simp: E')
  moreover have "x \<noteq> i" using x D by blast
  moreover have "(y, z) \<in> E" if "(y, z) \<in> E'" "y \<noteq> i" "z \<noteq> i" for y z using that by (auto simp: E')
  moreover have "y \<in> U" if "(y, i) \<in> E'" "y \<noteq> i" for y using that E(2) by (force simp: E')
  ultimately show "\<exists>x \<in> D. \<exists>u \<in> U. (x, u) \<in> E\<^sup>*" using path_to_new [of x i E' E U] by blast
next
  assume "\<exists>x \<in> D. \<exists>u \<in> U. (x, u) \<in> E\<^sup>*"
  then obtain x u where xu: "x \<in> D" "u \<in> U" "(x, u) \<in> E\<^sup>*" by blast
  have "(x, u) \<in> E'\<^sup>*" using xu(3) rtrancl_mono [of E E'] by (auto simp: E')
  moreover have "(i, x) \<in> E'" "(u, i) \<in> E'" using xu by (auto simp: E')
  ultimately show "(i, i) \<in> E'\<^sup>+" by (meson rtrancl_into_trancl1 rtrancl_into_trancl2 trancl_into_trancl)
qed

text \<open>(C17) The check for circular dependencies is exact. A creation request that passes every other
  check ends with 422 precisely when one of the requested downstream jobs already reaches one of the
  requested upstream jobs along the stored edges, at any distance.\<close>

theorem create_job_circular_iff:
  assumes inv: "store_inv cfg w" and v: "JobCreate_valid lax_int p"
    and s: "resolve_schedule cr (p_cron_expression p) w = (Inr s, w1)"
    and spec: "build_runtime_spec cfg (Some (p_action_type p)) (p_action_config p) = Inr spec"
    and nm: "p_name p \<notin> name ` set (jobs (db w))"
  shows "fst (create_job cfg cr MemoryQueueClient p w) = Inl (unprocessable ''Circular dependency detected'') \<longleftrightarrow>
    (\<exists>x \<in> job_ids (db w) \<inter> set (p_downstream_job_ids p). \<exists>u \<in> job_ids (db w) \<inter> set (p_upstream_job_ids p).
       (x, u) \<in> (set (job_dependencies (db w)))\<^sup>*)" (is "?L \<longleftrightarrow> ?R")
proof -
  obtain i w2 where u: "uuid4 w1 = (i, w2)" by fastforce
  obtain now w3 where n: "utcnow w2 = (now, w3)" by fastforce
  note q1 = resolve_schedule_quiet [OF s]
  have q3: "quiet w w3" using quiet_trans [OF q1 quiet_trans [OF quiet_uuid4 [OF u] quiet_utcnow [OF n]]] .
  have new: "i \<notin> job_ids (db w)"
    using uuid4_new [OF quiet_fresh [OF q1] u] inv quietD(1) [OF q1] by (simp add: store_inv_def)
  let ?j = "created_job p s spec i now"
  let ?E = "job_dependencies (db w)"
  define d where "d = (db w)\<lparr>jobs := jobs (db w) @ [?j], job_dependencies := ?E @ created_edges p i (db w)\<rparr>"
  have d: "job_create ?j (created_edges p i (db w)) (db w) = Inr d"
    using new nm by (auto simp: job_create_def d_def name_taken_def image_iff)
  have circ: "circular i d \<longleftrightarrow> ?R"
    unfolding circular_iff
  proof (rule new_cycle_iff)
    show "i \<notin> fst ` set ?E" "i \<notin> snd ` set ?E"
      using inv new by (auto simp: store_inv_def db_wf_def fks_ok_def)
  qed (use new in \<open>auto simp: d_def created_edges_set\<close>)
  obtain r4 w4 where d4: "dispatch_if_one_time MemoryQueueClient ?j (w3\<lparr>db := d\<rparr>) = (r4, w4)" by fastforce
  have "fst (create_job cfg cr MemoryQueueClient p w) =
      (if circular i d then Inl (unprocessable ''Circular dependency detected'')
       else case r4 of Inl e \<Rightarrow> Inl e | Inr u \<Rightarrow> Inr ?j)"
    by (cases r4) (simp_all add: create_job_def s spec u n quietD(1) [OF q3] d d4 Let_def)
  moreover have "r4 = Inr ()" if "\<not> circular i d"
  proof (rule memq.dispatch_if_one_time_sent [OF _ _ d4, THEN conjunct1])
    obtain jt cron nfa where s': "s = (jt, cron, nfa)" by (cases s)
    have "store_inv cfg (w3\<lparr>db := d\<rparr>)"
      by (rule stored_job_inv [OF inv q1 u quiet_utcnow [OF n] d that])
        (use resolve_schedule_ok [OF s [unfolded s']] v spec s' in
          \<open>auto simp: job_ok_def spec_derived_def JobCreate_valid_def\<close>)
    then show "uuids_fresh (w3\<lparr>db := d\<rparr>)" by (simp add: store_inv_def)
  qed (simp add: d_def job_ids_def)
  ultimately show ?thesis using circ by auto
qed

theorem create_job_circular_iff_witness:
  "fst (create_job default_settings minutely MemoryQueueClient
      (sample_payload\<lparr>p_cron_expression := None, p_upstream_job_ids := [''a''], p_downstream_job_ids := [''a'']\<rparr>) paused_world)
   = Inl (unprocessable ''Circular dependency detected'')"
proof -
  let ?p = "sample_payload\<lparr>p_cron_expression := None, p_upstream_job_ids := [''a''], p_downstream_job_ids := [''a'']\<rparr>"
  have v: "JobCreate_valid strict_int ?p" using sample_payload_valid by (simp add: JobCreate_valid_def)
  have s: "resolve_schedule minutely (p_cron_expression ?p) paused_world = (Inr (normal, None, None), paused_world)"
    by (simp add: resolve_schedule_def strip_def)
  have b: "build_runtime_spec default_settings (Some (p_action_type ?p)) (p_action_config ?p) =
      Inr (the (runtime_spec paused_job))" by code_simp
  show ?thesis
    using create_job_circular_iff [OF paused_store_inv v s b]
    by (simp add: sample_payload_def paused_world_def paused_job_def job_ids_def)
qed

text \<open>Deleting a job removes every trace of it and nothing else: a later read answers 404, no
  task and no edge mentions it, and the rows and tasks of every other job are as they were.\<close>

lemma delete_job_cascades:
  assumes "delete_job i w = (Inr u, w')" "db_wf (db w)"
  shows "get_job i (db w') = Inl (HTTPException 404 ''Job not found'') \<and> list_by_job i (db w') = [] \<and>
    upstream_job_ids (db w') i = [] \<and> downstream_job_ids (db w') i = [] \<and> db_wf (db w') \<and>
    (\<forall>k. k \<noteq> i \<longrightarrow> get_job k (db w') = get_job k (db w) \<and> list_by_job k (db w') = list_by_job k (db w))"
proof -
  obtain j where j: "job_get i (db w) = Some j" "w' = w\<lparr>db := job_delete (jid j) (db w)\<rparr>"
    using assms(1) by (auto simp: delete_job_def split: option.splits)
  have ji: "jid j = i" using j(1) by (auto simp: job_get_def dest: get_job_row_SomeD)
  have "filter (\<lambda>t. task_job_id t = k \<and> task_job_id t \<noteq> i) (tasks (db w)) =
      filter (\<lambda>t. task_job_id t = k) (tasks (db w))" if "k \<noteq> i" for k using that by (intro filter_cong) auto
  then have "get_job k (db w') = get_job k (db w) \<and> list_by_job k (db w') = list_by_job k (db w)" if "k \<noteq> i" for k
    using j ji that by (simp add: get_job_def job_get_def get_job_row_def job_delete_def find_row_filter_key
        list_by_job_def conj_commute)
  moreover have "upstream_job_ids (db w') i = []" "downstream_job_ids (db w') i = []"
    using j ji by (auto simp: upstream_job_ids_def downstream_job_ids_def job_delete_def filter_empty_conv)
  moreover have "get_job i (db w') = Inl (HTTPException 404 ''Job not found'')"
    using j ji job_delete_gone by (simp add: get_job_def job_get_def)
  moreover have "list_by_job i (db w') = []" using j ji by (simp add: list_by_job_def job_delete_def)
  ultimately show ?thesis using j assms(2) by (simp add: job_delete_wf)
qed

lemma delete_job_cascades_example:
  "get_job ''a'' (db (snd (delete_job ''a'' paused_world))) = Inl (HTTPException 404 ''Job not found'')"
proof -
  have "delete_job ''a'' paused_world = (Inr (), snd (delete_job ''a'' paused_world))"
    by (simp add: delete_job_def job_get_def get_job_row_def paused_world_def paused_job_def)
  from delete_job_cascades [OF this] paused_store_inv show ?thesis by (simp add: store_inv_def)
qed

end
