(* ===== verification/Api.thy ===== *)
theory Api
  imports Job_Service
begin

text \<open>
  \<open>app/api/v1/tasks.py\<close> and the listing of \<open>app/api/v1/jobs.py\<close>: reading one task, queueing a fresh
  attempt of a failed one, and the pages of the job list; and the two plain endpoints of
  \<open>app/main.py\<close>.
\<close>

subsection \<open>Health and counts\<close>

text \<open>\<open>GET /health\<close>, where \<open>answers\<close> tells whether \<open>SELECT 1\<close> succeeds, and \<open>GET /metrics\<close>.\<close>

definition health :: "bool \<Rightarrow> (string \<times> string) list option" where
  "health answers = (if answers then Some [(''status'', ''ok''), (''service'', ''dass'')] else None)"

definition metrics_counts :: "database \<Rightarrow> (string \<times> nat) list" where
  "metrics_counts d = [(''jobs'', length (jobs d)), (''tasks'', length (tasks d))]"

subsection \<open>Tasks\<close>

definition get_task :: "uuid \<Rightarrow> database \<Rightarrow> task result" where
  "get_task t d = (case task_get t d of None \<Rightarrow> Inl (HTTPException 404 ''Task not found'') | Some r \<Rightarrow> Inr r)"

record retry_response =
  rr_task_id :: uuid
  rr_retry_task_id :: uuid
  rr_status :: status

definition retry_task :: "'q queue_client \<Rightarrow> uuid \<Rightarrow> 'q world \<Rightarrow> retry_response result \<times> 'q world" where
  "retry_task qc t_id w =
     (case task_get t_id (db w) of
        None \<Rightarrow> (Inl (HTTPException 404 ''Task not found''), w)
      | Some t \<Rightarrow>
          if status t \<notin> {failed, final_failed}
          then (Inl (HTTPException 409 ''Only failed tasks can be retried''), w)
          else
            (let (i, w1) = uuid4 w; (now, w2) = utcnow w1;
                 r = new_task i (task_job_id t) (trigger_type t) (retry_count t + 1) now
             in case task_create r (db w2) of
                  Inl e \<Rightarrow> (Inl e, w2)
                | Inr d \<Rightarrow>
                    (let w3 = w2\<lparr>db := d\<rparr> in
                     case send_task qc i (retry_queue w3) of
                       Inl e \<Rightarrow> (Inl e, w3)
                     | Inr q \<Rightarrow>
                         (Inr \<lparr>rr_task_id = tid t, rr_retry_task_id = tid r, rr_status = status r\<rparr>,
                          w3\<lparr>retry_queue := q\<rparr>))))"

lemma retry_task_cases:
  assumes "retry_task qc t_id w = (r, w')"
  obtains (missing) "r = Inl (HTTPException 404 ''Task not found'')" "w' = w" "get_task_row (db w) t_id = None"
  | (conflict) t where "r = Inl (HTTPException 409 ''Only failed tasks can be retried'')" "w' = w"
      "get_task_row (db w) t_id = Some t" "status t \<notin> {failed, final_failed}"
  | (rejected) t e i now w1 w2 where "r = Inl e" "get_task_row (db w) t_id = Some t" "status t \<in> {failed, final_failed}"
      "uuid4 w = (i, w1)" "utcnow w1 = (now, w2)" "w' = w2"
      "task_create (new_task i (task_job_id t) (trigger_type t) (retry_count t + 1) now) (db w) = Inl e"
  | (stored) t i now w1 w2 d where "get_task_row (db w) t_id = Some t" "status t \<in> {failed, final_failed}"
      "uuid4 w = (i, w1)" "utcnow w1 = (now, w2)"
      "task_create (new_task i (task_job_id t) (trigger_type t) (retry_count t + 1) now) (db w) = Inr d"
      "(r, w') = (case send_task qc i (retry_queue w) of
          Inl e \<Rightarrow> (Inl e, w2\<lparr>db := d\<rparr>)
        | Inr q \<Rightarrow> (Inr \<lparr>rr_task_id = tid t, rr_retry_task_id = i, rr_status = pending\<rparr>,
            w2\<lparr>db := d, retry_queue := q\<rparr>))"
proof (cases "get_task_row (db w) t_id")
  case None
  with assms missing show ?thesis by (simp add: retry_task_def task_get_def)
next
  case (Some t)
  show ?thesis
  proof (cases "status t \<in> {failed, final_failed}")
    case False
    then have "r = Inl (HTTPException 409 ''Only failed tasks can be retried'')" "w' = w"
      using assms Some by (auto simp: retry_task_def task_get_def)
    with conflict Some False show ?thesis by blast
  next
    case True
    obtain i w1 where u: "uuid4 w = (i, w1)" by fastforce
    obtain now w2 where n: "utcnow w1 = (now, w2)" by fastforce
    note q = quietD [OF quiet_trans [OF quiet_uuid4 [OF u] quiet_utcnow [OF n]]]
    let ?t = "new_task i (task_job_id t) (trigger_type t) (retry_count t + 1) now"
    show ?thesis
    proof (cases "task_create ?t (db w)")
      case (Inl e)
      then have "retry_task qc t_id w = (Inl e, w2)"
        using True Some u n q by (auto simp: retry_task_def task_get_def)
      with assms rejected Some True u n Inl show ?thesis by auto
    next
      case (Inr d)
      then have "(r, w') = (case send_task qc i (retry_queue w) of
          Inl e \<Rightarrow> (Inl e, w2\<lparr>db := d\<rparr>)
        | Inr q \<Rightarrow> (Inr \<lparr>rr_task_id = tid t, rr_retry_task_id = i, rr_status = pending\<rparr>,
            w2\<lparr>db := d, retry_queue := q\<rparr>))"
        using assms True Some u n q by (auto simp: retry_task_def task_get_def Let_def split: sum.splits)
      with stored Some True u n Inr show ?thesis by blast
    qed
  qed
qed

lemma retry_task_store:
  assumes inv: "store_inv cfg w" and r: "retry_task qc t_id w = (r, w')"
  shows "store_inv cfg w'"
  using r
proof (cases rule: retry_task_cases)
  case (rejected t e i now w1 w2)
  then show ?thesis using store_inv_quiet [OF quiet_trans [OF quiet_uuid4 quiet_utcnow] inv] by blast
next
  case (stored t i now w1 w2 d)
  have "0 \<le> retry_count t"
    using inv get_task_row_SomeD [OF stored(1)] by (auto simp: store_inv_def db_wf_def task_ok_def)
  moreover have "db w' = d" "uuid_source w' = uuid_source w2" "uuids_drawn w' = uuids_drawn w2"
    using stored(6) by (auto split: sum.splits)
  ultimately show ?thesis
    using task_create_store [OF inv stored(3) quiet_utcnow [OF stored(4)], of _ w'] stored(5) by simp
qed (use inv in simp_all)

text \<open>\<open>POST /tasks/{id}/retry\<close>, with sends that succeed: an unknown task answers 404 and a task that
  did not fail answers 409, both without any effect; otherwise the failed attempt is left as it is
  and exactly one pending task of the same job is added, with the same trigger and a retry count one
  higher, and its message goes to the retry queue.\<close>

lemma retry_task_effects:
  assumes "uuids_fresh w" "db_wf (db w)" "retry_task MemoryQueueClient i w = (r, w')"
  shows "case get_task_row (db w) i of
      None \<Rightarrow> r = Inl (HTTPException 404 ''Task not found'') \<and> w' = w
    | Some t \<Rightarrow>
        if status t = failed \<or> status t = final_failed
        then \<exists>n. tasks (db w') = tasks (db w) @ [n] \<and> status n = pending \<and> task_job_id n = task_job_id t \<and>
               trigger_type n = trigger_type t \<and> retry_count n = retry_count t + 1 \<and>
               queued (retry_queue w') = add_mset (task_body (tid n)) (queued (retry_queue w)) \<and>
               normal_queue w' = normal_queue w
        else r = Inl (HTTPException 409 ''Only failed tasks can be retried'') \<and> w' = w"
  using assms(3)
proof (cases rule: retry_task_cases)
  case (rejected t e n_id now w1 w2)
  have "task_job_id t \<in> job_ids (db w)"
    using assms(2) get_task_row_SomeD [OF rejected(2)] by (auto simp: db_wf_def fks_ok_def)
  then show ?thesis using rejected(7) uuid4_new [OF assms(1) rejected(4)] by (auto simp: task_create_def)
next
  case (stored t n_id now w1 w2 d)
  note q = quietD [OF quiet_trans [OF quiet_uuid4 [OF stored(3)] quiet_utcnow [OF stored(4)]]]
  obtain q' where q': "mem_send_task n_id (retry_queue w) = Inr q'" by (simp add: mem_send_task_def Let_def)
  have "queued q' = add_mset (task_body n_id) (queued (retry_queue w))"
    using memq.send_waiting [of n_id "retry_queue w" q'] q' by simp
  then show ?thesis using stored(1,2,6) q' q task_create_SomeD [OF stored(5)] by auto
qed auto

definition failed_task :: task where
  "failed_task = (new_task ''t'' ''a'' by_schedule 0 0)\<lparr>status := failed, finished_at := Some 1\<rparr>"

definition failed_world :: "mem_queue world" where
  "failed_world = paused_world\<lparr>db := (db paused_world)\<lparr>tasks := [failed_task]\<rparr>\<rparr>"

lemma failed_world_ok: "db_wf (db failed_world)" "uuids_fresh failed_world"
proof -
  show "db_wf (db failed_world)"
    using paused_store_inv
    by (simp add: store_inv_def db_wf_def failed_world_def keys_ok_def fks_ok_def job_ids_def failed_task_def
        task_ok_def new_task_def paused_world_def paused_job_def)
  show "uuids_fresh failed_world"
    using paused_store_inv
    by (simp add: store_inv_def uuids_fresh_def failed_world_def job_ids_def task_ids_def failed_task_def
        paused_world_def sample_world_def initial_world_def)
qed

lemma retry_task_effects_example:
  "\<exists>n. tasks (db (snd (retry_task MemoryQueueClient ''t'' failed_world))) = [failed_task, n] \<and> retry_count n = 1"
proof -
  obtain r w' where r: "retry_task MemoryQueueClient ''t'' failed_world = (r, w')" by fastforce
  from retry_task_effects [OF failed_world_ok(2,1) r] show ?thesis
    unfolding r by (auto simp: get_task_row_def failed_world_def failed_task_def)
qed

subsection \<open>The pages of the job list\<close>

lemma concat_chunks:
  "concat (map (\<lambda>p. take k (drop ((p - 1) * k) xs)) [1..<Suc n]) = take (n * k) xs"
proof (induction n)
  case (Suc n)
  have "take (Suc n * k) xs = take (n * k) xs @ take k (drop (n * k) xs)"
    by (simp add: take_add add.commute [of k])
  with Suc show ?case by simp
qed simp

text \<open>Reading the pages one after the other, from the first to the last one announced, returns
  every job the filter selects exactly once, newest first; each response carries the number of
  selected jobs, and no page is longer than asked for.\<close>

lemma pages_partition_selection:
  assumes "1 \<le> k" "k \<le> 100" "list_jobs_endpoint 1 k f d = Inr r"
  shows "concat (map (\<lambda>p. items (projr (list_jobs_endpoint p k f d))) [1..<Suc (total_pages r)]) = selected f d \<and>
    sorted (map (\<lambda>j. - jcreated_at j) (selected f d)) \<and>
    mset (selected f d) = mset (filter (matches f) (jobs d)) \<and> total r = length (selected f d) \<and>
    (\<forall>p \<ge> 1. \<exists>rp. list_jobs_endpoint p k f d = Inr rp \<and> total rp = total r \<and> length (items rp) \<le> k)"
proof -
  let ?n = "length (selected f d)"
  have r: "total r = ?n" "total_pages r = max ((?n + k - 1) div k) 1"
    using assms by (auto simp: list_jobs_endpoint_def list_paginated_def selected_def Let_def split: if_splits)
  have "?n \<le> (?n + k - 1) div k * k"
    using assms(1) dividend_less_div_times [of k "?n + k - 1"] by simp
  then have le: "?n \<le> total_pages r * k" using r(2) by (metis max.cobounded1 mult_le_mono1 order_trans)
  have pg: "\<exists>rp. list_jobs_endpoint p k f d = Inr rp \<and> items rp = take k (drop ((p - 1) * k) (selected f d)) \<and> total rp = ?n"
    if "1 \<le> p" for p
    using that assms by (simp add: list_jobs_endpoint_def list_paginated_def selected_def Let_def split: if_splits)
  then have "items (projr (list_jobs_endpoint p k f d)) = take k (drop ((p - 1) * k) (selected f d))" if "1 \<le> p" for p
    using that by force
  then have "map (\<lambda>p. items (projr (list_jobs_endpoint p k f d))) [1..<Suc (total_pages r)] =
      map (\<lambda>p. take k (drop ((p - 1) * k) (selected f d))) [1..<Suc (total_pages r)]" by auto
  then have "concat (map (\<lambda>p. items (projr (list_jobs_endpoint p k f d))) [1..<Suc (total_pages r)]) = selected f d"
    using le by (simp only: concat_chunks) simp
  moreover have "\<exists>rp. list_jobs_endpoint p k f d = Inr rp \<and> total rp = total r \<and> length (items rp) \<le> k" if "1 \<le> p" for p
    using pg [OF that] r(1) by auto
  ultimately show ?thesis using r(1) by (simp add: selected_def)
qed

definition no_filter :: job_filter where
  "no_filter = \<lparr>f_enabled = None, f_action_type = None, f_concurrency_policy = None, f_q = None\<rparr>"

lemma pages_partition_selection_example:
  "concat (map (\<lambda>p. items (projr (list_jobs_endpoint p 20 no_filter (db paused_world)))) [1..<2]) = [paused_job]"
proof -
  obtain r where r: "list_jobs_endpoint 1 20 no_filter (db paused_world) = Inr r" "total_pages r = 1"
    by (simp add: list_jobs_endpoint_def list_paginated_def Let_def paused_world_def matches_def no_filter_def)
  from pages_partition_selection [OF _ _ r(1)] r(2) show ?thesis
    by (simp add: selected_def paused_world_def matches_def no_filter_def upt_rec)
qed

text \<open>The search box is a case-insensitive substring search for every query that has none of the
  characters \<open>LIKE\<close> treats specially.\<close>

lemma search_is_substring:
  assumes "wildcard_free (lower q)" "q \<noteq> []"
  shows "matches (no_filter\<lparr>f_q := Some q\<rparr>) j \<longleftrightarrow> contains (lower q) (lower (name j))"
  using assms like_contains [of "lower q"] by (simp add: matches_def no_filter_def)

text \<open>An underscore in the query is not escaped and matches any character.\<close>

lemma underscore_is_wildcard: "matches (no_filter\<lparr>f_q := Some ''o_ce''\<rparr>) paused_job \<and> \<not> contains ''o_ce'' (name paused_job)"
  by code_simp

end
