(* ===== verification/Execution.thy ===== *)
theory Execution
  imports Job_Service
begin

text \<open>
  \<open>app/services/execution_service.py\<close>, \<open>kubernetes_execution_service.py\<close> and
  \<open>execution_factory.py\<close>. A \<open>ContainerSpec\<close> keeps the JSON values it was built from, since a
  dataclass checks none of its types. The Docker process and the Kubernetes API are parameters;
  \<open>fmul r k\<close> is \<open>int(x * k)\<close> for the float whose representation is \<open>r\<close>, and \<open>exc_str\<close> is the text of
  an exception.
\<close>

subsection \<open>Container specifications\<close>

record container_spec =
  cs_image :: json
  cs_command :: json
  cs_env :: json
  cs_timeout_seconds :: json
  cs_cpu :: json
  cs_memory_mb :: json
  cs_working_dir :: json

definition spec_fields :: "string list" where
  "spec_fields = [''image'', ''command'', ''env'', ''timeout_seconds'', ''cpu'', ''memory_mb'', ''working_dir'']"

definition field_or :: "string \<Rightarrow> json \<Rightarrow> (string \<times> json) list \<Rightarrow> json" where
  "field_or k dflt kvs = (case jget k kvs of None \<Rightarrow> dflt | Some v \<Rightarrow> v)"

text \<open>\<open>ContainerSpec(**spec)\<close>: an unknown keyword or a missing image is a \<open>TypeError\<close>.\<close>

definition ContainerSpec :: "json \<Rightarrow> container_spec result" where
  "ContainerSpec v =
     (case v of
        JObj kvs \<Rightarrow>
          if list_all (\<lambda>kv. fst kv \<in> set spec_fields) kvs \<and> jget ''image'' kvs \<noteq> None
          then Inr \<lparr>cs_image = field_or ''image'' JNull kvs, cs_command = field_or ''command'' JNull kvs,
                 cs_env = field_or ''env'' (JObj []) kvs,
                 cs_timeout_seconds = field_or ''timeout_seconds'' (JInt 300) kvs,
                 cs_cpu = field_or ''cpu'' (JFloat ''0.5'' (Some 0)) kvs,
                 cs_memory_mb = field_or ''memory_mb'' (JInt 256) kvs,
                 cs_working_dir = field_or ''working_dir'' JNull kvs\<rparr>
          else Inl TypeError
      | _ \<Rightarrow> Inl TypeError)"

record execution_result =
  er_success :: bool
  er_stdout :: "string option"
  er_stderr :: "string option"
  er_exit_code :: "int option"

definition failure_result :: "string \<Rightarrow> string \<Rightarrow> execution_result" where
  "failure_result out err = \<lparr>er_success = False, er_stdout = Some out, er_stderr = Some err, er_exit_code = None\<rparr>"

subsection \<open>The Docker command line\<close>

text \<open>\<open>_ENV_KEY_RE.match(key)\<close>: \<open>$\<close> also matches before a newline that ends the string.\<close>

definition env_key_start :: "char \<Rightarrow> bool" where
  "env_key_start c \<longleftrightarrow> is_alpha c \<or> c = CHR ''_''"

definition env_key_char :: "char \<Rightarrow> bool" where
  "env_key_char c \<longleftrightarrow> is_alpha c \<or> is_digit c \<or> c = CHR ''_''"

definition env_key_match :: "string \<Rightarrow> bool" where
  "env_key_match s =
     (case s of
        [] \<Rightarrow> False
      | c # cs \<Rightarrow>
          env_key_start c \<and>
          (list_all env_key_char cs \<or> cs \<noteq> [] \<and> last cs = chr_of 10 \<and> list_all env_key_char (butlast cs)))"

fun env_args :: "(string \<times> json) list \<Rightarrow> json list option" where
  "env_args [] = Some []"
| "env_args ((k, v) # kvs) =
     (if \<not> env_key_match k then None
      else case env_args kvs of None \<Rightarrow> None | Some rest \<Rightarrow> Some (JStr ''-e'' # JStr (k @ ''='' @ py_str v) # rest))"

text \<open>\<open>argv.extend(v)\<close>: Python iterates lists, strings and the keys of dicts.\<close>

definition iterated :: "json \<Rightarrow> json list result" where
  "iterated v =
     (case v of
        JArr vs \<Rightarrow> Inr vs
      | JStr s \<Rightarrow> Inr (map (\<lambda>c. JStr [c]) s)
      | JObj kvs \<Rightarrow> Inr (map (\<lambda>kv. JStr (fst kv)) kvs)
      | _ \<Rightarrow> Inl TypeError)"

definition option_args :: "string option \<Rightarrow> container_spec \<Rightarrow> json list" where
  "option_args network spec =
     (case network of None \<Rightarrow> [] | Some n \<Rightarrow> if n = [] then [] else [JStr ''--network'', JStr n]) @
     (if cs_cpu spec \<noteq> JNull then [JStr ''--cpus'', JStr (py_str (cs_cpu spec))] else []) @
     (if cs_memory_mb spec \<noteq> JNull then [JStr ''--memory'', JStr (py_str (cs_memory_mb spec) @ ''m'')] else []) @
     (if truthy (cs_working_dir spec) then [JStr ''-w'', cs_working_dir spec] else [])"

definition build_docker_cmd :: "string option \<Rightarrow> container_spec \<Rightarrow> json list option result" where
  "build_docker_cmd network spec =
     (case cs_env spec of
        JObj kvs \<Rightarrow>
          (case env_args kvs of
             None \<Rightarrow> Inr None
           | Some es \<Rightarrow>
               (let argv = [JStr ''docker'', JStr ''run'', JStr ''--rm''] @ option_args network spec @ es @ [cs_image spec]
                in if truthy (cs_command spec)
                   then (case iterated (cs_command spec) of Inl e \<Rightarrow> Inl e | Inr args \<Rightarrow> Inr (Some (argv @ args)))
                   else Inr (Some argv)))
      | _ \<Rightarrow> Inl AttributeError)"

subsection \<open>Running a container with Docker\<close>

text \<open>What starting the process and waiting for it can end in: it exited with a code and its two
  streams, it was still running at the timeout (with the output so far, when there is any), or an
  exception was raised.\<close>

datatype process_end = exited int string string | timed_out "string option" | raised string

definition timeout_text :: "container_spec \<Rightarrow> string" where
  "timeout_text spec = ''Container execution timed out after '' @ py_str (cs_timeout_seconds spec) @ ''s''"

definition exit_result :: "int \<Rightarrow> string \<Rightarrow> string \<Rightarrow> execution_result" where
  "exit_result code out err =
     \<lparr>er_success = (code = 0), er_stdout = Some out, er_stderr = Some err, er_exit_code = Some code\<rparr>"

definition docker_run ::
    "(json list \<Rightarrow> json \<Rightarrow> process_end) \<Rightarrow> string option \<Rightarrow> container_spec \<Rightarrow> execution_result result" where
  "docker_run subprocess network spec =
     (case build_docker_cmd network spec of
        Inl e \<Rightarrow> Inl e
      | Inr None \<Rightarrow> Inr (failure_result [] ''Invalid environment variable key'')
      | Inr (Some argv) \<Rightarrow>
          Inr (case subprocess argv (cs_timeout_seconds spec) of
                 exited code out err \<Rightarrow> exit_result code out err
               | timed_out out \<Rightarrow> failure_result (case out of None \<Rightarrow> [] | Some s \<Rightarrow> s) (timeout_text spec)
               | raised msg \<Rightarrow> failure_result [] msg))"

definition docker_run_async ::
    "(json list \<Rightarrow> json \<Rightarrow> process_end) \<Rightarrow> string option \<Rightarrow> container_spec \<Rightarrow> execution_result result" where
  "docker_run_async subprocess network spec =
     (case build_docker_cmd network spec of
        Inl e \<Rightarrow> Inl e
      | Inr None \<Rightarrow> Inr (failure_result [] ''Invalid environment variable key'')
      | Inr (Some argv) \<Rightarrow>
          Inr (case subprocess argv (cs_timeout_seconds spec) of
                 exited code out err \<Rightarrow> exit_result code out err
               | timed_out out \<Rightarrow> failure_result [] (timeout_text spec)
               | raised msg \<Rightarrow> failure_result [] msg))"

subsection \<open>Running a container as a Kubernetes Job\<close>

record job_manifest =
  m_name :: string
  m_image :: json
  m_env :: "(string \<times> json) list"
  m_resources :: "(string \<times> string) list option"
  m_command :: "json option"
  m_working_dir :: "json option"
  m_restart_policy :: string
  m_backoff_limit :: nat
  m_active_deadline_seconds :: json
  m_ttl_seconds_after_finished :: nat

text \<open>The API calls the service makes; the answers of \<open>read_namespaced_job_status\<close> and the readings of
  \<open>time.monotonic()\<close> are streams indexed by the number of the poll. A log body that is \<open>None\<close> is no value.\<close>

record k8s_api =
  create_namespaced_job :: "job_manifest \<Rightarrow> string option"
  read_namespaced_job_status :: "nat \<Rightarrow> string + (int option \<times> int option)"
  list_namespaced_pod :: "string \<Rightarrow> string + string list"
  read_namespaced_pod_log :: "string \<Rightarrow> string + string option"
  monotonic :: "nat \<Rightarrow> time"

text \<open>\<open>int(spec.cpu * 1000)\<close>.\<close>

definition cpu_millis :: "(string \<Rightarrow> int \<Rightarrow> int) \<Rightarrow> json \<Rightarrow> int result" where
  "cpu_millis fmul v =
     (case v of
        JInt n \<Rightarrow> Inr (n * 1000)
      | JBool b \<Rightarrow> Inr (if b then 1000 else 0)
      | JFloat r n \<Rightarrow> Inr (fmul r 1000)
      | JStr s \<Rightarrow> py_int (JStr (concat (replicate 1000 s)))
      | _ \<Rightarrow> Inl TypeError)"

text \<open>\<open>spec.timeout_seconds\<close> as a duration added to a clock reading.\<close>

definition duration :: "(string \<Rightarrow> int \<Rightarrow> int) \<Rightarrow> json \<Rightarrow> time result" where
  "duration fmul v =
     (case v of
        JInt n \<Rightarrow> Inr (seconds n)
      | JBool b \<Rightarrow> Inr (if b then seconds 1 else 0)
      | JFloat r n \<Rightarrow> Inr (fmul r 1000000)
      | _ \<Rightarrow> Inl TypeError)"

definition build_job_manifest :: "(string \<Rightarrow> int \<Rightarrow> int) \<Rightarrow> container_spec \<Rightarrow> string \<Rightarrow> job_manifest result" where
  "build_job_manifest fmul spec job_name =
     (case (if cs_cpu spec = JNull then Inr []
            else case cpu_millis fmul (cs_cpu spec) of
                   Inl e \<Rightarrow> Inl e
                 | Inr n \<Rightarrow> Inr [(''cpu'', show_int n @ ''m'')]) of
        Inl e \<Rightarrow> Inl e
      | Inr cpu \<Rightarrow>
          (let resources = cpu @ (if cs_memory_mb spec = JNull then []
                                  else [(''memory'', py_str (cs_memory_mb spec) @ ''Mi'')])
           in case (if truthy (cs_env spec) then (case cs_env spec of JObj kvs \<Rightarrow> Inr kvs | _ \<Rightarrow> Inl AttributeError)
                    else Inr []) of
                Inl e \<Rightarrow> Inl e
              | Inr env \<Rightarrow>
                  Inr \<lparr>m_name = job_name, m_image = cs_image spec, m_env = env,
                    m_resources = (if resources = [] then None else Some resources),
                    m_command = (if truthy (cs_command spec) then Some (cs_command spec) else None),
                    m_working_dir = (if truthy (cs_working_dir spec) then Some (cs_working_dir spec) else None),
                    m_restart_policy = ''Never'', m_backoff_limit = 0,
                    m_active_deadline_seconds = cs_timeout_seconds spec, m_ttl_seconds_after_finished = 600\<rparr>))"

definition get_pod_logs :: "k8s_api \<Rightarrow> string \<Rightarrow> string \<times> string" where
  "get_pod_logs api job_name =
     (case list_namespaced_pod api job_name of
        Inl msg \<Rightarrow> ([], [])
      | Inr [] \<Rightarrow> ([], [])
      | Inr (pod # _) \<Rightarrow>
          (case read_namespaced_pod_log api pod of
             Inl msg \<Rightarrow> ([], [])
           | Inr None \<Rightarrow> ([], [])
           | Inr (Some logs) \<Rightarrow> (logs, [])))"

definition k8s_result :: "bool \<Rightarrow> string \<times> string \<Rightarrow> execution_result" where
  "k8s_result ok logs =
     \<lparr>er_success = ok, er_stdout = Some (fst logs), er_stderr = Some (snd logs), er_exit_code = Some (if ok then 0 else 1)\<rparr>"

definition positive :: "int option \<Rightarrow> bool" where
  "positive n = (case n of None \<Rightarrow> False | Some k \<Rightarrow> 0 < k)"

text \<open>The polling loop; \<open>None\<close> when it never ends.\<close>

partial_function (option) poll_job ::
    "k8s_api \<Rightarrow> string \<Rightarrow> time \<Rightarrow> string \<Rightarrow> nat \<Rightarrow> execution_result option" where
  "poll_job api job_name deadline late n =
     (if monotonic api n < deadline then
        (case read_namespaced_job_status api n of
           Inl msg \<Rightarrow> Some (failure_result [] msg)
         | Inr (succeeded, failures) \<Rightarrow>
             if positive succeeded then Some (k8s_result True (get_pod_logs api job_name))
             else if positive failures then Some (k8s_result False (get_pod_logs api job_name))
             else poll_job api job_name deadline late (Suc n))
      else Some (failure_result [] late))"

definition k8s_run ::
    "k8s_api \<Rightarrow> (string \<Rightarrow> int \<Rightarrow> int) \<Rightarrow> (error \<Rightarrow> string) \<Rightarrow> string \<Rightarrow> container_spec \<Rightarrow> execution_result option" where
  "k8s_run api fmul exc_str hex spec =
     (let job_name = ''dass-job-'' @ take 8 hex in
      case build_job_manifest fmul spec job_name of
        Inl e \<Rightarrow> Some (failure_result [] (exc_str e))
      | Inr manifest \<Rightarrow>
          (case create_namespaced_job api manifest of
             Some msg \<Rightarrow> Some (failure_result [] msg)
           | None \<Rightarrow>
               (case duration fmul (cs_timeout_seconds spec) of
                  Inl e \<Rightarrow> Some (failure_result [] (exc_str e))
                | Inr t \<Rightarrow> poll_job api job_name (monotonic api 0 + t + seconds 30) (timeout_text spec) 1)))"

text \<open>\<open>get_execution_service\<close>: the backend the settings select.\<close>

definition get_execution_service ::
    "settings \<Rightarrow> (json list \<Rightarrow> json \<Rightarrow> process_end) \<Rightarrow> k8s_api \<Rightarrow> (string \<Rightarrow> int \<Rightarrow> int) \<Rightarrow> (error \<Rightarrow> string) \<Rightarrow>
     string \<Rightarrow> container_spec \<Rightarrow> execution_result result option" where
  "get_execution_service cfg subprocess api fmul exc_str hex spec =
     (if execution_backend cfg = kubernetes_backend
      then map_option Inr (k8s_run api fmul exc_str hex spec)
      else Some (docker_run_async subprocess (docker_network cfg) spec))"

subsection \<open>Every derived specification runs in a pinned image\<close>

lemma build_runtime_spec_shape:
  assumes "build_runtime_spec cfg at config = Inr spec"
  shows "(\<exists>c n. spec = spec_json ''alpine:3'' [JStr ''sh'', JStr ''-c'', c] n) \<or>
    (\<exists>args n. spec = spec_json ''curlimages/curl:8.6.0'' (JStr ''curl'' # JStr ''-fsS'' # JStr ''-X'' # args) n)"
  using assms
  by (auto simp: build_runtime_spec_def shell_spec_def http_spec_def Let_def
      split: if_splits json.splits option.splits sum.splits)

lemma ContainerSpec_spec_json:
  "ContainerSpec (spec_json img cmd n) =
     Inr \<lparr>cs_image = JStr img, cs_command = JArr cmd, cs_env = JObj [], cs_timeout_seconds = JInt n,
       cs_cpu = JFloat ''0.5'' (Some 0), cs_memory_mb = JInt 256, cs_working_dir = JNull\<rparr>"
  by (simp add: ContainerSpec_def spec_json_def spec_fields_def field_or_def jget_def)

lemma show_int_256: "show_int 256 = ''256''"
  by code_simp

definition network_args :: "string option \<Rightarrow> json list" where
  "network_args network =
     (case network of None \<Rightarrow> [] | Some n \<Rightarrow> if n = [] then [] else [JStr ''--network'', JStr n])"

text \<open>(C23) The worker can run every specification the job service derives (not those that \<open>dag_demo.py\<close> writes past
  it, nor the missing ones of \<open>load_gen_scheduler.py\<close>): \<open>ContainerSpec(**spec)\<close> accepts
  it, and the Docker command line is fixed up to the container's own arguments. The only options are
  the configured network, half a CPU and 256 MB; the image is one of the two pinned ones; nothing the
  job's author wrote comes before the image.\<close>

theorem derived_spec_command:
  assumes "spec_derived cfg j"
  shows "\<exists>spec s img args. runtime_spec j = Some spec \<and> ContainerSpec spec = Inr s \<and>
    build_docker_cmd network s =
      Inr (Some ([JStr ''docker'', JStr ''run'', JStr ''--rm''] @ network_args network @
        [JStr ''--cpus'', JStr ''0.5'', JStr ''--memory'', JStr ''256m'', JStr img] @ args)) \<and>
    (img = ''alpine:3'' \<and> (\<exists>c. args = [JStr ''sh'', JStr ''-c'', c]) \<or>
     img = ''curlimages/curl:8.6.0'' \<and> (\<exists>more. args = JStr ''curl'' # JStr ''-fsS'' # JStr ''-X'' # more))"
proof -
  obtain spec where spec: "build_runtime_spec cfg (Some (action_type j)) (action_config j) = Inr spec"
    "runtime_spec j = Some spec" using assms by (auto simp: spec_derived_iff)
  from build_runtime_spec_shape [OF spec(1)] obtain img args n where sp: "spec = spec_json img args n"
    "img = ''alpine:3'' \<and> (\<exists>c. args = [JStr ''sh'', JStr ''-c'', c]) \<or>
     img = ''curlimages/curl:8.6.0'' \<and> (\<exists>more. args = JStr ''curl'' # JStr ''-fsS'' # JStr ''-X'' # more)" by blast
  have "truthy (JArr args)" using sp(2) by (auto simp: truthy_def)
  then have "build_docker_cmd network
      \<lparr>cs_image = JStr img, cs_command = JArr args, cs_env = JObj [], cs_timeout_seconds = JInt n,
       cs_cpu = JFloat ''0.5'' (Some 0), cs_memory_mb = JInt 256, cs_working_dir = JNull\<rparr> =
    Inr (Some ([JStr ''docker'', JStr ''run'', JStr ''--rm''] @ network_args network @
        [JStr ''--cpus'', JStr ''0.5'', JStr ''--memory'', JStr ''256m'', JStr img] @ args))"
    by (simp add: build_docker_cmd_def option_args_def network_args_def iterated_def py_str_def truthy_def show_int_256)
  with spec(2) sp show ?thesis by (auto simp: ContainerSpec_spec_json)
qed

theorem derived_spec_command_witness:
  "\<exists>s img args. ContainerSpec (the (runtime_spec paused_job)) = Inr s \<and>
     build_docker_cmd (Some ''dass'') s =
       Inr (Some ([JStr ''docker'', JStr ''run'', JStr ''--rm'', JStr ''--network'', JStr ''dass'',
         JStr ''--cpus'', JStr ''0.5'', JStr ''--memory'', JStr ''256m'', JStr img] @ args))"
  using derived_spec_command [OF paused_spec, of "Some ''dass''"] by (auto simp: network_args_def)

subsection \<open>What any specification can put on the Docker command line\<close>

fun option_list :: "json list \<Rightarrow> bool" where
  "option_list [] = True"
| "option_list [v] = False"
| "option_list (f # v # rest) =
     (f \<in> {JStr ''--network'', JStr ''--cpus'', JStr ''--memory'', JStr ''-w'', JStr ''-e''} \<and> option_list rest)"

lemma option_list_append: "option_list xs \<Longrightarrow> option_list ys \<Longrightarrow> option_list (xs @ ys)"
  by (induction xs rule: option_list.induct) auto

lemma option_list_env: "env_args kvs = Some es \<Longrightarrow> option_list es"
  by (induction kvs arbitrary: es rule: env_args.induct) (auto split: if_splits option.splits)

lemma option_list_args: "option_list (option_args network spec)"
  unfolding option_args_def by (intro option_list_append) (auto split: option.splits)

text \<open>Whatever a stored specification holds, the arguments before its image are pairs of one of the
  five options the service uses and one value: no mount, no privilege and no other option can be
  injected before the image.\<close>

lemma docker_cmd_shape:
  assumes "build_docker_cmd network spec = Inr (Some argv)"
  shows "\<exists>opts args. argv = [JStr ''docker'', JStr ''run'', JStr ''--rm''] @ opts @ cs_image spec # args \<and> option_list opts"
proof -
  obtain kvs es where es: "cs_env spec = JObj kvs" "env_args kvs = Some es"
    using assms by (auto simp: build_docker_cmd_def split: json.splits option.splits)
  have opts: "option_list (option_args network spec @ es)"
    using option_list_append option_list_args option_list_env [OF es(2)] by blast
  have "\<exists>args. argv = [JStr ''docker'', JStr ''run'', JStr ''--rm''] @ (option_args network spec @ es) @ cs_image spec # args"
    using assms es by (auto simp: build_docker_cmd_def Let_def split: if_splits sum.splits)
  with opts show ?thesis by blast
qed

definition sample_spec :: container_spec where
  "sample_spec =
     \<lparr>cs_image = JStr ''alpine:3'', cs_command = JNull, cs_env = JObj [(''A'', JInt 1)], cs_timeout_seconds = JInt 5,
      cs_cpu = JNull, cs_memory_mb = JNull, cs_working_dir = JNull\<rparr>"

lemma sample_spec_cmd:
  "build_docker_cmd None sample_spec =
     Inr (Some [JStr ''docker'', JStr ''run'', JStr ''--rm'', JStr ''-e'', JStr ''A=1'', JStr ''alpine:3''])"
  by code_simp

lemma docker_cmd_shape_example:
  "\<exists>opts args. [JStr ''docker'', JStr ''run'', JStr ''--rm'', JStr ''-e'', JStr ''A=1'', JStr ''alpine:3''] =
     [JStr ''docker'', JStr ''run'', JStr ''--rm''] @ opts @ cs_image sample_spec # args \<and> option_list opts"
  by (rule docker_cmd_shape [OF sample_spec_cmd])

text \<open>A name that ends in a newline passes the check of environment names.\<close>

lemma env_key_newline: "env_key_match (''A'' @ [chr_of 10])"
  by code_simp

text \<open>The blocking and the asynchronous run of a container report the same outcome: they agree on
  success, on the error text and on the exit code, and on the output of every container that ends
  before its timeout.\<close>

lemma run_async_agrees:
  "case (docker_run sp network spec, docker_run_async sp network spec) of
     (Inr a, Inr b) \<Rightarrow> er_success a = er_success b \<and> er_stderr a = er_stderr b \<and> er_exit_code a = er_exit_code b \<and>
       (er_exit_code a \<noteq> None \<longrightarrow> a = b)
   | (Inl e, Inl e') \<Rightarrow> e = e'
   | _ \<Rightarrow> False"
  by (auto simp: docker_run_def docker_run_async_def failure_result_def split: sum.splits option.splits process_end.splits)

lemma sample_spec_run:
  "docker_run (\<lambda>cmd t. exited 0 ''hi'' []) None sample_spec = Inr (exit_result 0 ''hi'' [])"
  by (simp add: docker_run_def sample_spec_cmd)

lemma sample_spec_run_async:
  "\<exists>b. docker_run_async (\<lambda>cmd t. exited 0 ''hi'' []) None sample_spec = Inr b"
  by (simp add: docker_run_async_def sample_spec_cmd)

lemma run_async_agrees_example:
  "docker_run_async (\<lambda>cmd t. exited 0 ''hi'' []) None sample_spec =
   docker_run (\<lambda>cmd t. exited 0 ''hi'' []) None sample_spec"
proof -
  obtain b where b: "docker_run_async (\<lambda>cmd t. exited 0 ''hi'' []) None sample_spec = Inr b"
    using sample_spec_run_async by blast
  show ?thesis
    using run_async_agrees [of "\<lambda>cmd t. exited 0 ''hi'' []" None sample_spec]
    unfolding sample_spec_run b by (auto simp: exit_result_def)
qed

subsection \<open>Polling a Kubernetes Job\<close>

definition undecided :: "k8s_api \<Rightarrow> nat \<Rightarrow> bool" where
  "undecided api n \<longleftrightarrow>
     (case read_namespaced_job_status api n of
        Inl msg \<Rightarrow> False | Inr (succeeded, failures) \<Rightarrow> \<not> positive succeeded \<and> \<not> positive failures)"

definition succeeds_at :: "k8s_api \<Rightarrow> nat \<Rightarrow> bool" where
  "succeeds_at api n \<longleftrightarrow>
     (case read_namespaced_job_status api n of Inl msg \<Rightarrow> False | Inr (succeeded, failures) \<Rightarrow> positive succeeded)"

lemma poll_job_decides:
  assumes step: "\<And>n. monotonic api n + p \<le> monotonic api (Suc n)" and p: "0 < p"
  shows "\<exists>r. poll_job api nm deadline late n = Some r \<and>
    (er_success r \<longleftrightarrow> (\<exists>m \<ge> n. monotonic api m < deadline \<and> succeeds_at api m \<and> (\<forall>k. n \<le> k \<and> k < m \<longrightarrow> undecided api k)))"
proof (induction "nat (deadline - monotonic api n)" arbitrary: n rule: less_induct)
  case less
  have mono: "monotonic api n \<le> monotonic api m" if "n \<le> m" for m
    using that
  proof (induction m rule: dec_induct)
    case (step m)
    then show ?case using assms(1) [of m] p by simp
  qed simp
  show ?case
  proof (cases "monotonic api n < deadline")
    case False
    then have "\<not> monotonic api m < deadline" if "n \<le> m" for m using mono [OF that] by simp
    then show ?thesis using False
      by (subst poll_job.simps) (auto simp: failure_result_def)
  next
    case True
    show ?thesis
    proof (cases "undecided api n")
      case und: True
      have "nat (deadline - monotonic api (Suc n)) < nat (deadline - monotonic api n)"
        using step [of n] p True by linarith
      from less [OF this] obtain r where r: "poll_job api nm deadline late (Suc n) = Some r"
        "er_success r \<longleftrightarrow> (\<exists>m \<ge> Suc n. monotonic api m < deadline \<and> succeeds_at api m \<and>
           (\<forall>k. Suc n \<le> k \<and> k < m \<longrightarrow> undecided api k))" by blast
      have "poll_job api nm deadline late n = Some r"
        using True und r(1) by (subst poll_job.simps) (auto simp: undecided_def split: sum.splits)
      moreover have "\<not> succeeds_at api n" using und by (auto simp: undecided_def succeeds_at_def split: sum.splits)
      then have "(\<exists>m \<ge> Suc n. monotonic api m < deadline \<and> succeeds_at api m \<and> (\<forall>k. Suc n \<le> k \<and> k < m \<longrightarrow> undecided api k))
        \<longleftrightarrow> (\<exists>m \<ge> n. monotonic api m < deadline \<and> succeeds_at api m \<and> (\<forall>k. n \<le> k \<and> k < m \<longrightarrow> undecided api k))"
        using und by (metis Suc_leD Suc_leI le_neq_implies_less order_refl)
      ultimately show ?thesis using r(2) by blast
    next
      case False
      then have "\<exists>r. poll_job api nm deadline late n = Some r \<and> (er_success r \<longleftrightarrow> succeeds_at api n)"
        using True by (subst poll_job.simps)
          (auto simp: undecided_def succeeds_at_def failure_result_def k8s_result_def split: sum.splits)
      then obtain r where "poll_job api nm deadline late n = Some r" "er_success r \<longleftrightarrow> succeeds_at api n" by blast
      moreover have "succeeds_at api n \<longleftrightarrow>
          (\<exists>m \<ge> n. monotonic api m < deadline \<and> succeeds_at api m \<and> (\<forall>k. n \<le> k \<and> k < m \<longrightarrow> undecided api k))"
        using True False by (metis le_neq_implies_less order_refl leD)
      ultimately show ?thesis by blast
    qed
  qed
qed

text \<open>(C25) On a clock that moves on between polls, running a job on Kubernetes always returns, and it
  reports success exactly when the manifest was accepted and some poll before the deadline sees a
  succeeded pod with every earlier poll undecided.\<close>

theorem k8s_run_decides:
  assumes "\<And>n. monotonic api n + p \<le> monotonic api (Suc n)" "0 < p"
    and "build_job_manifest fmul spec (''dass-job-'' @ take 8 hex) = Inr manifest"
    and "duration fmul (cs_timeout_seconds spec) = Inr t"
  shows "\<exists>r. k8s_run api fmul exc_str hex spec = Some r \<and>
    (er_success r \<longleftrightarrow> create_namespaced_job api manifest = None \<and>
       (\<exists>m \<ge> 1. monotonic api m < monotonic api 0 + t + seconds 30 \<and> succeeds_at api m \<and>
          (\<forall>k. 1 \<le> k \<and> k < m \<longrightarrow> undecided api k)))"
  using poll_job_decides [OF assms(1,2), of "''dass-job-'' @ take 8 hex"
      "monotonic api 0 + t + seconds 30" "timeout_text spec" 1] assms(3,4)
  by (auto simp: k8s_run_def Let_def failure_result_def split: option.splits)

definition sample_cluster :: k8s_api where
  "sample_cluster =
     \<lparr>create_namespaced_job = (\<lambda>m. None),
      read_namespaced_job_status = (\<lambda>n. if n < 3 then Inr (None, None) else Inr (Some 1, None)),
      list_namespaced_pod = (\<lambda>j. Inr [''p'']), read_namespaced_pod_log = (\<lambda>p. Inr (Some ''hello'')),
      monotonic = (\<lambda>n. seconds (2 * int n))\<rparr>"

theorem k8s_run_decides_witness:
  "\<exists>r. k8s_run sample_cluster (\<lambda>r k. 500) (\<lambda>e. []) ''0123456789'' sample_spec = Some r \<and> er_success r"
proof -
  obtain manifest where m: "build_job_manifest (\<lambda>r k. 500) sample_spec (''dass-job-'' @ take 8 ''0123456789'') = Inr manifest"
    by (simp add: build_job_manifest_def sample_spec_def truthy_def)
  have d: "duration (\<lambda>r k. 500) (cs_timeout_seconds sample_spec) = Inr (seconds 5)"
    by (simp add: duration_def sample_spec_def)
  have "\<exists>m \<ge> 1. monotonic sample_cluster m < monotonic sample_cluster 0 + seconds 5 + seconds 30 \<and>
      succeeds_at sample_cluster m \<and> (\<forall>k. 1 \<le> k \<and> k < m \<longrightarrow> undecided sample_cluster k)"
    by (rule exI [of _ 3]) (simp add: sample_cluster_def succeeds_at_def undecided_def positive_def seconds_def)
  moreover have "create_namespaced_job sample_cluster manifest = None" by (simp add: sample_cluster_def)
  moreover have "monotonic sample_cluster n + seconds 2 \<le> monotonic sample_cluster (Suc n)" for n
    by (simp add: sample_cluster_def seconds_def)
  moreover have "0 < seconds 2" by (simp add: seconds_def)
  ultimately show ?thesis using k8s_run_decides [OF _ _ m d, of sample_cluster "seconds 2" "\<lambda>e. []"] by auto
qed

end
