(* ===== verification/Worker.thy ===== *)
theory Worker
  imports Api Execution
begin

text \<open>
  \<open>app/services/worker_service.py\<close>. A worker claims a task, runs its container and records the outcome.
  The points where a worker waits are where other processes act: \<open>during_backoff\<close> and
  \<open>during_run\<close> say what happens to the world there (the heartbeats of this worker included), so that
  the operations are stated for every interleaving. Failed attempts are retried through the retry queue,
  which is the client the pool passes.
\<close>

subsection \<open>Output\<close>

definition max_output_chars :: nat where
  "max_output_chars = 64000"

definition truncation_notice :: string where
  "truncation_notice = chr_of 10 # ''...[truncated]''"

definition truncate_output :: "string option \<Rightarrow> string option" where
  "truncate_output text =
     (case text of
        None \<Rightarrow> None
      | Some s \<Rightarrow> if length s \<le> max_output_chars then Some s else Some (take max_output_chars s @ truncation_notice))"

subsection \<open>Claiming\<close>

record worker =
  w_id :: string
  claim_seconds :: int

record 'q environment =
  during_backoff :: "nat \<Rightarrow> 'q world \<Rightarrow> 'q world"
  during_run :: "'q world \<Rightarrow> 'q world"

definition idle :: "'q environment" where
  "idle = \<lparr>during_backoff = (\<lambda>n w. w), during_run = (\<lambda>w. w)\<rparr>"

definition claim_columns :: "string \<Rightarrow> time \<Rightarrow> time \<Rightarrow> task \<Rightarrow> task" where
  "claim_columns worker until start t =
     t\<lparr>status := running, locked_by := Some worker, locked_until := Some until, started_at := Some start\<rparr>"

text \<open>\<open>UPDATE tasks SET ... WHERE id = t AND status = 'pending'\<close>; no row updated means the claim is lost.\<close>

definition claim_task :: "worker \<Rightarrow> uuid \<Rightarrow> 'q world \<Rightarrow> task option \<times> 'q world" where
  "claim_task wk t w =
     (let (now1, w1) = utcnow w; (now2, w2) = utcnow w1 in
      if (case get_task_row (db w2) t of None \<Rightarrow> False | Some r \<Rightarrow> status r = pending)
      then let d = (db w2)\<lparr>tasks := update_row tid t
                 (claim_columns (w_id wk) (now1 + seconds (claim_seconds wk)) now2) (tasks (db w2))\<rparr>
           in (task_get t d, w2\<lparr>db := d\<rparr>)
      else (None, w2))"

definition lookup_attempts :: nat where
  "lookup_attempts = 5"

fun claim_attempts :: "'q environment \<Rightarrow> worker \<Rightarrow> uuid \<Rightarrow> nat \<Rightarrow> 'q world \<Rightarrow> task option \<times> 'q world" where
  "claim_attempts env wk t 0 w = (None, w)"
| "claim_attempts env wk t (Suc n) w =
     (case claim_task wk t w of
        (Some r, w') \<Rightarrow> (Some r, w')
      | (None, w') \<Rightarrow>
          if (case task_get t (db w') of None \<Rightarrow> False | Some r \<Rightarrow> status r \<noteq> pending) then (None, w')
          else claim_attempts env wk t n (if n = 0 then w' else during_backoff env n w'))"

definition claim_with_retry :: "'q environment \<Rightarrow> worker \<Rightarrow> uuid \<Rightarrow> 'q world \<Rightarrow> task option \<times> 'q world" where
  "claim_with_retry env wk t w = claim_attempts env wk t lookup_attempts w"

fun get_job_attempts :: "'q environment \<Rightarrow> uuid \<Rightarrow> nat \<Rightarrow> 'q world \<Rightarrow> job option \<times> 'q world" where
  "get_job_attempts env i 0 w = (None, w)"
| "get_job_attempts env i (Suc n) w =
     (case job_get i (db w) of
        Some j \<Rightarrow> (Some j, w)
      | None \<Rightarrow> get_job_attempts env i n (if n = 0 then w else during_backoff env n w))"

definition get_job_with_retry :: "'q environment \<Rightarrow> uuid \<Rightarrow> 'q world \<Rightarrow> job option \<times> 'q world" where
  "get_job_with_retry env i w = get_job_attempts env i lookup_attempts w"

subsection \<open>Execution and heartbeat\<close>

text \<open>\<open>ContainerSpec(**(job.runtime_spec or {}))\<close>, then the executor; an exception is a failed run.\<close>

definition execute_job ::
    "(container_spec \<Rightarrow> execution_result result) \<Rightarrow> (error \<Rightarrow> string) \<Rightarrow> job \<Rightarrow> execution_result" where
  "execute_job executor exc_str j =
     (case ContainerSpec (case runtime_spec j of None \<Rightarrow> JObj [] | Some v \<Rightarrow> if truthy v then v else JObj []) of
        Inl e \<Rightarrow> failure_result [] (exc_str e)
      | Inr spec \<Rightarrow> (case executor spec of Inl e \<Rightarrow> failure_result [] (exc_str e) | Inr r \<Rightarrow> r))"

text \<open>\<open>max(1, int(claim_seconds * 0.6))\<close>, and one beat of the loop.\<close>

definition heartbeat_interval :: "int \<Rightarrow> int" where
  "heartbeat_interval c = max 1 (3 * c div 5)"

definition heartbeat_beat :: "worker \<Rightarrow> uuid \<Rightarrow> 'q world \<Rightarrow> 'q world" where
  "heartbeat_beat wk t w =
     (let (now, w1) = utcnow w in
      w1\<lparr>db := (db w1)\<lparr>tasks := update_row tid t
        (\<lambda>r. if locked_by r = Some (w_id wk) then r\<lparr>locked_until := Some (now + seconds (claim_seconds wk))\<rparr> else r)
        (tasks (db w1))\<rparr>\<rparr>)"

subsection \<open>Recording the outcome\<close>

definition handle_failure ::
    "'q queue_client \<Rightarrow> task \<Rightarrow> job \<Rightarrow> string option \<Rightarrow> string option \<Rightarrow> 'q world \<Rightarrow> unit result \<times> 'q world" where
  "handle_failure qc t j out err w =
     (let (now, w1) = utcnow w in
      case mark_failed (tid t) out err (max_retries j \<le> retry_count t) now (db w1) of
        Inl e \<Rightarrow> (Inl e, w1)
      | Inr d \<Rightarrow>
          (let w2 = w1\<lparr>db := d\<rparr> in
           if max_retries j \<le> retry_count t then (Inr (), w2)
           else
             (let (i, w3) = uuid4 w2; (now', w4) = utcnow w3 in
              case task_create (new_task i (jid j) (trigger_type t) (retry_count t + 1) now') (db w4) of
                Inl e \<Rightarrow> (Inl e, w4)
              | Inr d' \<Rightarrow>
                  (let w5 = w4\<lparr>db := d'\<rparr> in
                   case send_task qc i (retry_queue w5) of
                     Inl e \<Rightarrow> (Inl e, w5)
                   | Inr q \<Rightarrow> (Inr (), w5\<lparr>retry_queue := q\<rparr>)))))"

definition record_result ::
    "'q queue_client \<Rightarrow> task \<Rightarrow> job \<Rightarrow> execution_result \<Rightarrow> 'q world \<Rightarrow> unit result \<times> 'q world" where
  "record_result qc t j r w =
     (if er_success r then
        (let (now, w1) = utcnow w in
         case mark_success (tid t) (truncate_output (er_stdout r)) (truncate_output (er_stderr r)) now (db w1) of
           Inl e \<Rightarrow> (Inl e, w1)
         | Inr d \<Rightarrow> (Inr (), w1\<lparr>db := d\<rparr>))
      else handle_failure qc t j (truncate_output (er_stdout r)) (truncate_output (er_stderr r)) w)"

text \<open>\<open>process_task_id_async\<close>: true when the message can be deleted.\<close>

definition terminal :: "status \<Rightarrow> bool" where
  "terminal s \<longleftrightarrow> s \<in> {success, failed, final_failed}"

definition process_task_id ::
    "'q queue_client \<Rightarrow> 'q environment \<Rightarrow> worker \<Rightarrow> (container_spec \<Rightarrow> execution_result result) \<Rightarrow>
     (error \<Rightarrow> string) \<Rightarrow> uuid \<Rightarrow> 'q world \<Rightarrow> bool result \<times> 'q world" where
  "process_task_id qc env wk executor exc_str t_id w =
     (case claim_with_retry env wk t_id w of
        (None, w1) \<Rightarrow>
          (Inr (case task_get t_id (db w1) of None \<Rightarrow> True | Some r \<Rightarrow> terminal (status r)), w1)
      | (Some t, w1) \<Rightarrow>
          (case get_job_with_retry env (task_job_id t) w1 of
             (None, w2) \<Rightarrow>
               (let (now, w3) = utcnow w2 in
                case mark_failed (tid t) (Some []) (Some ''Job not found'') True now (db w3) of
                  Inl e \<Rightarrow> (Inl e, w3)
                | Inr d \<Rightarrow> (Inr True, w3\<lparr>db := d\<rparr>))
           | (Some j, w2) \<Rightarrow>
               (case record_result qc t j (execute_job executor exc_str j) (during_run env w2) of
                  (Inl e, w3) \<Rightarrow> (Inl e, w3)
                | (Inr u, w3) \<Rightarrow> (Inr True, w3))))"

subsection \<open>Writing tasks keeps the store consistent\<close>

lemma store_inv_tasks:
  assumes inv: "store_inv cfg w" and q: "quiet w w1" and wf: "db_wf (db w')"
    and same: "jobs (db w') = jobs (db w)" "job_dependencies (db w') = job_dependencies (db w)"
      "task_ids (db w') = task_ids (db w)"
    and src: "uuid_source w' = uuid_source w1" "uuids_drawn w' = uuids_drawn w1"
  shows "store_inv cfg w'"
proof -
  have "uuids_fresh w'"
    by (rule uuids_fresh_sub [of w]) (use inv q same src in \<open>auto simp: store_inv_def quiet_def job_ids_def\<close>)
  then show ?thesis using inv wf same by (simp add: store_inv_def dag_def specs_derived_def)
qed

lemma task_write_store:
  assumes inv: "store_inv cfg w" and q: "quiet w w1" and tw: "task_write t f (db w) = Inr (db w')"
    and f: "keeps_identity f" and ok: "\<And>r. r \<in> set (tasks (db w)) \<Longrightarrow> tid r = t \<Longrightarrow> task_ok (f r)"
    and src: "uuid_source w' = uuid_source w1" "uuids_drawn w' = uuids_drawn w1"
  shows "store_inv cfg w'"
proof (rule store_inv_tasks [OF inv q])
  show "db_wf (db w')" using inv tw f ok by (auto simp: store_inv_def intro: task_write_wf)
qed (use task_write_frame [OF tw f] src in auto)

lemma finish_task_store:
  assumes inv: "store_inv cfg w" and q: "quiet w w1" and tw: "finish_task t st out err now (db w) = Inr (db w')"
    and st: "terminal st" and src: "uuid_source w' = uuid_source w1" "uuids_drawn w' = uuids_drawn w1"
  shows "store_inv cfg w'"
proof (rule task_write_store [OF inv q _ _ _ src])
  show "task_write t (finish_columns st out err now) (db w) = Inr (db w')" using tw by (simp add: finish_task_def)
  show "task_ok (finish_columns st out err now r)" if "r \<in> set (tasks (db w))" for r
    using inv that st by (auto simp: store_inv_def db_wf_def task_ok_def finish_columns_def terminal_def)
qed simp

subsection \<open>The claim\<close>

lemma keeps_identity_claim [simp]: "keeps_identity (claim_columns worker until start)"
  by (simp add: keeps_identity_def claim_columns_def)

lemma claim_columns_sel [simp]:
  "status (claim_columns k u s t) = running" "locked_by (claim_columns k u s t) = Some k"
  "locked_until (claim_columns k u s t) = Some u" "tid (claim_columns k u s t) = tid t"
  "task_job_id (claim_columns k u s t) = task_job_id t" "retry_count (claim_columns k u s t) = retry_count t"
  "trigger_type (claim_columns k u s t) = trigger_type t"
  by (simp_all add: claim_columns_def)

lemma claim_task_cases:
  assumes "claim_task wk t w = (r, w')"
  obtains (lost) "r = None" "quiet w w'" "\<And>row. get_task_row (db w) t = Some row \<Longrightarrow> status row \<noteq> pending"
  | (won) row until start d w2 where "get_task_row (db w) t = Some row" "status row = pending"
      "r = Some (claim_columns (w_id wk) until start row)" "quiet w w2" "w' = w2\<lparr>db := d\<rparr>"
      "until = clock w (ticks w) + seconds (claim_seconds wk)"
      "task_write t (claim_columns (w_id wk) until start) (db w) = Inr d"
proof -
  obtain now1 w1 where n1: "utcnow w = (now1, w1)" by fastforce
  obtain now2 w2 where n2: "utcnow w1 = (now2, w2)" by fastforce
  have q: "quiet w w2" using quiet_trans [OF quiet_utcnow [OF n1] quiet_utcnow [OF n2]] .
  have now1: "now1 = clock w (ticks w)" using n1 by (simp add: utcnow_def)
  let ?f = "claim_columns (w_id wk) (now1 + seconds (claim_seconds wk)) now2"
  show ?thesis
  proof (cases "\<exists>row. get_task_row (db w) t = Some row \<and> status row = pending")
    case False
    then have "claim_task wk t w = (None, w2)"
      by (auto simp: claim_task_def n1 n2 quietD(1) [OF q] split: option.splits)
    with assms lost q False show ?thesis by auto
  next
    case True
    then obtain row where row: "get_task_row (db w) t = Some row" "status row = pending" by blast
    then have "t \<in> task_ids (db w)" by (metis get_task_row_None_iff option.distinct(1))
    then have tw: "task_write t ?f (db w) = Inr ((db w)\<lparr>tasks := update_row tid t ?f (tasks (db w))\<rparr>)"
      by (simp add: task_write_def)
    have "claim_task wk t w = (Some (?f row), w2\<lparr>db := (db w)\<lparr>tasks := update_row tid t ?f (tasks (db w))\<rparr>\<rparr>)"
      using row task_write_row [OF tw, of t]
      by (simp add: claim_task_def n1 n2 quietD(1) [OF q] task_get_def Let_def)
    with assms won [OF row _ q _ _ tw] now1 show ?thesis by simp
  qed
qed

lemma claim_task_store:
  assumes inv: "store_inv cfg w" and c: "claim_task wk t w = (r, w')"
  shows "store_inv cfg w'"
  using c
proof (cases rule: claim_task_cases)
  case lost
  with inv show ?thesis by (simp add: store_inv_quiet)
next
  case (won row until start d w2)
  show ?thesis
  proof (rule task_write_store [OF inv won(4)])
    show "task_write t (claim_columns (w_id wk) until start) (db w) = Inr (db w')" using won(5,7) by simp
    show "task_ok (claim_columns (w_id wk) until start r)" if "r \<in> set (tasks (db w))" "tid r = t" for r
    proof -
      have "r = row" using same_row [OF _ won(1) that] inv by (simp add: store_inv_def)
      then show ?thesis
        using that(1) inv won(2) by (auto simp: store_inv_def db_wf_def task_ok_def claim_columns_def)
    qed
  qed (use won in auto)
qed

lemma heartbeat_store:
  assumes inv: "store_inv cfg w"
  shows "store_inv cfg (heartbeat_beat wk t w)"
proof -
  obtain now w1 where n: "utcnow w = (now, w1)" by fastforce
  note q = quiet_utcnow [OF n]
  let ?f = "\<lambda>r. if locked_by r = Some (w_id wk) then r\<lparr>locked_until := Some (now + seconds (claim_seconds wk))\<rparr> else r"
  show ?thesis
  proof (cases "t \<in> task_ids (db w)")
    case True
    show ?thesis
    proof (rule task_write_store [OF inv q])
      show "task_write t ?f (db w) = Inr (db (heartbeat_beat wk t w))"
        using True by (simp add: heartbeat_beat_def n quietD(1) [OF q] task_write_def)
      show "keeps_identity ?f" by (simp add: keeps_identity_def)
      show "task_ok (?f r)" if "r \<in> set (tasks (db w))" "tid r = t" for r
        using that inv by (auto simp: store_inv_def db_wf_def task_ok_def)
    qed (simp_all add: heartbeat_beat_def n)
  next
    case False
    then have "heartbeat_beat wk t w = w1"
      by (simp add: heartbeat_beat_def n quietD(1) [OF q] update_row_absent task_ids_def)
    with inv q show ?thesis by (simp add: store_inv_quiet)
  qed
qed

subsection \<open>Outcomes of a run\<close>

lemma mark_failed_eq: "mark_failed t out err final now d = finish_task t (if final then final_failed else failed) out err now d"
  by (simp add: mark_failed_def)

lemma handle_failure_cases:
  assumes "handle_failure qc t j out err w = (r, w')"
  obtains (stale) now where "r = Inl StaleDataError" "utcnow w = (now, w')" "tid t \<notin> task_ids (db w)"
  | (final) now w1 d where "max_retries j \<le> retry_count t" "r = Inr ()" "utcnow w = (now, w1)"
      "finish_task (tid t) final_failed out err now (db w) = Inr d" "w' = w1\<lparr>db := d\<rparr>"
  | (rejected) now w1 d i w3 now' w4 e where "retry_count t < max_retries j" "r = Inl e" "utcnow w = (now, w1)"
      "finish_task (tid t) failed out err now (db w) = Inr d" "uuid4 (w1\<lparr>db := d\<rparr>) = (i, w3)" "utcnow w3 = (now', w4)"
      "task_create (new_task i (jid j) (trigger_type t) (retry_count t + 1) now') d = Inl e" "w' = w4"
  | (retried) now w1 d i w3 now' w4 d' where "retry_count t < max_retries j" "utcnow w = (now, w1)"
      "finish_task (tid t) failed out err now (db w) = Inr d" "uuid4 (w1\<lparr>db := d\<rparr>) = (i, w3)" "utcnow w3 = (now', w4)"
      "task_create (new_task i (jid j) (trigger_type t) (retry_count t + 1) now') d = Inr d'"
      "(r, w') = (case send_task qc i (retry_queue w) of
          Inl e \<Rightarrow> (Inl e, w4\<lparr>db := d'\<rparr>) | Inr q \<Rightarrow> (Inr (), w4\<lparr>db := d', retry_queue := q\<rparr>))"
proof -
  obtain now w1 where n: "utcnow w = (now, w1)" by fastforce
  note q1 = quiet_utcnow [OF n]
  let ?st = "if max_retries j \<le> retry_count t then final_failed else failed"
  show ?thesis
  proof (cases "finish_task (tid t) ?st out err now (db w)")
    case (Inl e)
    then have "tid t \<notin> task_ids (db w)" "e = StaleDataError"
      by (auto simp: finish_task_def task_write_def split: if_splits)
    moreover have "handle_failure qc t j out err w = (Inl e, w1)"
      using Inl by (simp add: handle_failure_def n mark_failed_eq quietD(1) [OF q1])
    ultimately show ?thesis using assms stale n by auto
  next
    case d: (Inr d)
    show ?thesis
    proof (cases "max_retries j \<le> retry_count t")
      case True
      then have "handle_failure qc t j out err w = (Inr (), w1\<lparr>db := d\<rparr>)"
        using d by (simp add: handle_failure_def n mark_failed_eq quietD(1) [OF q1])
      with assms final [OF True _ n] d True show ?thesis by auto
    next
      case False
      obtain i w3 where u: "uuid4 (w1\<lparr>db := d\<rparr>) = (i, w3)" by fastforce
      obtain now' w4 where n': "utcnow w3 = (now', w4)" by fastforce
      have q4: "quiet (w1\<lparr>db := d\<rparr>) w4" using quiet_trans [OF quiet_uuid4 [OF u] quiet_utcnow [OF n']] .
      have db4: "db w4 = d" "retry_queue w4 = retry_queue w" using quietD [OF q4] quietD [OF q1] by simp_all
      have lt: "retry_count t < max_retries j" and fin: "finish_task (tid t) failed out err now (db w) = Inr d"
        using False d by auto
      let ?t = "new_task i (jid j) (trigger_type t) (retry_count t + 1) now'"
      show ?thesis
      proof (cases "task_create ?t d")
        case (Inl e)
        then have "handle_failure qc t j out err w = (Inl e, w4)"
          using fin lt by (simp add: handle_failure_def n mark_failed_eq quietD(1) [OF q1] u n' db4)
        with assms rejected [OF lt _ n fin u n' Inl] show ?thesis by simp
      next
        case (Inr d')
        then have "(r, w') = (case send_task qc i (retry_queue w) of
          Inl e \<Rightarrow> (Inl e, w4\<lparr>db := d'\<rparr>) | Inr q \<Rightarrow> (Inr (), w4\<lparr>db := d', retry_queue := q\<rparr>))"
          using assms fin lt
          by (simp add: handle_failure_def n mark_failed_eq quietD(1) [OF q1] u n' db4 Let_def)
        with retried [OF lt n fin u n' Inr] show ?thesis by blast
      qed
    qed
  qed
qed

lemma handle_failure_store:
  assumes inv: "store_inv cfg w" and t: "0 \<le> retry_count t" and h: "handle_failure qc t j out err w = (r, w')"
  shows "store_inv cfg w'"
  using h
proof (cases rule: handle_failure_cases)
  case (stale now)
  then show ?thesis using inv by (simp add: store_inv_quiet [OF quiet_utcnow])
next
  case (final now w1 d)
  then show ?thesis
    using finish_task_store [OF inv quiet_utcnow [OF final(3)], of _ _ _ _ _ w'] by (simp add: terminal_def)
next
  case (rejected now w1 d i w3 now' w4 e)
  have "store_inv cfg (w1\<lparr>db := d\<rparr>)"
    using finish_task_store [OF inv quiet_utcnow [OF rejected(3)], of _ _ _ _ _ "w1\<lparr>db := d\<rparr>"] rejected(4)
    by (simp add: terminal_def)
  then show ?thesis
    using store_inv_quiet [OF quiet_trans [OF quiet_uuid4 [OF rejected(5)] quiet_utcnow [OF rejected(6)]]] rejected(8)
    by simp
next
  case (retried now w1 d i w3 now' w4 d')
  have inv1: "store_inv cfg (w1\<lparr>db := d\<rparr>)"
    using finish_task_store [OF inv quiet_utcnow [OF retried(2)], of _ _ _ _ _ "w1\<lparr>db := d\<rparr>"] retried(3)
    by (simp add: terminal_def)
  have "db w' = d'" "uuid_source w' = uuid_source w4" "uuids_drawn w' = uuids_drawn w4"
    using retried(7) by (auto split: sum.splits)
  then show ?thesis
    using task_create_store [OF inv1 retried(4) quiet_utcnow [OF retried(5)], of _ w'] retried(6) t by simp
qed

lemma record_result_store:
  assumes inv: "store_inv cfg w" and t: "0 \<le> retry_count t" and h: "record_result qc t j res w = (r, w')"
  shows "store_inv cfg w'"
proof (cases "er_success res")
  case False
  then show ?thesis using h handle_failure_store [OF inv t] by (simp add: record_result_def)
next
  case True
  obtain now w1 where n: "utcnow w = (now, w1)" by fastforce
  note q = quiet_utcnow [OF n]
  show ?thesis
  proof (cases "mark_success (tid t) (truncate_output (er_stdout res)) (truncate_output (er_stderr res)) now (db w)")
    case (Inl e)
    then have "w' = w1" using h True n by (simp add: record_result_def quietD(1) [OF q])
    then show ?thesis using store_inv_quiet [OF q inv] by simp
  next
    case (Inr d)
    then have "w' = w1\<lparr>db := d\<rparr>" using h True n by (simp add: record_result_def quietD(1) [OF q])
    then show ?thesis
      using finish_task_store [OF inv q, of _ _ _ _ _ w'] Inr by (simp add: mark_success_def terminal_def)
  qed
qed

definition outcome_status :: "execution_result \<Rightarrow> task \<Rightarrow> job \<Rightarrow> status" where
  "outcome_status res t j =
     (if er_success res then success else if retry_count t < max_retries j then failed else final_failed)"

definition needs_retry :: "execution_result \<Rightarrow> task \<Rightarrow> job \<Rightarrow> bool" where
  "needs_retry res t j \<longleftrightarrow> \<not> er_success res \<and> retry_count t < max_retries j"

definition finished_as :: "execution_result \<Rightarrow> status \<Rightarrow> time \<Rightarrow> task \<Rightarrow> task" where
  "finished_as res st now =
     finish_columns st (truncate_output (er_stdout res)) (truncate_output (er_stderr res)) now"

context reliable_queue
begin

lemma record_result_run:
  assumes fresh: "uuids_fresh w" and t: "tid t \<in> task_ids (db w)" and j: "jid j \<in> job_ids (db w)"
    and h: "record_result client t j res w = (r, w')"
  shows "r = Inr () \<and> jobs (db w') = jobs (db w) \<and> job_dependencies (db w') = job_dependencies (db w) \<and>
    normal_queue w' = normal_queue w \<and>
    (\<exists>now more.
      tasks (db w') = update_row tid (tid t) (finished_as res (outcome_status res t j) now) (tasks (db w)) @ more \<and>
      (if needs_retry res t j
       then \<exists>n. more = [n] \<and> n = new_task (tid n) (jid j) (trigger_type t) (retry_count t + 1) (tcreated_at n) \<and>
              waiting (retry_queue w') = add_mset (task_body (tid n)) (waiting (retry_queue w))
       else more = [] \<and> retry_queue w' = retry_queue w))"
proof (cases "er_success res")
  case True
  obtain now w1 where n: "utcnow w = (now, w1)" by fastforce
  note q = quiet_utcnow [OF n]
  have "(r, w') = (Inr (), w1\<lparr>db := (db w)\<lparr>tasks := update_row tid (tid t) (finished_as res success now) (tasks (db w))\<rparr>\<rparr>)"
    using h True t n by (simp add: record_result_def mark_success_def finish_task_def task_write_def quietD(1) [OF q]
        finished_as_def)
  then show ?thesis
    using True quietD [OF q] by (auto simp: outcome_status_def needs_retry_def)
next
  case False
  then have "handle_failure client t j (truncate_output (er_stdout res)) (truncate_output (er_stderr res)) w = (r, w')"
    using h by (simp add: record_result_def)
  then show ?thesis
  proof (cases rule: handle_failure_cases)
    case (stale now)
    with t show ?thesis by simp
  next
    case (final now w1 d)
    then show ?thesis
      using False t quietD [OF quiet_utcnow [OF final(3)]]
      by (auto simp: outcome_status_def needs_retry_def finish_task_def task_write_def finished_as_def)
  next
    case (rejected now w1 d i w3 now' w4 e)
    have d: "task_ids d = task_ids (db w)" "job_ids d = job_ids (db w)"
      using task_write_frame [OF rejected(4) [unfolded finish_task_def] keeps_identity_columns(1)]
      by (auto simp: job_ids_def)
    have "uuids_fresh (w1\<lparr>db := d\<rparr>)"
      by (rule uuids_fresh_sub [OF quiet_fresh [OF quiet_utcnow [OF rejected(3)] fresh]])
        (use d quietD(1) [OF quiet_utcnow [OF rejected(3)]] in auto)
    then show ?thesis using uuid4_new [OF _ rejected(5)] rejected(7) d j by (auto simp: task_create_def split: if_splits)
  next
    case (retried now w1 d i w3 now' w4 d')
    obtain q where s: "send_task client i (retry_queue w) = Inr q" using send_total by blast
    have "quiet (w1\<lparr>db := d\<rparr>) w4" using quiet_trans [OF quiet_uuid4 [OF retried(4)] quiet_utcnow [OF retried(5)]] .
    then have nq: "normal_queue w4 = normal_queue w" using quietD(2) [OF quiet_utcnow [OF retried(2)]] by (simp add: quiet_def)
    have d: "d = (db w)\<lparr>tasks := update_row tid (tid t) (finished_as res failed now) (tasks (db w))\<rparr>"
      using retried(3) t by (simp add: finish_task_def task_write_def finished_as_def)
    note c = task_create_SomeD [OF retried(6)]
    show ?thesis
      using retried(1,7) s d c nq send_waiting [OF s] False
      by (auto simp: outcome_status_def needs_retry_def)
  qed
qed

lemma process_run:
  assumes inv: "store_inv cfg w" and row: "get_task_row (db w) i = Some t" "status t = pending"
    and job: "get_job_row (db w) (task_job_id t) = Some j" and res: "res = execute_job executor exc_str j"
    and p: "process_task_id client idle wk executor exc_str i w = (r, w')"
  shows "r = Inr True \<and> store_inv cfg w' \<and> jobs (db w') = jobs (db w) \<and> normal_queue w' = normal_queue w \<and>
    (\<exists>until start now more.
      tasks (db w') = update_row tid i
        (\<lambda>x. finished_as res (outcome_status res t j) now (claim_columns (w_id wk) until start x)) (tasks (db w)) @ more \<and>
      (if needs_retry res t j
       then \<exists>n. more = [n] \<and> n = new_task (tid n) (jid j) (trigger_type t) (retry_count t + 1) (tcreated_at n) \<and>
              waiting (retry_queue w') = add_mset (task_body (tid n)) (waiting (retry_queue w))
       else more = [] \<and> retry_queue w' = retry_queue w))"
proof -
  obtain c w1 where c: "claim_task wk i w = (c, w1)" by fastforce
  then obtain until start d w2 where won: "c = Some (claim_columns (w_id wk) until start t)" "quiet w w2"
    "w1 = w2\<lparr>db := d\<rparr>" "task_write i (claim_columns (w_id wk) until start) (db w) = Inr d"
    using row by (cases rule: claim_task_cases) auto
  let ?t = "claim_columns (w_id wk) until start t"
  have inv1: "store_inv cfg w1" using claim_task_store [OF inv c] .
  have tid: "tid t = i" "t \<in> set (tasks (db w))" using get_task_row_SomeD [OF row(1)] by auto
  have rc: "0 \<le> retry_count t" using inv tid(2) by (auto simp: store_inv_def db_wf_def task_ok_def)
  note D = task_write_SomeD [OF won(4)]
  note F = task_write_frame [OF won(4) keeps_identity_claim]
  have claim: "claim_with_retry idle wk i w = (Some ?t, w1)"
    using c won(1) by (simp add: claim_with_retry_def lookup_attempts_def eval_nat_numeral)
  have "job_get (task_job_id t) (db w1) = Some j" using job won(3) F by (simp add: job_get_def get_job_row_def)
  then have jr: "get_job_with_retry idle (task_job_id t) w1 = (Some j, w1)"
    by (simp add: get_job_with_retry_def lookup_attempts_def eval_nat_numeral)
  obtain r3 w3 where r3: "record_result client ?t j res w1 = (r3, w3)" by fastforce
  have "jid j \<in> job_ids (db w)" using get_job_row_SomeD [OF job] by (metis imageI job_ids_def)
  then have j: "jid j \<in> job_ids (db w1)" using won(3) F by (simp add: job_ids_def)
  have ti: "tid ?t \<in> task_ids (db w1)" using won(3) F tid by (auto simp: task_ids_def)
  have fresh1: "uuids_fresh w1" using inv1 by (simp add: store_inv_def)
  note R = record_result_run [OF fresh1 ti j r3]
  have rw: "r = Inr True" "w' = w3" using p claim jr r3 R res by (simp_all add: process_task_id_def idle_def)
  have os: "outcome_status res ?t j = outcome_status res t j" "needs_retry res ?t j = needs_retry res t j"
    by (simp_all add: outcome_status_def needs_retry_def)
  from R obtain now more where tm:
    "tasks (db w3) = update_row tid i (finished_as res (outcome_status res t j) now) (tasks (db w1)) @ more"
    "if needs_retry res t j
       then \<exists>n. more = [n] \<and> n = new_task (tid n) (jid j) (trigger_type t) (retry_count t + 1) (tcreated_at n) \<and>
              waiting (retry_queue w3) = add_mset (task_body (tid n)) (waiting (retry_queue w1))
       else more = [] \<and> retry_queue w3 = retry_queue w1"
    unfolding os claim_columns_sel tid(1) by blast
  have "tasks (db w1) = update_row tid i (claim_columns (w_id wk) until start) (tasks (db w))" using D won(3) by simp
  then have "tasks (db w3) = update_row tid i
      (\<lambda>x. finished_as res (outcome_status res t j) now (claim_columns (w_id wk) until start x)) (tasks (db w)) @ more"
    using tm(1) by (simp add: update_row_update_row)
  moreover have "retry_queue w1 = retry_queue w" "normal_queue w1 = normal_queue w" using won(2,3) by (simp_all add: quietD)
  moreover have "store_inv cfg w3" using record_result_store [OF inv1 _ r3] rc by simp
  ultimately show ?thesis using R rw tm(2) won(3) F by auto
qed

end

text \<open>The row of the job a task belongs to exists, by the foreign key.\<close>

lemma job_of_task:
  assumes "db_wf d" "get_task_row d i = Some t"
  shows "\<exists>j. get_job_row d (task_job_id t) = Some j"
proof -
  have "task_job_id t \<in> job_ids d" using assms get_task_row_SomeD [OF assms(2)] by (auto simp: db_wf_def fks_ok_def)
  then show ?thesis by (metis get_job_row_None_iff option.exhaust)
qed

lemma finished_as_sel [simp]:
  "tid (finished_as res st now t) = tid t" "task_job_id (finished_as res st now t) = task_job_id t"
  "status (finished_as res st now t) = st" "retry_count (finished_as res st now t) = retry_count t"
  "locked_by (finished_as res st now t) = None" "finished_at (finished_as res st now t) = Some now"
  "stdout (finished_as res st now t) = truncate_output (er_stdout res)"
  "stderr (finished_as res st now t) = truncate_output (er_stderr res)"
  "trigger_type (finished_as res st now t) = trigger_type t"
  by (simp_all add: finished_as_def finish_columns_def)

subsection \<open>Properties of a worker\<close>

text \<open>(C11) A claim is exclusive. It succeeds only on a pending task, it leaves the task running under the
  worker's name with a lock that ends \<open>claim_seconds\<close> after the first clock reading, and as long as
  the row stays as the claim left it, every other claim of that task is lost and changes nothing.\<close>

theorem claim_is_exclusive:
  fixes w w' :: "'q world"
  assumes "claim_task wk i w = (Some r, w')"
  shows "(\<exists>row. get_task_row (db w) i = Some row \<and> status row = pending) \<and>
    get_task_row (db w') i = Some r \<and> status r = running \<and> locked_by r = Some (w_id wk) \<and>
    locked_until r = Some (clock w (ticks w) + seconds (claim_seconds wk)) \<and>
    (\<forall>wk2 (w2 :: 'q world). get_task_row (db w2) i = Some r \<longrightarrow>
       fst (claim_task wk2 i w2) = None \<and> db (snd (claim_task wk2 i w2)) = db w2)"
  using assms
proof (cases rule: claim_task_cases)
  case (won row until start d w2)
  have "get_task_row (db w') i = Some r" using task_write_row [OF won(7), of i] won by simp
  moreover have "fst (claim_task wk2 i w3) = None \<and> db (snd (claim_task wk2 i w3)) = db w3"
    if "get_task_row (db w3) i = Some r" for wk2 and w3 :: "'q world"
  proof -
    obtain c w4 where c: "claim_task wk2 i w3 = (c, w4)" by fastforce
    then show ?thesis using that won(3) by (cases rule: claim_task_cases) (auto simp: c quietD)
  qed
  ultimately show ?thesis using won by auto
qed simp

definition sample_worker :: worker where
  "sample_worker = \<lparr>w_id = ''w1'', claim_seconds = 30\<rparr>"

definition pending_world :: "mem_queue world" where
  "pending_world = paused_world\<lparr>db := (db paused_world)\<lparr>tasks := [new_task ''t'' ''a'' manual 0 0]\<rparr>\<rparr>"

lemma pending_store_inv: "store_inv default_settings pending_world"
proof -
  have "db_wf (db pending_world)"
    using paused_store_inv
    by (simp add: store_inv_def db_wf_def pending_world_def keys_ok_def fks_ok_def job_ids_def paused_world_def
        paused_job_def)
  moreover have "uuids_fresh pending_world"
    using paused_store_inv
    by (simp add: store_inv_def uuids_fresh_def pending_world_def job_ids_def task_ids_def
        paused_world_def sample_world_def initial_world_def)
  ultimately show ?thesis using paused_store_inv
    by (simp add: store_inv_def dag_def specs_derived_def pending_world_def)
qed

theorem claim_is_exclusive_witness:
  "\<exists>r w'. claim_task sample_worker ''t'' pending_world = (Some r, w') \<and> fst (claim_task sample_worker ''t'' w') = None"
proof -
  have "fst (claim_task sample_worker ''t'' pending_world) \<noteq> None" by code_simp
  then obtain r w' where c: "claim_task sample_worker ''t'' pending_world = (Some r, w')"
    by (metis option.exhaust prod.collapse)
  from claim_is_exclusive [OF c] c show ?thesis by blast
qed

text \<open>(C12) What a worker does with a pending task when nothing interferes and sends succeed. It reports that
  the message can be deleted; the task ends unlocked with the capped output of the run, as success,
  as failed when attempts are left, or as final_failed; exactly in the second case one pending
  attempt of the same job is added, with the count one higher, and its message goes to the retry queue.\<close>

theorem process_task_outcome:
  assumes "store_inv cfg w" "get_task_row (db w) i = Some t" "status t = pending"
    "process_task_id MemoryQueueClient idle wk executor exc_str i w = (r, w')"
  shows "\<exists>j t'. get_job_row (db w) (task_job_id t) = Some j \<and> r = Inr True \<and> store_inv cfg w' \<and>
    get_task_row (db w') i = Some t' \<and> status t' = outcome_status (execute_job executor exc_str j) t j \<and>
    locked_by t' = None \<and> stdout t' = truncate_output (er_stdout (execute_job executor exc_str j)) \<and>
    (if needs_retry (execute_job executor exc_str j) t j
     then \<exists>n. task_ids (db w') = insert (tid n) (task_ids (db w)) \<and> tid n \<notin> task_ids (db w) \<and>
            get_task_row (db w') (tid n) = Some n \<and> status n = pending \<and> task_job_id n = task_job_id t \<and>
            retry_count n = retry_count t + 1 \<and>
            queued (retry_queue w') = add_mset (task_body (tid n)) (queued (retry_queue w))
     else task_ids (db w') = task_ids (db w) \<and> retry_queue w' = retry_queue w)"
proof -
  obtain j where j: "get_job_row (db w) (task_job_id t) = Some j"
    using job_of_task [OF _ assms(2)] assms(1) by (auto simp: store_inv_def)
  let ?res = "execute_job executor exc_str j"
  note P = memq.process_run [OF assms(1-3) j refl assms(4)]
  then obtain until start now more where tm:
    "tasks (db w') = update_row tid i
        (\<lambda>x. finished_as ?res (outcome_status ?res t j) now (claim_columns (w_id wk) until start x)) (tasks (db w)) @ more"
    "if needs_retry ?res t j
       then \<exists>n. more = [n] \<and> n = new_task (tid n) (jid j) (trigger_type t) (retry_count t + 1) (tcreated_at n) \<and>
              queued (retry_queue w') = add_mset (task_body (tid n)) (queued (retry_queue w))
       else more = [] \<and> retry_queue w' = retry_queue w" by blast
  let ?f = "\<lambda>x. finished_as ?res (outcome_status ?res t j) now (claim_columns (w_id wk) until start x)"
  have ids: "task_ids (db w') = task_ids (db w) \<union> tid ` set more"
    using tm(1) by (simp add: task_ids_def keys_update_row image_Un)
  have "get_task_row (db w') i = Some (?f t)"
    using tm(1) assms(2) by (simp add: get_task_row_def find_row_append find_row_update_row)
  moreover have "jid j = task_job_id t" using get_job_row_SomeD [OF j] by simp
  moreover have "if needs_retry ?res t j
     then \<exists>n. task_ids (db w') = insert (tid n) (task_ids (db w)) \<and> tid n \<notin> task_ids (db w) \<and>
            get_task_row (db w') (tid n) = Some n \<and> status n = pending \<and> task_job_id n = jid j \<and>
            retry_count n = retry_count t + 1 \<and>
            queued (retry_queue w') = add_mset (task_body (tid n)) (queued (retry_queue w))
     else task_ids (db w') = task_ids (db w) \<and> retry_queue w' = retry_queue w"
  proof (cases "needs_retry ?res t j")
    case True
    with tm(2) obtain n where n: "more = [n]" "n = new_task (tid n) (jid j) (trigger_type t) (retry_count t + 1) (tcreated_at n)"
      "queued (retry_queue w') = add_mset (task_body (tid n)) (queued (retry_queue w))" by auto
    have "distinct (map tid (tasks (db w')))" using P by (simp add: store_inv_def db_wf_def keys_ok_def)
    then have "tid n \<notin> task_ids (db w)" "get_task_row (db w') (tid n) = Some n"
      using tm(1) n(1) by (auto simp: task_ids_def keys_update_row get_task_row_def find_row_Some_iff)
    moreover have "status n = pending" "task_job_id n = jid j" "retry_count n = retry_count t + 1"
      using n(2) by (metis new_task_sel)+
    ultimately show ?thesis using True ids n by auto
  next
    case False
    then show ?thesis using tm(2) ids by simp
  qed
  ultimately show ?thesis using j P by auto
qed

definition always_fails :: "container_spec \<Rightarrow> execution_result result" where
  "always_fails spec = Inr (exit_result 1 ''out'' ''err'')"

theorem process_task_outcome_witness:
  "\<exists>w' t'. process_task_id MemoryQueueClient idle sample_worker always_fails (\<lambda>e. []) ''t'' pending_world = (Inr True, w') \<and>
     get_task_row (db w') ''t'' = Some t' \<and> status t' = final_failed \<and> stdout t' = Some ''out''"
proof -
  obtain r w' where p: "process_task_id MemoryQueueClient idle sample_worker always_fails (\<lambda>e. []) ''t'' pending_world = (r, w')"
    by fastforce
  have row: "get_task_row (db pending_world) ''t'' = Some (new_task ''t'' ''a'' manual 0 0)"
    by (simp add: pending_world_def get_task_row_def)
  have job: "get_job_row (db pending_world) ''a'' = Some paused_job"
    by (simp add: pending_world_def get_job_row_def paused_world_def paused_job_def)
  have res: "execute_job always_fails (\<lambda>e. []) paused_job = exit_result 1 ''out'' ''err''"
    by (simp add: execute_job_def paused_job_def ContainerSpec_spec_json always_fails_def truthy_def spec_json_def
        ContainerSpec_def spec_fields_def jget_def)
  have os: "outcome_status (exit_result 1 ''out'' ''err'') (new_task ''t'' ''a'' manual 0 0) paused_job = final_failed"
    by (simp add: outcome_status_def exit_result_def paused_job_def)
  from process_task_outcome [OF pending_store_inv row _ p] obtain t' where "r = Inr True"
    "get_task_row (db w') ''t'' = Some t'" "status t' = final_failed" "stdout t' = truncate_output (Some ''out'')"
    using job res os by (auto simp: exit_result_def)
  then show ?thesis using p by (simp add: truncate_output_def max_output_chars_def)
qed

text \<open>(C35) When the task is not pending, a worker touches nothing, whatever other processes do, and it gives
  the message up exactly when the task has ended: the message of a task another worker is running
  stays in the queue.\<close>

theorem lost_claim_keeps_message:
  assumes "get_task_row (db w) i = Some t" "status t \<noteq> pending"
  shows "\<exists>w'. process_task_id qc env wk executor exc_str i w = (Inr (terminal (status t)), w') \<and> quiet w w'"
proof -
  obtain c w1 where c: "claim_task wk i w = (c, w1)" by fastforce
  then have n: "c = None" "quiet w w1" using assms by (cases rule: claim_task_cases; auto)+
  then have "claim_with_retry env wk i w = (None, w1)"
    using assms c by (simp add: claim_with_retry_def lookup_attempts_def eval_nat_numeral task_get_def quietD)
  then show ?thesis using assms n(2) by (auto simp: process_task_id_def task_get_def quietD)
qed

theorem lost_claim_keeps_message_witness:
  "\<exists>w'. process_task_id MemoryQueueClient idle sample_worker always_fails (\<lambda>e. []) ''t'' failed_world = (Inr True, w')"
proof -
  have "get_task_row (db failed_world) ''t'' = Some failed_task" "status failed_task \<noteq> pending" "terminal (status failed_task)"
    by (simp_all add: failed_world_def get_task_row_def failed_task_def terminal_def)
  then show ?thesis
    using lost_claim_keeps_message [of failed_world "''t''" failed_task MemoryQueueClient idle sample_worker always_fails "\<lambda>e. []"]
    by auto
qed

subsection \<open>The number of attempts\<close>

text \<open>Running the newest task of the table \<open>n\<close> times in a row.\<close>

fun run_chain ::
    "'q queue_client \<Rightarrow> worker \<Rightarrow> (container_spec \<Rightarrow> execution_result result) \<Rightarrow> (error \<Rightarrow> string) \<Rightarrow> nat \<Rightarrow>
     'q world \<Rightarrow> 'q world" where
  "run_chain qc wk executor exc_str 0 w = w"
| "run_chain qc wk executor exc_str (Suc n) w =
     run_chain qc wk executor exc_str n
       (snd (process_task_id qc idle wk executor exc_str (tid (last (tasks (db w)))) w))"

lemma last_row:
  assumes "db_wf d" "tasks d = pre @ [t]"
  shows "get_task_row d (tid t) = Some t" "update_row tid (tid t) f (tasks d) = pre @ [f t]"
proof -
  have dist: "distinct (map tid (tasks d))" using assms(1) by (simp add: db_wf_def keys_ok_def)
  then show "get_task_row d (tid t) = Some t"
    using assms(2) by (simp add: get_task_row_def find_row_Some_iff)
  have "tid t \<notin> tid ` set pre" using dist assms(2) by auto
  then show "update_row tid (tid t) f (tasks d) = pre @ [f t]"
    using assms(2) by (simp add: update_row_append update_row_absent)
qed

lemma failing_step:
  assumes inv: "store_inv cfg w" and tl: "tasks (db w) = pre @ [t]" and st: "status t = pending"
    and job: "get_job_row (db w) (task_job_id t) = Some j" and fails: "\<not> er_success (execute_job executor exc_str j)"
    and w': "w' = snd (process_task_id MemoryQueueClient idle wk executor exc_str (tid t) w)"
  shows "store_inv cfg w' \<and> get_job_row (db w') (task_job_id t) = Some j \<and>
    (\<exists>t'. retry_count t' = retry_count t \<and> task_job_id t' = task_job_id t \<and>
      (if retry_count t < max_retries j
       then status t' = failed \<and>
         (\<exists>n. tasks (db w') = pre @ [t', n] \<and> status n = pending \<and> retry_count n = retry_count t + 1 \<and>
              task_job_id n = task_job_id t)
       else status t' = final_failed \<and> tasks (db w') = pre @ [t']))"
proof -
  have wf: "db_wf (db w)" using inv by (simp add: store_inv_def)
  let ?res = "execute_job executor exc_str j"
  obtain r w2 where p: "process_task_id MemoryQueueClient idle wk executor exc_str (tid t) w = (r, w2)" by fastforce
  note P = memq.process_run [OF inv last_row(1) [OF wf tl] st job refl p]
  then obtain until start now more where tm:
    "tasks (db w2) = pre @ [finished_as ?res (outcome_status ?res t j) now (claim_columns (w_id wk) until start t)] @ more"
    "if needs_retry ?res t j
       then \<exists>n. more = [n] \<and> n = new_task (tid n) (jid j) (trigger_type t) (retry_count t + 1) (tcreated_at n)
       else more = []"
    using last_row(2) [OF wf tl] by (auto split: if_splits)
  let ?t = "finished_as ?res (outcome_status ?res t j) now (claim_columns (w_id wk) until start t)"
  have w2: "w' = w2" using w' p by simp
  have jid: "jid j = task_job_id t" using get_job_row_SomeD [OF job] by simp
  have "if retry_count t < max_retries j
       then status ?t = failed \<and> (\<exists>n. tasks (db w') = pre @ [?t, n] \<and> status n = pending \<and>
              retry_count n = retry_count t + 1 \<and> task_job_id n = task_job_id t)
       else status ?t = final_failed \<and> tasks (db w') = pre @ [?t]"
  proof (cases "retry_count t < max_retries j")
    case True
    then obtain n where n: "more = [n]" "n = new_task (tid n) (jid j) (trigger_type t) (retry_count t + 1) (tcreated_at n)"
      using tm(2) fails by (auto simp: needs_retry_def)
    have "status n = pending" "retry_count n = retry_count t + 1" "task_job_id n = jid j"
      using n(2) by (metis new_task_sel)+
    then show ?thesis using True n(1) tm(1) fails w2 jid by (auto simp: outcome_status_def)
  next
    case False
    then show ?thesis using tm fails w2 by (simp add: needs_retry_def outcome_status_def)
  qed
  moreover have "store_inv cfg w'" "get_job_row (db w') (task_job_id t) = Some j"
    using P w2 job by (simp_all add: get_job_row_def)
  moreover have "retry_count ?t = retry_count t" "task_job_id ?t = task_job_id t" by simp_all
  ultimately show ?thesis by blast
qed

text \<open>(C14) A job whose container always fails is attempted exactly \<open>max_retries + 1\<close> times, no more and no
  less: from a pending first attempt, that many runs turn the chain into \<open>max_retries\<close> failed attempts
  with counts 0, 1, 2, ... followed by one final_failed attempt, and no attempt is left pending.\<close>

theorem retries_are_bounded:
  assumes "store_inv cfg w" "tasks (db w) = pre @ [t]" "status t = pending" "retry_count t \<le> max_retries j"
    "get_job_row (db w) (task_job_id t) = Some j" "\<not> er_success (execute_job executor exc_str j)"
    "n = nat (max_retries j - retry_count t)"
  shows "\<exists>ts. tasks (db (run_chain MemoryQueueClient wk executor exc_str (Suc n) w)) = pre @ ts \<and>
    map status ts = replicate n failed @ [final_failed] \<and>
    map retry_count ts = map (\<lambda>k. retry_count t + int k) [0..<Suc n] \<and>
    (\<forall>x \<in> set ts. task_job_id x = task_job_id t)"
  using assms
proof (induction n arbitrary: w pre t)
  case 0
  define w' where "w' = snd (process_task_id MemoryQueueClient idle wk executor exc_str (tid t) w)"
  have "\<not> retry_count t < max_retries j" using 0(7) by simp
  then obtain t' where "retry_count t' = retry_count t" "task_job_id t' = task_job_id t" "status t' = final_failed"
    "tasks (db w') = pre @ [t']"
    using failing_step [OF 0(1,2,3,5,6) w'_def] by auto
  then show ?case using 0(2) by (intro exI [of _ "[t']"]) (simp add: w'_def)
next
  case (Suc n)
  define w' where "w' = snd (process_task_id MemoryQueueClient idle wk executor exc_str (tid t) w)"
  have lt: "retry_count t < max_retries j" using Suc.prems(7) by simp
  from failing_step [OF Suc.prems(1,2,3,5,6) w'_def] lt obtain t' m where tm: "store_inv cfg w'"
    "get_job_row (db w') (task_job_id t) = Some j" "retry_count t' = retry_count t" "task_job_id t' = task_job_id t"
    "status t' = failed" "tasks (db w') = pre @ [t', m]" "status m = pending" "retry_count m = retry_count t + 1"
    "task_job_id m = task_job_id t" by auto
  have "tasks (db w') = (pre @ [t']) @ [m]" "retry_count m \<le> max_retries j"
    "get_job_row (db w') (task_job_id m) = Some j" "n = nat (max_retries j - retry_count m)"
    using tm lt Suc.prems(7) by simp_all
  note IH = Suc.IH [OF tm(1) this(1) tm(7) this(2,3) Suc.prems(6) this(4)]
  then obtain ts where ts:
    "tasks (db (run_chain MemoryQueueClient wk executor exc_str (Suc n) w')) = (pre @ [t']) @ ts"
    "map status ts = replicate n failed @ [final_failed]"
    "map retry_count ts = map (\<lambda>k. retry_count t + 1 + int k) [0..<Suc n]"
    "\<forall>x \<in> set ts. task_job_id x = task_job_id t" unfolding tm(8,9) by blast
  have "map (\<lambda>k. retry_count t + int k) [0..<Suc (Suc n)] =
      retry_count t # map (\<lambda>k. retry_count t + 1 + int k) [0..<Suc n]"
    by (subst upt_conv_Cons) (simp_all add: map_Suc_upt [symmetric] del: upt_Suc)
  moreover have "run_chain MemoryQueueClient wk executor exc_str (Suc (Suc n)) w =
      run_chain MemoryQueueClient wk executor exc_str (Suc n) w'"
    using Suc.prems(2) by (simp add: w'_def)
  ultimately show ?case using ts tm(3-5) by (intro exI [of _ "t' # ts"]) (simp del: upt_Suc run_chain.simps)
qed

definition flaky_job :: job where
  "flaky_job = paused_job\<lparr>max_retries := 2\<rparr>"

definition flaky_world :: "mem_queue world" where
  "flaky_world = pending_world\<lparr>db := (db pending_world)\<lparr>jobs := [flaky_job]\<rparr>\<rparr>"

lemma flaky_store_inv: "store_inv default_settings flaky_world"
proof -
  have "db_wf (db flaky_world)"
    using pending_store_inv
    by (simp add: store_inv_def db_wf_def flaky_world_def keys_ok_def fks_ok_def job_ids_def pending_world_def
        flaky_job_def paused_world_def paused_job_def job_ok_def)
  moreover have "uuids_fresh flaky_world"
    using pending_store_inv
    by (simp add: store_inv_def uuids_fresh_def pending_world_def job_ids_def task_ids_def flaky_world_def
        flaky_job_def paused_world_def paused_job_def)
  moreover have "spec_derived default_settings flaky_job" using paused_spec by (simp add: spec_derived_iff flaky_job_def)
  ultimately show ?thesis using pending_store_inv
    by (simp add: store_inv_def dag_def specs_derived_def flaky_world_def)
qed

theorem retries_are_bounded_witness:
  "map status (tasks (db (run_chain MemoryQueueClient sample_worker always_fails (\<lambda>e. []) 3 flaky_world))) =
     [failed, failed, final_failed]"
proof -
  let ?t = "new_task ''t'' ''a'' manual 0 0"
  have a: "tasks (db flaky_world) = [] @ [?t]" by (simp add: flaky_world_def pending_world_def)
  have b: "get_job_row (db flaky_world) (task_job_id ?t) = Some flaky_job"
    by (simp add: flaky_world_def get_job_row_def flaky_job_def paused_job_def)
  have c: "\<not> er_success (execute_job always_fails (\<lambda>e. []) flaky_job)"
    by (simp add: execute_job_def always_fails_def exit_result_def failure_result_def split: sum.split)
  have d: "retry_count ?t \<le> max_retries flaky_job" "2 = nat (max_retries flaky_job - retry_count ?t)"
    by (simp_all add: flaky_job_def)
  from retries_are_bounded [OF flaky_store_inv a _ d(1) b c d(2), of sample_worker] obtain ts where
    "tasks (db (run_chain MemoryQueueClient sample_worker always_fails (\<lambda>e. []) (Suc 2) flaky_world)) = ts"
    "map status ts = replicate 2 failed @ [final_failed]" by auto
  then show ?thesis by (simp add: numeral_2_eq_2 numeral_3_eq_3 del: run_chain.simps)
qed

subsection \<open>Output and heartbeat\<close>

text \<open>Stored output is bounded: the cap keeps the first 64000 characters and adds a notice of 15, leaves
  shorter output and missing output alone, and capping twice changes nothing.\<close>

lemma truncate_output_bounds:
  "truncate_output None = None \<and>
   (length s \<le> 64000 \<longrightarrow> truncate_output (Some s) = Some s) \<and>
   (64000 < length s \<longrightarrow>
      (\<exists>u. truncate_output (Some s) = Some u \<and> length u = 64015 \<and> take 64000 u = take 64000 s)) \<and>
   truncate_output (truncate_output x) = truncate_output x"
  by (auto simp: truncate_output_def max_output_chars_def truncation_notice_def split: option.splits)

text \<open>(C36) A heartbeat keeps the lock alive. For every claim of at least two seconds the interval leaves more
  than a third of the claim as slack, and the lock a beat writes on a task the worker still holds is
  not expired at any moment until the next beat is due, even when that beat is late by less than the slack.\<close>

theorem heartbeat_keeps_lock:
  assumes "2 \<le> claim_seconds wk" "get_task_row (db w) i = Some t" "locked_by t = Some (w_id wk)"
    "late < seconds (claim_seconds wk - heartbeat_interval (claim_seconds wk))"
    "now \<le> clock w (ticks w) + seconds (heartbeat_interval (claim_seconds wk)) + late"
  shows "claim_seconds wk < 3 * (claim_seconds wk - heartbeat_interval (claim_seconds wk)) \<and>
    (\<exists>t'. get_task_row (db (heartbeat_beat wk i w)) i = Some t' \<and> locked_by t' = Some (w_id wk) \<and> \<not> expired now t')"
proof -
  let ?c = "claim_seconds wk"
  obtain n w1 where n: "utcnow w = (n, w1)" by fastforce
  have n': "n = clock w (ticks w)" using n by (simp add: utcnow_def)
  have "get_task_row (db (heartbeat_beat wk i w)) i = Some (t\<lparr>locked_until := Some (n + seconds ?c)\<rparr>)"
    using assms(2,3) quietD(1) [OF quiet_utcnow [OF n]]
    by (simp add: heartbeat_beat_def n get_task_row_def find_row_update_row)
  moreover have "now < n + seconds ?c" using assms(4,5) n' by (simp add: seconds_def algebra_simps)
  moreover have "?c < 3 * (?c - heartbeat_interval ?c)"
    using assms(1) by (simp add: heartbeat_interval_def max_def) presburger
  ultimately show ?thesis using assms(3) by (simp add: expired_def)
qed

theorem heartbeat_keeps_lock_witness:
  "(30::int) < 3 * (30 - heartbeat_interval 30)"
proof -
  define w where "w = pending_world\<lparr>db := (db pending_world)\<lparr>tasks :=
    [claim_columns ''w1'' (seconds 30) 0 (new_task ''t'' ''a'' manual 0 0)]\<rparr>\<rparr>"
  have "get_task_row (db w) ''t'' = Some (claim_columns ''w1'' (seconds 30) 0 (new_task ''t'' ''a'' manual 0 0))"
    by (simp add: w_def get_task_row_def)
  from heartbeat_keeps_lock [OF _ this, of sample_worker 0 "clock w (ticks w)"] show ?thesis
    by (simp add: sample_worker_def heartbeat_interval_def seconds_def)
qed

text \<open>A worker whose lock expired still records its outcome: it overwrites a later, successful run.\<close>

lemma late_worker_overwrites_success:
  fixes t :: task
  assumes "get_task_row (db w) (tid t) = Some t'" "status t' = success" "\<not> er_success res" "max_retries j \<le> retry_count t"
  shows "\<exists>t''. get_task_row (db (snd (record_result qc t j res w))) (tid t) = Some t'' \<and> status t'' = final_failed"
proof -
  obtain r w' where h: "handle_failure qc t j (truncate_output (er_stdout res)) (truncate_output (er_stderr res)) w = (r, w')"
    by fastforce
  have "tid t \<in> task_ids (db w)" using assms(1) by (metis get_task_row_None_iff option.distinct(1))
  with h assms(4) obtain now w1 d where d: "finish_task (tid t) final_failed (truncate_output (er_stdout res))
      (truncate_output (er_stderr res)) now (db w) = Inr d" "w' = w1\<lparr>db := d\<rparr>"
    by (cases rule: handle_failure_cases) auto
  then have "get_task_row (db w') (tid t) = Some (finish_columns final_failed (truncate_output (er_stdout res))
      (truncate_output (er_stderr res)) now t')"
    using task_write_row [OF _ keeps_identity_columns(1)] assms(1) by (simp add: finish_task_def)
  then show ?thesis using h assms(3) by (simp add: record_result_def finish_columns_def)
qed

end
