(* ===== verification/Heapq.thy ===== *)
theory Heapq
  imports Prelude
begin

text \<open>
  The standard library's \<open>heapq\<close> on a Python list, as \<open>CronScheduler\<close> uses it
  (\<open>heappush\<close>, \<open>heappop\<close> and reading index 0), and the priority-queue contract it keeps.
  \<open>siftdown\<close> and \<open>siftup\<close> follow \<open>Lib/heapq.py\<close>: the item being placed is held in
  \<open>newitem\<close> while parents or children are moved into the hole at \<open>pos\<close>.
\<close>

subsection \<open>The contract\<close>

locale prio_queue =
  fixes push :: "'q \<Rightarrow> 'a::linorder \<Rightarrow> 'q"
    and pop :: "'q \<Rightarrow> 'a \<times> 'q"
    and peek :: "'q \<Rightarrow> 'a"
    and items :: "'q \<Rightarrow> 'a multiset"
    and invar :: "'q \<Rightarrow> bool"
  assumes push_items: "invar q \<Longrightarrow> items (push q x) = add_mset x (items q)"
    and push_invar: "invar q \<Longrightarrow> invar (push q x)"
    and pop_items: "invar q \<Longrightarrow> items q \<noteq> {#} \<Longrightarrow> items (snd (pop q)) = items q - {#peek q#}"
    and pop_fst: "invar q \<Longrightarrow> items q \<noteq> {#} \<Longrightarrow> fst (pop q) = peek q"
    and pop_invar: "invar q \<Longrightarrow> items q \<noteq> {#} \<Longrightarrow> invar (snd (pop q))"
    and peek_in: "invar q \<Longrightarrow> items q \<noteq> {#} \<Longrightarrow> peek q \<in># items q"
    and peek_le: "invar q \<Longrightarrow> x \<in># items q \<Longrightarrow> peek q \<le> x"
begin

lemma pop_restores: "invar q \<Longrightarrow> items q \<noteq> {#} \<Longrightarrow> add_mset (fst (pop q)) (items (snd (pop q))) = items q"
  using peek_in pop_items pop_fst by simp

lemma pop_fst_in: "invar q \<Longrightarrow> items q \<noteq> {#} \<Longrightarrow> fst (pop q) \<in># items q"
  using peek_in pop_fst by simp

lemma pop_fst_le: "invar q \<Longrightarrow> x \<in># items q \<Longrightarrow> fst (pop q) \<le> x"
  using pop_fst peek_le by (cases "items q = {#}") auto

lemma pop_subset: "invar q \<Longrightarrow> items q \<noteq> {#} \<Longrightarrow> set_mset (items (snd (pop q))) \<subseteq> set_mset (items q)"
  using pop_items by (auto dest: in_diffD)

text \<open>When the head is beyond a limit, everything is.\<close>

lemma peek_bound: "invar q \<Longrightarrow> n < peek q \<Longrightarrow> x \<in># items q \<Longrightarrow> n < x"
  using peek_le by fastforce

end

subsection \<open>The list implementation\<close>

definition parent :: "nat \<Rightarrow> nat" where
  "parent i = (i - 1) div 2"

lemma parent_less: "0 < i \<Longrightarrow> parent i < i"
  unfolding parent_def by linarith

lemma parent_neq [simp]: "0 < i \<Longrightarrow> parent i \<noteq> i" "0 < i \<Longrightarrow> i \<noteq> parent i"
  unfolding parent_def by linarith+

lemma parent_in_range [simp]: "0 < i \<Longrightarrow> i < n \<Longrightarrow> parent i < n"
  unfolding parent_def by linarith

function siftdown :: "'a::linorder list \<Rightarrow> 'a \<Rightarrow> nat \<Rightarrow> 'a list" where
  "siftdown heap newitem pos =
     (if 0 < pos \<and> newitem < heap ! parent pos
      then siftdown (heap[pos := heap ! parent pos]) newitem (parent pos)
      else heap[pos := newitem])"
  by pat_completeness auto
termination
  by (relation "measure (\<lambda>(heap, newitem, pos). pos)") (auto simp: parent_less)

declare siftdown.simps [simp del]

lemma siftdown_move:
  "0 < pos \<Longrightarrow> x < heap ! parent pos \<Longrightarrow>
     siftdown heap x pos = siftdown (heap[pos := heap ! parent pos]) x (parent pos)"
  by (subst siftdown.simps) simp

lemma siftdown_stop: "\<not> (0 < pos \<and> x < heap ! parent pos) \<Longrightarrow> siftdown heap x pos = heap[pos := x]"
  by (subst siftdown.simps) (simp only: if_False)

definition smaller_child :: "'a::linorder list \<Rightarrow> nat \<Rightarrow> nat" where
  "smaller_child heap pos =
     (let childpos = 2 * pos + 1; rightpos = childpos + 1 in
      if rightpos < length heap \<and> \<not> heap ! childpos < heap ! rightpos then rightpos else childpos)"

function siftup_loop :: "'a::linorder list \<Rightarrow> nat \<Rightarrow> 'a list \<times> nat" where
  "siftup_loop heap pos =
     (if 2 * pos + 1 < length heap
      then siftup_loop (heap[pos := heap ! smaller_child heap pos]) (smaller_child heap pos)
      else (heap, pos))"
  by pat_completeness auto
termination
  by (relation "measure (\<lambda>(heap, pos). length heap - pos)") (auto simp: smaller_child_def Let_def)

declare siftup_loop.simps [simp del]

definition siftup :: "'a::linorder list \<Rightarrow> 'a list" where
  "siftup heap = (let newitem = heap ! 0; (heap', pos) = siftup_loop heap 0 in siftdown heap' newitem pos)"

definition heappush :: "'a::linorder list \<Rightarrow> 'a \<Rightarrow> 'a list" where
  "heappush heap item = siftdown (heap @ [item]) item (length heap)"

definition heappop :: "'a::linorder list \<Rightarrow> 'a \<times> 'a list" where
  "heappop heap =
     (let lastelt = last heap; rest = butlast heap in
      if rest = [] then (lastelt, []) else (rest ! 0, siftup (rest[0 := lastelt])))"

definition heap_inv :: "'a::linorder list \<Rightarrow> bool" where
  "heap_inv heap \<longleftrightarrow> (\<forall>i < length heap. 0 < i \<longrightarrow> heap ! parent i \<le> heap ! i)"

subsection \<open>Moving the hole up\<close>

text \<open>The heap order holds except between the hole and its parent, and skips over the hole.\<close>

definition hole_inv :: "'a::linorder list \<Rightarrow> 'a \<Rightarrow> nat \<Rightarrow> bool" where
  "hole_inv heap x pos \<longleftrightarrow>
     (\<forall>i < length heap. 0 < i \<longrightarrow> i \<noteq> pos \<longrightarrow> heap[pos := x] ! parent i \<le> heap[pos := x] ! i) \<and>
     (\<forall>i < length heap. 0 < i \<longrightarrow> parent i = pos \<longrightarrow> 0 < pos \<longrightarrow> heap ! parent pos \<le> heap ! i)"

lemma length_siftdown [simp]: "length (siftdown heap x pos) = length heap"
  by (induction heap x pos rule: siftdown.induct) (subst siftdown.simps, simp)

lemma mset_update_move:
  "i < length xs \<Longrightarrow> j < length xs \<Longrightarrow> i \<noteq> j \<Longrightarrow> mset (xs[i := xs ! j, j := x]) = mset (xs[i := x])"
  by (simp add: mset_update multiset_eq_iff)

lemma mset_siftdown: "pos < length heap \<Longrightarrow> mset (siftdown heap x pos) = mset (heap[pos := x])"
proof (induction heap x pos rule: siftdown.induct)
  case (1 heap x pos)
  show ?case
  proof (cases "0 < pos \<and> x < heap ! parent pos")
    case True
    have lt: "parent pos < length heap" using True 1(2) by simp
    have "mset (siftdown (heap[pos := heap ! parent pos]) x (parent pos)) =
        mset (heap[pos := heap ! parent pos, parent pos := x])"
      using 1(1)[OF True] lt by simp
    also have "\<dots> = mset (heap[pos := x])"
      using 1(2) lt True by (intro mset_update_move) auto
    finally show ?thesis using True by (simp add: siftdown_move)
  next
    case False
    then show ?thesis by (simp add: siftdown_stop del: de_Morgan_conj)
  qed
qed

lemma hole_inv_up:
  assumes inv: "hole_inv heap x pos" and pos: "0 < pos" "pos < length heap" and less: "x < heap ! parent pos"
  shows "hole_inv (heap[pos := heap ! parent pos]) x (parent pos)"
proof -
  let ?h = "heap[pos := heap ! parent pos]"
  have p: "parent pos < length heap" "parent pos \<noteq> pos" using pos by simp_all
  have ord: "heap[pos := x] ! parent i \<le> heap[pos := x] ! i" if "i < length heap" "0 < i" "i \<noteq> pos" for i
    using inv that by (simp add: hole_inv_def)
  have skip: "heap ! parent pos \<le> heap ! i" if "i < length heap" "0 < i" "parent i = pos" for i
    using inv that pos by (simp add: hole_inv_def)
  have A: "?h[parent pos := x] ! parent i \<le> ?h[parent pos := x] ! i"
    if i: "i < length heap" "0 < i" "i \<noteq> parent pos" for i
  proof -
    have pi: "parent i < length heap" using i by simp
    consider "i = pos" | "i \<noteq> pos" "parent i = pos" | "i \<noteq> pos" "parent i = parent pos"
      | "i \<noteq> pos" "parent i \<noteq> pos" "parent i \<noteq> parent pos" by blast
    then show ?thesis
    proof cases
      case 1
      then show ?thesis using less pos p by (simp add: less_imp_le)
    next
      case 2
      then show ?thesis using skip [of i] i p pos by simp
    next
      case 3
      then have "heap ! parent pos \<le> heap ! i" using ord [of i] i p pos by simp
      then show ?thesis using 3 less i p pos by simp
    next
      case 4
      then show ?thesis using ord [of i] i pi by simp
    qed
  qed
  have B: "?h ! parent (parent pos) \<le> ?h ! i"
    if i: "i < length heap" "0 < i" "parent i = parent pos" "0 < parent pos" for i
  proof -
    have pp: "parent (parent pos) \<noteq> parent pos" "parent (parent pos) < length heap" "parent (parent pos) \<noteq> pos"
      using that p pos parent_less [of pos] parent_less [of "parent pos"] by auto
    have root: "heap ! parent (parent pos) \<le> heap ! parent pos"
      using ord [of "parent pos"] that p pp pos by simp
    show ?thesis
    proof (cases "i = pos")
      case True
      then show ?thesis using root pp p pos by simp
    next
      case False
      then have "heap ! parent pos \<le> heap ! i" using ord [of i] i p pos by simp
      then show ?thesis using root False pp p pos by simp
    qed
  qed
  show ?thesis using A B by (simp add: hole_inv_def)
qed

lemma heap_siftdown: "pos < length heap \<Longrightarrow> hole_inv heap x pos \<Longrightarrow> heap_inv (siftdown heap x pos)"
proof (induction heap x pos rule: siftdown.induct)
  case (1 heap x pos)
  show ?case
  proof (cases "0 < pos \<and> x < heap ! parent pos")
    case True
    then have lt: "parent pos < length heap" using 1(2) by simp
    from True 1(2,3) have "hole_inv (heap[pos := heap ! parent pos]) x (parent pos)"
      by (intro hole_inv_up) auto
    with 1(1)[OF True] lt show ?thesis using True by (simp add: siftdown_move)
  next
    case False
    have "heap[pos := x] ! parent i \<le> heap[pos := x] ! i" if "i < length heap" "0 < i" for i
    proof (cases "i = pos")
      case True
      then show ?thesis using False that by simp
    next
      case neq: False
      then show ?thesis using 1(3) that by (simp add: hole_inv_def)
    qed
    with siftdown_stop [OF False] show ?thesis by (simp add: heap_inv_def)
  qed
qed

subsection \<open>Moving the hole down\<close>

definition down_inv :: "'a::linorder list \<Rightarrow> nat \<Rightarrow> bool" where
  "down_inv heap pos \<longleftrightarrow>
     (\<forall>i < length heap. 0 < i \<longrightarrow> parent i \<noteq> pos \<longrightarrow> heap ! parent i \<le> heap ! i) \<and>
     (\<forall>i < length heap. 0 < i \<longrightarrow> parent i = pos \<longrightarrow> 0 < pos \<longrightarrow> heap ! parent pos \<le> heap ! i)"

lemma parent_eq_iff: "0 < i \<Longrightarrow> parent i = pos \<longleftrightarrow> i = 2 * pos + 1 \<or> i = 2 * pos + 2"
  unfolding parent_def by presburger

lemma smaller_child_props:
  assumes "2 * pos + 1 < length heap"
  shows "smaller_child heap pos < length heap" "0 < smaller_child heap pos"
    "parent (smaller_child heap pos) = pos" "pos < smaller_child heap pos"
    "\<And>i. i < length heap \<Longrightarrow> 0 < i \<Longrightarrow> parent i = pos \<Longrightarrow> heap ! smaller_child heap pos \<le> heap ! i"
proof -
  let ?c = "smaller_child heap pos"
  show "?c < length heap" "0 < ?c" "pos < ?c"
    using assms by (auto simp: smaller_child_def Let_def)
  show "parent ?c = pos" by (simp add: parent_eq_iff smaller_child_def Let_def)
  show "heap ! ?c \<le> heap ! i" if "i < length heap" "0 < i" "parent i = pos" for i
    using that assms by (auto simp: parent_eq_iff smaller_child_def Let_def)
qed

lemma down_inv_step:
  assumes inv: "down_inv heap pos" and c: "2 * pos + 1 < length heap"
  shows "down_inv (heap[pos := heap ! smaller_child heap pos]) (smaller_child heap pos)"
proof -
  let ?c = "smaller_child heap pos"
  let ?h = "heap[pos := heap ! ?c]"
  note props = smaller_child_props [OF c]
  have ord: "heap ! parent i \<le> heap ! i" if "i < length heap" "0 < i" "parent i \<noteq> pos" for i
    using inv that by (simp add: down_inv_def)
  have skip: "heap ! parent pos \<le> heap ! i" if "i < length heap" "0 < i" "parent i = pos" "0 < pos" for i
    using inv that by (simp add: down_inv_def)
  have A: "?h ! parent i \<le> ?h ! i" if i: "i < length heap" "0 < i" "parent i \<noteq> ?c" for i
  proof -
    have pi: "parent i < length heap" "parent i \<noteq> i" using i by simp_all
    consider "parent i = pos" | "i = pos" | "parent i \<noteq> pos" "i \<noteq> pos" by blast
    then show ?thesis
    proof cases
      case 1
      then show ?thesis using props(5) [of i] i pi by simp
    next
      case 2
      then show ?thesis using skip [of ?c] props i pi by simp
    next
      case 3
      then show ?thesis using ord [of i] i by simp
    qed
  qed
  have B: "?h ! parent ?c \<le> ?h ! i" if i: "i < length heap" "0 < i" "parent i = ?c" for i
  proof -
    have "i \<noteq> pos" using i props(4) parent_less [of i] by auto
    then show ?thesis using ord [of i] i props by simp
  qed
  show ?thesis using A B by (simp add: down_inv_def)
qed

lemma siftup_loop_props:
  assumes "down_inv heap pos" "pos < length heap"
  shows "case siftup_loop heap pos of (heap', pos') \<Rightarrow>
     length heap' = length heap \<and> pos' < length heap \<and> down_inv heap' pos' \<and>
     \<not> 2 * pos' + 1 < length heap \<and> mset (heap'[pos' := x]) = mset (heap[pos := x])"
  using assms
proof (induction heap pos rule: siftup_loop.induct)
  case (1 heap pos)
  show ?case
  proof (cases "2 * pos + 1 < length heap")
    case True
    note props = smaller_child_props [OF True]
    have "mset (heap[pos := heap ! smaller_child heap pos, smaller_child heap pos := x]) = mset (heap[pos := x])"
      using props 1(3) by (intro mset_update_move) auto
    with 1(1)[OF True down_inv_step [OF 1(2) True]] props True show ?thesis
      by (simp add: siftup_loop.simps [of heap pos] case_prod_beta)
  next
    case False
    with 1(2,3) show ?thesis by (simp add: siftup_loop.simps [of heap pos])
  qed
qed

lemma down_inv_leaf:
  assumes "down_inv heap pos" "\<not> 2 * pos + 1 < length heap" "pos < length heap"
  shows "hole_inv heap x pos"
proof -
  have no: "parent i \<noteq> pos" if "i < length heap" "0 < i" for i
    using assms(2) that by (auto simp: parent_eq_iff)
  then show ?thesis using assms by (simp add: hole_inv_def down_inv_def) (metis nth_list_update_neq)
qed

lemma siftup_correct:
  assumes "down_inv heap 0" "heap \<noteq> []"
  shows "heap_inv (siftup heap) \<and> mset (siftup heap) = mset heap"
proof -
  obtain h p where hp: "siftup_loop heap 0 = (h, p)" by (cases "siftup_loop heap 0")
  have *: "length h = length heap" "p < length heap" "down_inv h p" "\<not> 2 * p + 1 < length heap"
      "mset (h[p := heap ! 0]) = mset heap"
    using siftup_loop_props [of heap 0 "heap ! 0"] assms hp by auto
  then have "heap_inv (siftdown h (heap ! 0) p)"
    by (intro heap_siftdown down_inv_leaf) auto
  moreover have "mset (siftdown h (heap ! 0) p) = mset heap"
    using * by (simp add: mset_siftdown)
  ultimately show ?thesis by (simp add: siftup_def hp)
qed

subsection \<open>Push and pop\<close>

lemma heap_inv_root_le: "heap_inv heap \<Longrightarrow> i < length heap \<Longrightarrow> heap ! 0 \<le> heap ! i"
proof (induction i rule: less_induct)
  case (less i)
  show ?case
  proof (cases "i = 0")
    case False
    then have "heap ! parent i \<le> heap ! i" using less(2,3) by (simp add: heap_inv_def)
    moreover have "heap ! 0 \<le> heap ! parent i"
      using False less by (meson bot_nat_0.not_eq_extremum order_less_trans parent_less)
    ultimately show ?thesis by simp
  qed simp
qed

lemma heappush_mset: "mset (heappush heap x) = add_mset x (mset heap)"
  by (simp add: heappush_def mset_siftdown)

lemma heappush_heap:
  assumes "heap_inv heap"
  shows "heap_inv (heappush heap x)"
proof -
  have "hole_inv (heap @ [x]) x (length heap)"
    unfolding hole_inv_def
  proof (intro conjI allI impI)
    fix i assume "i < length (heap @ [x])" "0 < i" "i \<noteq> length heap"
    then have "i < length heap" by simp
    moreover from this \<open>0 < i\<close> have "parent i < length heap"
      using parent_less order_less_trans by blast
    ultimately show "(heap @ [x])[length heap := x] ! parent i \<le> (heap @ [x])[length heap := x] ! i"
      using assms \<open>0 < i\<close> by (simp add: heap_inv_def nth_append)
  next
    fix i assume "i < length (heap @ [x])" "0 < i" "parent i = length heap"
    then show "(heap @ [x]) ! parent (length heap) \<le> (heap @ [x]) ! i"
      using parent_less [of i] by simp
  qed
  then show ?thesis by (simp add: heappush_def heap_siftdown)
qed

lemma heappop_correct:
  assumes inv: "heap_inv heap" and ne: "heap \<noteq> []"
  shows "fst (heappop heap) = heap ! 0" "heap_inv (snd (heappop heap))"
    "add_mset (heap ! 0) (mset (snd (heappop heap))) = mset heap"
proof -
  let ?r = "butlast heap"
  have nth: "?r ! i = heap ! i" if "i < length ?r" for i
    using that by (simp add: nth_butlast)
  have split: "heap = ?r @ [last heap]" using ne by simp
  show "fst (heappop heap) = heap ! 0"
  proof (cases "?r = []")
    case True
    then have "heap = [last heap]" using split by simp
    then show ?thesis using True by (simp add: heappop_def Let_def) (metis nth_Cons_0)
  next
    case False
    then show ?thesis using nth [of 0] by (simp add: heappop_def Let_def del: length_butlast)
  qed
  have D: "down_inv (?r[0 := last heap]) 0" if "?r \<noteq> []"
    using inv that nth unfolding down_inv_def heap_inv_def
    by (auto simp: nth_list_update)
  have S: "heap_inv (siftup (?r[0 := last heap])) \<and> mset (siftup (?r[0 := last heap])) = mset (?r[0 := last heap])"
    if "?r \<noteq> []" using siftup_correct [OF D [OF that]] that by simp
  show "heap_inv (snd (heappop heap))"
    using S by (auto simp: heappop_def Let_def heap_inv_def)
  show "add_mset (heap ! 0) (mset (snd (heappop heap))) = mset heap"
  proof (cases "?r = []")
    case True
    then have "heap = [last heap]" using split by simp
    then show ?thesis using True by (simp add: heappop_def Let_def) (metis mset_single_iff nth_Cons_0)
  next
    case False
    have "mset heap = add_mset (last heap) (mset ?r)"
      by (subst split) simp
    moreover have "heap ! 0 \<in># mset ?r" "mset (?r[0 := last heap]) = add_mset (last heap) (mset ?r - {#heap ! 0#})"
      using False nth [of 0] by (simp_all add: mset_update nth_mem del: length_butlast) (metis False length_greater_0_conv nth nth_mem)
    ultimately show ?thesis using False S by (simp add: heappop_def Let_def)
  qed
qed

interpretation heapq: prio_queue heappush heappop "\<lambda>h. h ! 0" mset heap_inv
proof (unfold_locales, goal_cases)
  case (1 q x) show ?case by (rule heappush_mset)
next
  case (2 q x) then show ?case by (rule heappush_heap)
next
  case (3 q) then show ?case using heappop_correct(3) [of q] by (metis add_mset_remove_trivial mset_zero_iff)
next
  case (4 q) then show ?case using heappop_correct(1) [of q] by simp
next
  case (5 q) then show ?case using heappop_correct(2) [of q] by simp
next
  case (6 q) then show ?case by simp
next
  case (7 q x) then show ?case using heap_inv_root_le [of q] by (metis in_set_conv_nth set_mset_mset)
qed

end
