(* ===== verification/Cron_Scheduler.thy ===== *)
theory Cron_Scheduler
  imports Job_Service Heapq
begin

text \<open>
  \<open>app/scheduler/cron_scheduler.py\<close>. The scheduler keeps a heap of (firing time, job id) and a cache of
  detached job rows. A timestamp is the exact time of the row: the float conversion is exact at this
  resolution, and the tolerance of a millisecond is kept. \<open>db.merge\<close> copies every column of the cached
  row onto the stored one, or inserts the cached row when there is none; the following commit writes it.
  An exception leaves the method with the state as it is at that point.
\<close>

subsection \<open>State\<close>

record scheduler =
  heap :: "(time \<times> uuid) list"
  job_cache :: "uuid \<Rightarrow> job option"
  last_sync_at :: "time option"

definition new_scheduler :: scheduler where
  "new_scheduler = \<lparr>heap = [], job_cache = (\<lambda>i. None), last_sync_at = None\<rparr>"

definition timestamp_epsilon :: time where
  "timestamp_epsilon = 1000"

definition sync_overlap_seconds :: int where
  "sync_overlap_seconds = 10"

subsection \<open>Synchronising with the jobs table\<close>

definition is_new_firing :: "scheduler \<Rightarrow> uuid \<Rightarrow> time \<Rightarrow> bool" where
  "is_new_firing s i t =
     (case job_cache s i of
        None \<Rightarrow> True
      | Some cached \<Rightarrow>
          (case next_fire_at cached of None \<Rightarrow> True | Some t0 \<Rightarrow> timestamp_epsilon < \<bar>t0 - t\<bar>))"

definition sync_one :: "job \<Rightarrow> scheduler \<Rightarrow> scheduler" where
  "sync_one j s =
     (if \<not> enabled j then s\<lparr>job_cache := (job_cache s)(jid j := None)\<rparr>
      else
        (let h = (case next_fire_at j of
                    None \<Rightarrow> heap s
                  | Some t \<Rightarrow> if is_new_firing s (jid j) t then heappush (heap s) (t, jid j) else heap s)
         in s\<lparr>heap := h, job_cache := (job_cache s)(jid j := Some j)\<rparr>))"

definition sync_jobs :: "scheduler \<Rightarrow> 'q world \<Rightarrow> scheduler \<times> 'q world" where
  "sync_jobs s w =
     (let (started_at, w1) = utcnow w;
          s1 = fold sync_one (list_updated_since (last_sync_at s) (db w1)) s
      in (s1\<lparr>last_sync_at := Some (started_at - seconds sync_overlap_seconds)\<rparr>, w1))"

subsection \<open>Recovering orphaned tasks\<close>

fun release_all :: "task list \<Rightarrow> database \<Rightarrow> unit result \<times> database" where
  "release_all [] d = (Inr (), d)"
| "release_all (t # ts) d =
     (case mark_running_expired_pending (tid t) d of Inl e \<Rightarrow> (Inl e, d) | Inr d' \<Rightarrow> release_all ts d')"

definition recover_orphans :: "'q world \<Rightarrow> nat result \<times> 'q world" where
  "recover_orphans w =
     (let (now, w1) = utcnow w; ts = list_expired_running now (db w1) in
      case release_all ts (db w1) of
        (Inl e, d) \<Rightarrow> (Inl e, w1\<lparr>db := d\<rparr>)
      | (Inr u, d) \<Rightarrow> (Inr (length ts), w1\<lparr>db := d\<rparr>))"

subsection \<open>Dispatching\<close>

text \<open>The commit of a merged row.\<close>

definition merge_commit :: "time \<Rightarrow> job \<Rightarrow> database \<Rightarrow> database result" where
  "merge_commit stamp j d =
     (case get_job_row d (jid j) of None \<Rightarrow> job_create j [] d | Some old \<Rightarrow> job_update stamp j d)"

definition dispatch_job ::
    "croniter \<Rightarrow> 'q queue_client \<Rightarrow> job \<Rightarrow> time \<Rightarrow> 'q world \<Rightarrow> (nat \<times> job) result \<times> 'q world" where
  "dispatch_job cr qc job now w =
     (case cron_expression job of
        None \<Rightarrow> (Inl AttributeError, w)
      | Some e \<Rightarrow>
          (case next_cron_time cr e now of
             Inl err \<Rightarrow> (Inl err, w)
           | Inr t \<Rightarrow>
               (let j1 = job\<lparr>next_fire_at := Some t\<rparr>; (stamp, w1) = utcnow w in
                case merge_commit stamp j1 (db w1) of
                  Inl err \<Rightarrow> (Inl err, w1)
                | Inr d \<Rightarrow>
                    (let j2 = refreshed d j1; w2 = w1\<lparr>db := d\<rparr> in
                     if concurrency_policy j2 = forbid \<and> 0 < count_running_for_job (jid j2) d then (Inr (0, j2), w2)
                     else
                       (let (i, w3) = uuid4 w2; (created, w4) = utcnow w3 in
                        case task_create (new_task i (jid j2) by_schedule 0 created) (db w4) of
                          Inl err \<Rightarrow> (Inl err, w4)
                        | Inr d' \<Rightarrow>
                            (let w5 = w4\<lparr>db := d'\<rparr> in
                             case send_task qc i (scheduled_queue w5) of
                               Inl err \<Rightarrow> (Inl err, w5)
                             | Inr q \<Rightarrow> (Inr (1, j2), w5\<lparr>scheduled_queue := q\<rparr>)))))))"

definition popped :: "scheduler \<Rightarrow> scheduler" where
  "popped s = s\<lparr>heap := snd (heappop (heap s))\<rparr>"

definition rescheduled :: "uuid \<Rightarrow> job \<Rightarrow> scheduler \<Rightarrow> scheduler" where
  "rescheduled i job s =
     (let s' = s\<lparr>job_cache := (job_cache s)(i := Some job)\<rparr> in
      case next_fire_at job of None \<Rightarrow> s' | Some t \<Rightarrow> s'\<lparr>heap := heappush (heap s') (t, i)\<rparr>)"

text \<open>\<open>dispatch_due_jobs\<close>: the loop over the heap; \<open>None\<close> when it never ends.\<close>

partial_function (option) dispatch_loop ::
    "croniter \<Rightarrow> 'q queue_client \<Rightarrow> time \<Rightarrow> nat \<Rightarrow> scheduler \<Rightarrow> 'q world \<Rightarrow> (nat result \<times> scheduler \<times> 'q world) option"
where
  "dispatch_loop cr qc now dispatched s w =
     (if heap s = [] then Some (Inr dispatched, s, w)
      else if now < fst (heap s ! 0) then Some (Inr dispatched, s, w)
      else
        (case job_cache s (snd (heap s ! 0)) of
           None \<Rightarrow> dispatch_loop cr qc now dispatched (popped s) w
         | Some job \<Rightarrow>
             (case next_fire_at job of
                None \<Rightarrow> Some (Inl AttributeError, popped s, w)
              | Some t \<Rightarrow>
                  if timestamp_epsilon < \<bar>t - fst (heap s ! 0)\<bar> then dispatch_loop cr qc now dispatched (popped s) w
                  else
                    (case dispatch_job cr qc job now w of
                       (Inl err, w1) \<Rightarrow> Some (Inl err, popped s, w1)
                     | (Inr (fired, job'), w1) \<Rightarrow>
                         dispatch_loop cr qc now (dispatched + fired)
                           (rescheduled (snd (heap s ! 0)) job' (popped s)) w1))))"

declare dispatch_loop.simps [code]

definition dispatch_due_jobs ::
    "croniter \<Rightarrow> 'q queue_client \<Rightarrow> scheduler \<Rightarrow> 'q world \<Rightarrow> (nat result \<times> scheduler \<times> 'q world) option" where
  "dispatch_due_jobs cr qc s w = (let (now, w1) = utcnow w in dispatch_loop cr qc now 0 s w1)"

subsection \<open>One dispatch\<close>

lemma merge_commit_row:
  assumes "merge_commit stamp j d = Inr d'"
  shows "\<exists>j'. get_job_row d' (jid j) = Some j' \<and> (j' = j \<or> j' = j\<lparr>updated_at := stamp\<rparr>)"
proof (cases "get_job_row d (jid j)")
  case None
  with assms have "job_create j [] d = Inr d'" by (simp add: merge_commit_def)
  from job_create_SomeD [OF this] None show ?thesis
    by (simp add: get_job_row_def find_row_append)
next
  case (Some old)
  with assms have "job_update stamp j d = Inr d'" by (simp add: merge_commit_def)
  from job_update_row [OF this] show ?thesis .
qed

lemma merge_commit_frame:
  assumes "merge_commit stamp j d = Inr d'"
  shows "tasks d' = tasks d \<and> job_dependencies d' = job_dependencies d \<and> job_ids d' = insert (jid j) (job_ids d) \<and>
    (\<forall>k. k \<noteq> jid j \<longrightarrow> get_job_row d' k = get_job_row d k)"
proof (cases "get_job_row d (jid j)")
  case None
  with assms have "job_create j [] d = Inr d'" by (simp add: merge_commit_def)
  from job_create_SomeD [OF this] show ?thesis
    by (auto simp: get_job_row_def find_row_append job_ids_def split: option.splits)
next
  case (Some old)
  with assms have u: "job_update stamp j d = Inr d'" by (simp add: merge_commit_def)
  have "jid j \<in> job_ids d" using Some by (metis get_job_row_None_iff option.distinct(1))
  then show ?thesis using job_update_frame [OF u] job_update_other [OF u] by (simp add: insert_absorb)
qed

lemma merge_commit_wf:
  assumes "db_wf d" "job_ok j" "merge_commit stamp j d = Inr d'"
  shows "db_wf d'"
proof (cases "get_job_row d (jid j)")
  case None
  with assms(3) have "job_create j [] d = Inr d'" by (simp add: merge_commit_def)
  from job_create_wf [OF assms(1) this assms(2)] show ?thesis by simp
next
  case (Some old)
  with assms(3) have "job_update stamp j d = Inr d'" by (simp add: merge_commit_def)
  from job_update_wf [OF assms(1) this assms(2)] show ?thesis .
qed

lemma merge_commit_specs:
  assumes "specs_derived cfg d" "spec_derived cfg j" "merge_commit stamp j d = Inr d'"
  shows "specs_derived cfg d'"
proof (cases "get_job_row d (jid j)")
  case None
  with assms(3) have "job_create j [] d = Inr d'" by (simp add: merge_commit_def)
  from job_create_SomeD [OF this] assms show ?thesis by (simp add: specs_derived_def)
next
  case (Some old)
  with assms(3) have "job_update stamp j d = Inr d'" by (simp add: merge_commit_def)
  then show ?thesis using assms(1,2)
    by (cases rule: job_update_cases) (auto simp: specs_derived_def spec_derived_iff elim!: in_update_rowE)
qed

text \<open>\<open>advanced cr job now w w1 d j\<close>: the dispatch got past the commit of the advanced schedule; \<open>d\<close> is
  the database then, and \<open>j\<close> the row it holds for the job.\<close>

definition advanced :: "croniter \<Rightarrow> job \<Rightarrow> time \<Rightarrow> 'q world \<Rightarrow> 'q world \<Rightarrow> database \<Rightarrow> job \<Rightarrow> bool" where
  "advanced cr job now w w1 d j \<longleftrightarrow>
     (\<exists>e t stamp. cron_expression job = Some e \<and> get_next cr e now = Some t \<and> utcnow w = (stamp, w1) \<and>
        merge_commit stamp (job\<lparr>next_fire_at := Some t\<rparr>) (db w) = Inr d \<and> get_job_row d (jid job) = Some j \<and>
        (j = job\<lparr>next_fire_at := Some t\<rparr> \<or> j = job\<lparr>next_fire_at := Some t, updated_at := stamp\<rparr>))"

definition blocked :: "job \<Rightarrow> database \<Rightarrow> bool" where
  "blocked job d \<longleftrightarrow> concurrency_policy job = forbid \<and> 0 < count_running_for_job (jid job) d"

lemma dispatch_job_cases:
  assumes "dispatch_job cr qc job now w = (r, w')"
  obtains (rejected) err where "r = Inl err" "quiet w w'"
  | (skipped) w1 d j2 where "advanced cr job now w w1 d j2" "blocked job (db w)" "r = Inr (0, j2)" "w' = w1\<lparr>db := d\<rparr>"
  | (uncreated) w1 d j2 i w3 created w4 err where "advanced cr job now w w1 d j2" "\<not> blocked job (db w)"
      "uuid4 (w1\<lparr>db := d\<rparr>) = (i, w3)" "utcnow w3 = (created, w4)"
      "task_create (new_task i (jid job) by_schedule 0 created) d = Inl err" "r = Inl err" "w' = w4"
  | (unsent) w1 d j2 i w3 created w4 d' err where "advanced cr job now w w1 d j2" "\<not> blocked job (db w)"
      "uuid4 (w1\<lparr>db := d\<rparr>) = (i, w3)" "utcnow w3 = (created, w4)"
      "task_create (new_task i (jid job) by_schedule 0 created) d = Inr d'"
      "send_task qc i (scheduled_queue w) = Inl err" "r = Inl err" "w' = w4\<lparr>db := d'\<rparr>"
  | (fired) w1 d j2 i w3 created w4 d' q where "advanced cr job now w w1 d j2" "\<not> blocked job (db w)"
      "uuid4 (w1\<lparr>db := d\<rparr>) = (i, w3)" "utcnow w3 = (created, w4)"
      "task_create (new_task i (jid job) by_schedule 0 created) d = Inr d'"
      "send_task qc i (scheduled_queue w) = Inr q" "r = Inr (1, j2)" "w' = w4\<lparr>db := d', scheduled_queue := q\<rparr>"
proof (cases "cron_expression job")
  case None
  with assms rejected show ?thesis by (auto simp: dispatch_job_def)
next
  case e: (Some e)
  show ?thesis
  proof (cases "get_next cr e now")
    case None
    with assms e rejected show ?thesis by (auto simp: dispatch_job_def next_cron_time_def)
  next
    case t: (Some t)
    obtain stamp w1 where n: "utcnow w = (stamp, w1)" by fastforce
    note q1 = quietD [OF quiet_utcnow [OF n]]
    let ?j1 = "job\<lparr>next_fire_at := Some t\<rparr>"
    show ?thesis
    proof (cases "merge_commit stamp ?j1 (db w)")
      case (Inl err)
      with assms e t n q1 have "r = Inl err" "w' = w1" by (auto simp: dispatch_job_def next_cron_time_def Let_def)
      with rejected quiet_utcnow [OF n] show ?thesis by blast
    next
      case d: (Inr d)
      obtain j2 where j2: "get_job_row d (jid job) = Some j2" "j2 = ?j1 \<or> j2 = ?j1\<lparr>updated_at := stamp\<rparr>"
        using merge_commit_row [OF d] by auto
      have adv: "advanced cr job now w w1 d j2" using e t n d j2 by (auto simp: advanced_def)
      have ref: "refreshed d ?j1 = j2" using j2(1) by (simp add: refreshed_def job_get_def)
      have jid: "jid j2 = jid job" "concurrency_policy j2 = concurrency_policy job" using j2(2) by auto
      have cnt: "count_running_for_job i d = count_running_for_job i (db w)" for i
        using merge_commit_frame [OF d] by (simp add: count_running_for_job_def)
      obtain i w3 where u: "uuid4 (w1\<lparr>db := d\<rparr>) = (i, w3)" by fastforce
      obtain created w4 where n': "utcnow w3 = (created, w4)" by fastforce
      note q4 = quietD [OF quiet_trans [OF quiet_uuid4 [OF u] quiet_utcnow [OF n']]]
      let ?c = "task_create (new_task i (jid job) by_schedule 0 created) d"
      have eq: "dispatch_job cr qc job now w =
        (if blocked job (db w) then (Inr (0, j2), w1\<lparr>db := d\<rparr>)
         else case ?c of
            Inl err \<Rightarrow> (Inl err, w4)
          | Inr d' \<Rightarrow>
              (case send_task qc i (scheduled_queue w) of
                 Inl err \<Rightarrow> (Inl err, w4\<lparr>db := d'\<rparr>)
               | Inr q \<Rightarrow> (Inr (1, j2), w4\<lparr>db := d', scheduled_queue := q\<rparr>)))"
        by (simp add: dispatch_job_def blocked_def e next_cron_time_def t n q1 d ref jid cnt u n' q4 Let_def split: sum.split)
      consider "blocked job (db w)" | err where "\<not> blocked job (db w)" "?c = Inl err"
        | d' err where "\<not> blocked job (db w)" "?c = Inr d'" "send_task qc i (scheduled_queue w) = Inl err"
        | d' q where "\<not> blocked job (db w)" "?c = Inr d'" "send_task qc i (scheduled_queue w) = Inr q"
        by (cases ?c; cases "send_task qc i (scheduled_queue w)") auto
      then show ?thesis
      proof cases
        case 1
        with assms eq skipped [OF adv] show ?thesis by simp
      next
        case 2
        with assms eq uncreated [OF adv 2(1) u n'] show ?thesis by simp
      next
        case 3
        with assms eq unsent [OF adv 3(1) u n'] show ?thesis by simp
      next
        case 4
        with assms eq fired [OF adv 4(1) u n'] show ?thesis by simp
      qed
    qed
  qed
qed

lemma dispatch_job_next:
  assumes adv: "croniter_advances cr" and d: "dispatch_job cr qc job now w = (Inr (fired, job'), w')"
  shows "\<exists>e t. cron_expression job = Some e \<and> get_next cr e now = Some t \<and> now < t \<and> next_fire_at job' = Some t \<and>
    jid job' = jid job \<and> cron_expression job' = Some e \<and> fired \<le> 1"
proof -
  obtain w1 d where "advanced cr job now w w1 d job'" "fired \<le> 1" using d by (cases rule: dispatch_job_cases) auto
  then show ?thesis using adv by (auto simp: advanced_def croniter_advances_def)
qed

subsection \<open>A rule for the loop\<close>

definition due_count :: "time \<Rightarrow> scheduler \<Rightarrow> nat" where
  "due_count now s = size (filter_mset (\<lambda>e. fst e \<le> now) (mset (heap s)))"

definition stale_top :: "scheduler \<Rightarrow> bool" where
  "stale_top s \<longleftrightarrow>
     (case job_cache s (snd (heap s ! 0)) of
        None \<Rightarrow> True
      | Some j \<Rightarrow> (case next_fire_at j of None \<Rightarrow> False | Some t \<Rightarrow> timestamp_epsilon < \<bar>t - fst (heap s ! 0)\<bar>))"

lemma popped_mset:
  assumes "heap_inv (heap s)" "heap s \<noteq> []"
  shows "mset (heap (popped s)) = mset (heap s) - {#heap s ! 0#}" "heap_inv (heap (popped s))"
    "job_cache (popped s) = job_cache s" "last_sync_at (popped s) = last_sync_at s"
    "heap s ! 0 \<in># mset (heap s)"
  using heapq.pop_items [OF assms(1)] heapq.pop_invar [OF assms(1)] assms by (simp_all add: popped_def)

lemma due_count_popped:
  assumes "heap_inv (heap s)" "heap s \<noteq> []" "fst (heap s ! 0) \<le> now"
  shows "due_count now (popped s) < due_count now s"
proof -
  have "filter_mset (\<lambda>e. fst e \<le> now) (mset (heap s)) =
      add_mset (heap s ! 0) (filter_mset (\<lambda>e. fst e \<le> now) (mset (heap (popped s))))"
    using popped_mset(1,5) [OF assms(1,2)] assms(3) by (metis filter_mset_add_mset insert_DiffM)
  then show ?thesis by (simp add: due_count_def)
qed

lemma rescheduled_mset:
  assumes "heap_inv (heap s)" "next_fire_at job = Some t"
  shows "mset (heap (rescheduled i job s)) = add_mset (t, i) (mset (heap s))" "heap_inv (heap (rescheduled i job s))"
    "job_cache (rescheduled i job s) = (job_cache s)(i := Some job)"
    "last_sync_at (rescheduled i job s) = last_sync_at s"
  using assms heapq.push_items [OF assms(1)] heapq.push_invar [OF assms(1)] by (simp_all add: rescheduled_def Let_def)

lemma due_count_rescheduled:
  assumes "heap_inv (heap s)" "next_fire_at job = Some t" "now < t"
  shows "due_count now (rescheduled i job s) = due_count now s"
  using rescheduled_mset(1) [OF assms(1,2)] assms(3) by (simp add: due_count_def)

lemma dispatch_loop_rule:
  assumes adv: "croniter_advances cr" and "heap_inv (heap s)" and "P n s w"
    and skip: "\<And>n s w. P n s w \<Longrightarrow> heap_inv (heap s) \<Longrightarrow> heap s \<noteq> [] \<Longrightarrow> fst (heap s ! 0) \<le> now \<Longrightarrow> stale_top s \<Longrightarrow>
      P n (popped s) w"
    and fire: "\<And>n s w job t fired job' w1. P n s w \<Longrightarrow> heap_inv (heap s) \<Longrightarrow> heap s \<noteq> [] \<Longrightarrow> fst (heap s ! 0) \<le> now \<Longrightarrow>
      job_cache s (snd (heap s ! 0)) = Some job \<Longrightarrow> next_fire_at job = Some t \<Longrightarrow>
      \<bar>t - fst (heap s ! 0)\<bar> \<le> timestamp_epsilon \<Longrightarrow> dispatch_job cr qc job now w = (Inr (fired, job'), w1) \<Longrightarrow>
      P (n + fired) (rescheduled (snd (heap s ! 0)) job' (popped s)) w1"
    and crash: "\<And>n s w w1. P n s w \<Longrightarrow> heap_inv (heap s) \<Longrightarrow> heap s \<noteq> [] \<Longrightarrow>
      w1 = w \<or> (\<exists>job err. job_cache s (snd (heap s ! 0)) = Some job \<and> dispatch_job cr qc job now w = (Inl err, w1)) \<Longrightarrow>
      Q (popped s) w1"
  shows "\<exists>r s' w'. dispatch_loop cr qc now n s w = Some (r, s', w') \<and>
    (case r of
       Inl err \<Rightarrow> Q s' w'
     | Inr m \<Rightarrow> P m s' w' \<and> heap_inv (heap s') \<and> (\<forall>e \<in> set (heap s'). now < fst e))"
  using assms(2,3)
proof (induction "due_count now s" arbitrary: n s w rule: less_induct)
  case less
  show ?case
  proof (cases "heap s = []")
    case True
    with less(2,3) show ?thesis by (subst dispatch_loop.simps) simp
  next
    case ne: False
    show ?thesis
    proof (cases "now < fst (heap s ! 0)")
      case True
      have "now < fst e" if "e \<in> set (heap s)" for e
      proof -
        have "heap s ! 0 \<le> e" using heapq.peek_le [OF less(2), of e] that by simp
        then have "fst (heap s ! 0) \<le> fst e" by (auto simp: less_eq_prod_def)
        with True show ?thesis by simp
      qed
      with less(2,3) ne True show ?thesis by (subst dispatch_loop.simps) simp
    next
      case False
      then have le: "fst (heap s ! 0) \<le> now" by simp
      note dp = due_count_popped [OF less(2) ne le]
      note hp = popped_mset(2) [OF less(2) ne]
      show ?thesis
      proof (cases "stale_top s")
        case True
        then have "dispatch_loop cr qc now n s w = dispatch_loop cr qc now n (popped s) w"
          using ne False by (subst dispatch_loop.simps) (auto simp: stale_top_def split: option.splits)
        with less(1) [OF dp hp skip [OF less(3,2) ne le True]] show ?thesis by simp
      next
        case fresh: False
        then obtain job where job: "job_cache s (snd (heap s ! 0)) = Some job" by (auto simp: stale_top_def split: option.splits)
        show ?thesis
        proof (cases "next_fire_at job")
          case None
          then have "dispatch_loop cr qc now n s w = Some (Inl AttributeError, popped s, w)"
            using ne False job by (subst dispatch_loop.simps) simp
          then show ?thesis using crash [OF less(3,2) ne, of w] by simp
        next
          case t: (Some t)
          have eps: "\<bar>t - fst (heap s ! 0)\<bar> \<le> timestamp_epsilon" using fresh job t by (simp add: stale_top_def)
          obtain r1 w1 where d: "dispatch_job cr qc job now w = (r1, w1)" by fastforce
          show ?thesis
          proof (cases r1)
            case (Inl err)
            then have "dispatch_loop cr qc now n s w = Some (Inl err, popped s, w1)"
              using ne False job t eps d by (subst dispatch_loop.simps) simp
            then show ?thesis using crash [OF less(3,2) ne, of w1] job d Inl by auto
          next
            case (Inr p)
            obtain fired job' where p: "p = (fired, job')" by (cases p)
            note d' = d [unfolded Inr p]
            let ?s = "rescheduled (snd (heap s ! 0)) job' (popped s)"
            have eq: "dispatch_loop cr qc now n s w = dispatch_loop cr qc now (n + fired) ?s w1"
              using ne False job t eps d' by (subst dispatch_loop.simps) simp
            obtain t' where t': "next_fire_at job' = Some t'" "now < t'" using dispatch_job_next [OF adv d'] by auto
            have "due_count now ?s < due_count now s" using due_count_rescheduled [OF hp t'] dp by simp
            from less(1) [OF this rescheduled_mset(2) [OF hp t'(1)] fire [OF less(3,2) ne le job t eps d']] eq
            show ?thesis by simp
          qed
        qed
      qed
    qed
  qed
qed

text \<open>(C18) A dispatch pass always ends, whatever the heap, the cache, the queue and the database do, as long
  as croniter returns times after its base: every firing that is due is popped once, and what is
  pushed back lies in the future. When the pass ends without an exception, the heap is still a heap and
  nothing due is left in it.\<close>

theorem dispatch_due_jobs_terminates:
  assumes "croniter_advances cr" "heap_inv (heap s)"
  shows "\<exists>r s' w'. dispatch_due_jobs cr qc s w = Some (r, s', w') \<and>
    (\<forall>m. r = Inr m \<longrightarrow> heap_inv (heap s') \<and> (\<forall>e \<in> set (heap s'). clock w (ticks w) < fst e))"
proof -
  obtain now w1 where n: "utcnow w = (now, w1)" by fastforce
  have "now = clock w (ticks w)" using n by (simp add: utcnow_def)
  moreover have "\<exists>r s' w'. dispatch_loop cr qc now 0 s w1 = Some (r, s', w') \<and>
    (case r of Inl err \<Rightarrow> True | Inr m \<Rightarrow> True \<and> heap_inv (heap s') \<and> (\<forall>e \<in> set (heap s'). now < fst e))"
    by (rule dispatch_loop_rule [where P = "\<lambda>n s w. True" and Q = "\<lambda>s w. True", OF assms]) simp_all
  then obtain r s' w' where "dispatch_loop cr qc now 0 s w1 = Some (r, s', w')"
    "case r of Inl err \<Rightarrow> True | Inr m \<Rightarrow> True \<and> heap_inv (heap s') \<and> (\<forall>e \<in> set (heap s'). now < fst e)" by blast
  ultimately show ?thesis using n by (cases r) (simp_all add: dispatch_due_jobs_def)
qed

definition sample_job :: job where
  "sample_job = paused_job\<lparr>job_type := scheduled, cron_expression := Some ''* * * * *'', enabled := True,
     next_fire_at := Some 0\<rparr>"

definition due_scheduler :: scheduler where
  "due_scheduler = \<lparr>heap = [(0, ''a'')], job_cache = (\<lambda>i. if i = ''a'' then Some sample_job else None), last_sync_at = None\<rparr>"

definition due_world :: "mem_queue world" where
  "due_world = paused_world\<lparr>db := (db paused_world)\<lparr>jobs := [sample_job]\<rparr>\<rparr>"

theorem dispatch_due_jobs_terminates_witness:
  "\<exists>r s' w'. dispatch_due_jobs minutely MemoryQueueClient due_scheduler due_world = Some (r, s', w')"
proof -
  have "heap_inv (heap due_scheduler)" by (simp add: due_scheduler_def heap_inv_def)
  from dispatch_due_jobs_terminates [OF minutely_advances this] show ?thesis by blast
qed

subsection \<open>The invariant of the scheduler\<close>

text \<open>Cron expressions denote whole seconds.\<close>

definition whole :: "time \<Rightarrow> bool" where
  "whole t \<longleftrightarrow> t mod 1000000 = 0"

definition croniter_whole :: "croniter \<Rightarrow> bool" where
  "croniter_whole cr \<longleftrightarrow> (\<forall>e base t. get_next cr e base = Some t \<longrightarrow> whole t)"

text \<open>The next firing of every cached job is in the heap.\<close>

definition sched_inv :: "scheduler \<Rightarrow> bool" where
  "sched_inv s \<longleftrightarrow>
     heap_inv (heap s) \<and> (\<forall>e \<in> set (heap s). whole (fst e)) \<and>
     (\<forall>i j. job_cache s i = Some j \<longrightarrow>
        jid j = i \<and> (\<exists>t. next_fire_at j = Some t \<and> whole t \<and> (t, i) \<in> set (heap s)))"

lemma whole_close:
  assumes "whole a" "whole b" "\<bar>a - b\<bar> \<le> timestamp_epsilon"
  shows "a = b"
proof (rule ccontr)
  assume "a \<noteq> b"
  have "1000000 dvd a - b" using assms(1,2) by (simp add: whole_def mod_eq_dvd_iff [symmetric])
  then have "\<bar>1000000\<bar> \<le> \<bar>a - b\<bar>" using \<open>a \<noteq> b\<close> by (intro dvd_imp_le_int) auto
  with assms(3) show False by (simp add: timestamp_epsilon_def)
qed

lemma sched_invD:
  assumes "sched_inv s" "job_cache s i = Some j"
  shows "jid j = i" "\<exists>t. next_fire_at j = Some t \<and> whole t \<and> (t, i) \<in> set (heap s)"
  using assms by (simp_all add: sched_inv_def)

lemma new_scheduler_inv [simp]: "sched_inv new_scheduler"
  by (simp add: sched_inv_def new_scheduler_def heap_inv_def)

lemma in_popped:
  assumes "heap_inv (heap s)" "heap s \<noteq> []"
  shows "e \<in> set (heap (popped s)) \<Longrightarrow> e \<in> set (heap s)" "e \<in> set (heap s) \<Longrightarrow> e \<noteq> heap s ! 0 \<Longrightarrow> e \<in> set (heap (popped s))"
proof -
  have eq: "set (heap (popped s)) = set_mset (mset (heap s) - {#heap s ! 0#})"
    using popped_mset(1) [OF assms] by (metis set_mset_mset)
  show "e \<in> set (heap (popped s)) \<Longrightarrow> e \<in> set (heap s)" unfolding eq by (metis in_diffD set_mset_mset)
  show "e \<in> set (heap s) \<Longrightarrow> e \<noteq> heap s ! 0 \<Longrightarrow> e \<in> set (heap (popped s))"
    unfolding eq by (simp add: in_diff_count)
qed

lemma skip_sched_inv:
  assumes inv: "sched_inv s" and ne: "heap s \<noteq> []" and stale: "stale_top s"
  shows "sched_inv (popped s)"
proof -
  have hi: "heap_inv (heap s)" using inv by (simp add: sched_inv_def)
  note pm = popped_mset [OF hi ne]
  have "jid j = i \<and> (\<exists>t. next_fire_at j = Some t \<and> whole t \<and> (t, i) \<in> set (heap (popped s)))" if c: "job_cache s i = Some j" for i j
  proof -
    obtain t where t: "jid j = i" "next_fire_at j = Some t" "whole t" "(t, i) \<in> set (heap s)"
      using sched_invD [OF inv c] by blast
    have "(t, i) \<noteq> heap s ! 0"
    proof
      assume "(t, i) = heap s ! 0"
      from this [symmetric] stale c t(2) show False by (simp add: stale_top_def timestamp_epsilon_def)
    qed
    with t in_popped(2) [OF hi ne] show ?thesis by blast
  qed
  then show ?thesis using inv pm in_popped(1) [OF hi ne] by (auto simp: sched_inv_def)
qed

lemma fire_sched_inv:
  assumes inv: "sched_inv s" and ne: "heap s \<noteq> []"
    and j: "next_fire_at job' = Some t'" "whole t'" "jid job' = snd (heap s ! 0)"
  shows "sched_inv (rescheduled (snd (heap s ! 0)) job' (popped s))"
proof -
  let ?i = "snd (heap s ! 0)"
  have hi: "heap_inv (heap s)" using inv by (simp add: sched_inv_def)
  note pm = popped_mset [OF hi ne]
  note rm = rescheduled_mset [OF pm(2) j(1), of ?i]
  have hs: "set (heap (rescheduled ?i job' (popped s))) = insert (t', ?i) (set (heap (popped s)))"
    using rm(1) by (metis set_mset_add_mset_insert set_mset_mset)
  have "\<exists>t. next_fire_at k = Some t \<and> whole t \<and> (t, i) \<in> set (heap (popped s))"
    if c: "job_cache s i = Some k" "i \<noteq> ?i" for i k
  proof -
    obtain t where "next_fire_at k = Some t" "whole t" "(t, i) \<in> set (heap s)"
      using sched_invD(2) [OF inv c(1)] by blast
    moreover have "(t, i) \<noteq> heap s ! 0" using c(2) by (metis snd_conv)
    ultimately show ?thesis using in_popped(2) [OF hi ne] by blast
  qed
  then show ?thesis
    using inv pm rm hs j in_popped(1) [OF hi ne] by (auto simp: sched_inv_def)
qed

subsection \<open>What one pass does\<close>

definition due :: "time \<Rightarrow> job \<Rightarrow> bool" where
  "due now j \<longleftrightarrow> (case next_fire_at j of None \<Rightarrow> False | Some t \<Rightarrow> t \<le> now)"

text \<open>The state of a pass that began in \<open>s0, w0\<close>: the tasks it added, and which jobs it has dealt with.\<close>

definition handled :: "time \<Rightarrow> uuid \<Rightarrow> job \<Rightarrow> database \<Rightarrow> uuid set \<Rightarrow> job option \<Rightarrow> bool" where
  "handled now i j d ids c \<longleftrightarrow>
     due now j \<and> (case c of None \<Rightarrow> False | Some j' \<Rightarrow> \<not> due now j' \<and> next_fire_at j' \<noteq> None) \<and>
     (i \<in> ids \<longleftrightarrow> \<not> blocked j d)"

definition pass_inv :: "time \<Rightarrow> scheduler \<Rightarrow> mem_queue world \<Rightarrow> nat \<Rightarrow> scheduler \<Rightarrow> mem_queue world \<Rightarrow> bool" where
  "pass_inv now s0 w0 n s w \<longleftrightarrow>
     sched_inv s \<and> (\<forall>i. count_running_for_job i (db w) = count_running_for_job i (db w0)) \<and>
     (\<exists>new. tasks (db w) = tasks (db w0) @ new \<and> length new = n \<and> distinct (map task_job_id new) \<and>
        (\<forall>x \<in> set new. x = new_task (tid x) (task_job_id x) by_schedule 0 (tcreated_at x)) \<and>
        queued (scheduled_queue w) = queued (scheduled_queue w0) + mset (map (\<lambda>x. task_body (tid x)) new) \<and>
        (\<forall>i. case job_cache s0 i of
               None \<Rightarrow> job_cache s i = None \<and> i \<notin> task_job_id ` set new
             | Some j \<Rightarrow> job_cache s i = Some j \<and> i \<notin> task_job_id ` set new \<or>
                 handled now i j (db w0) (task_job_id ` set new) (job_cache s i)))"

lemma dispatch_job_effect:
  assumes d: "dispatch_job cr MemoryQueueClient job now w = (Inr (n, job'), w')"
  shows "\<exists>more. tasks (db w') = tasks (db w) @ more \<and> length more = n \<and> (n = 0 \<longleftrightarrow> blocked job (db w)) \<and> n \<le> 1 \<and>
    (\<forall>x \<in> set more. x = new_task (tid x) (jid job) by_schedule 0 (tcreated_at x)) \<and>
    queued (scheduled_queue w') = queued (scheduled_queue w) + mset (map (\<lambda>x. task_body (tid x)) more) \<and>
    (\<forall>i. count_running_for_job i (db w') = count_running_for_job i (db w))"
  using d
proof (cases rule: dispatch_job_cases)
  case (skipped w1 d j2)
  then have "tasks d = tasks (db w)" "scheduled_queue w1 = scheduled_queue w"
    using merge_commit_frame by (auto simp: advanced_def quietD [OF quiet_utcnow])
  then show ?thesis using skipped by (intro exI [of _ "[]"]) (simp add: count_running_for_job_def)
next
  case (fired w1 d j2 i w3 created w4 d' q)
  then have "tasks d = tasks (db w)" "scheduled_queue w1 = scheduled_queue w"
    using merge_commit_frame by (auto simp: advanced_def quietD [OF quiet_utcnow])
  moreover have "queued q = add_mset (task_body i) (queued (scheduled_queue w))"
    using memq.send_waiting fired(6) by simp
  ultimately show ?thesis using fired task_create_SomeD [OF fired(5)]
    by (intro exI [of _ "[new_task i (jid job) by_schedule 0 created]"]) (simp add: count_running_for_job_def)
qed simp_all

lemma pass_inv_skip:
  assumes "pass_inv now s0 w0 n s w" "heap s \<noteq> []" "stale_top s"
  shows "pass_inv now s0 w0 n (popped s) w"
proof -
  have "sched_inv (popped s)" using skip_sched_inv assms by (simp add: pass_inv_def)
  moreover have c: "job_cache (popped s) = job_cache s" by (simp add: popped_def)
  ultimately show ?thesis using assms(1) unfolding pass_inv_def c by blast
qed

lemma pass_inv_fire:
  assumes adv: "croniter_advances cr" and wh: "croniter_whole cr" and P: "pass_inv now s0 w0 n s w"
    and top: "heap s \<noteq> []" "fst (heap s ! 0) \<le> now" and job: "job_cache s (snd (heap s ! 0)) = Some job"
    and t: "next_fire_at job = Some t" "\<bar>t - fst (heap s ! 0)\<bar> \<le> timestamp_epsilon"
    and d: "dispatch_job cr MemoryQueueClient job now w = (Inr (fired, job'), w1)"
  shows "pass_inv now s0 w0 (n + fired) (rescheduled (snd (heap s ! 0)) job' (popped s)) w1"
proof -
  let ?i = "snd (heap s ! 0)" and ?s = "rescheduled (snd (heap s ! 0)) job' (popped s)"
  have si: "sched_inv s" and cnt: "\<And>i. count_running_for_job i (db w) = count_running_for_job i (db w0)"
    using P by (simp_all add: pass_inv_def)
  obtain new where new: "tasks (db w) = tasks (db w0) @ new" "length new = n" "distinct (map task_job_id new)"
    "\<And>x. x \<in> set new \<Longrightarrow> x = new_task (tid x) (task_job_id x) by_schedule 0 (tcreated_at x)"
    "queued (scheduled_queue w) = queued (scheduled_queue w0) + mset (map (\<lambda>x. task_body (tid x)) new)"
    "\<And>i. case job_cache s0 i of
               None \<Rightarrow> job_cache s i = None \<and> i \<notin> task_job_id ` set new
             | Some j \<Rightarrow> job_cache s i = Some j \<and> i \<notin> task_job_id ` set new \<or>
                 handled now i j (db w0) (task_job_id ` set new) (job_cache s i)"
    using P unfolding pass_inv_def by blast
  have jid: "jid job = ?i" using sched_invD(1) [OF si job] .
  obtain t0 where t0: "whole t" using sched_invD(2) [OF si job] t(1) by auto
  have "whole (fst (heap s ! 0))" using si top(1) by (simp add: sched_inv_def)
  from whole_close [OF t0 this t(2)] have tnow: "t \<le> now" using top(2) by simp
  then have dj: "due now job" using t(1) by (simp add: due_def)
  obtain t' where t': "next_fire_at job' = Some t'" "now < t'" "whole t'" "jid job' = jid job"
    using dispatch_job_next [OF adv d] wh by (auto simp: croniter_whole_def)
  have si': "sched_inv ?s" by (rule fire_sched_inv [OF si top(1) t'(1,3)]) (simp add: t'(4) jid)
  have hi: "heap_inv (heap s)" using si by (simp add: sched_inv_def)
  have cache: "job_cache ?s = (job_cache s)(?i := Some job')"
    using rescheduled_mset(3) [OF popped_mset(2) [OF hi top(1)] t'(1)] popped_mset(3) [OF hi top(1)] by simp
  have s0i: "job_cache s0 ?i = Some job \<and> ?i \<notin> task_job_id ` set new"
    using new(6) [of ?i] job dj by (auto simp: handled_def split: option.splits)
  obtain more where more: "tasks (db w1) = tasks (db w) @ more" "length more = fired" "fired = 0 \<longleftrightarrow> blocked job (db w)"
    "fired \<le> 1" "\<And>x. x \<in> set more \<Longrightarrow> x = new_task (tid x) (jid job) by_schedule 0 (tcreated_at x)"
    "queued (scheduled_queue w1) = queued (scheduled_queue w) + mset (map (\<lambda>x. task_body (tid x)) more)"
    "\<And>i. count_running_for_job i (db w1) = count_running_for_job i (db w)"
    using dispatch_job_effect [OF d] by blast
  have mj: "task_job_id x = ?i" if "x \<in> set more" for x using more(5) [OF that] jid by (metis new_task_sel(2))
  have bl: "blocked job (db w) = blocked job (db w0)" using cnt by (simp add: blocked_def)
  have ids: "task_job_id ` set more = (if blocked job (db w0) then {} else {?i})"
  proof (cases "blocked job (db w0)")
    case True
    then show ?thesis using more(2,3) bl by simp
  next
    case False
    then have "length more = 1" using more(2,3,4) bl by simp
    then obtain x where "more = [x]" by (cases more) auto
    with mj False show ?thesis by simp
  qed
  have dist: "distinct (map task_job_id (new @ more))"
  proof -
    have "distinct (map task_job_id more)" using more(2,4) by (cases more rule: remdups_adj.cases) auto
    then show ?thesis using new(3) s0i mj by force
  qed
  have "case job_cache s0 i of
       None \<Rightarrow> job_cache ?s i = None \<and> i \<notin> task_job_id ` set (new @ more)
     | Some j \<Rightarrow> job_cache ?s i = Some j \<and> i \<notin> task_job_id ` set (new @ more) \<or>
         handled now i j (db w0) (task_job_id ` set (new @ more)) (job_cache ?s i)" for i
  proof (cases "i = ?i")
    case True
    have "handled now ?i job (db w0) (task_job_id ` set (new @ more)) (Some job')"
      using dj t' s0i ids jid by (auto simp: handled_def due_def)
    then show ?thesis using True s0i cache by simp
  next
    case False
    then have "i \<notin> task_job_id ` set more" using ids by (simp split: if_splits)
    then have "i \<in> task_job_id ` set (new @ more) \<longleftrightarrow> i \<in> task_job_id ` set new" by auto
    then show ?thesis using new(6) [of i] cache False
      by (simp add: handled_def del: set_append split: option.splits)
  qed
  moreover have "x = new_task (tid x) (task_job_id x) by_schedule 0 (tcreated_at x)" if "x \<in> set (new @ more)" for x
    using that new(4) more(5) mj jid by (metis Un_iff set_append)
  ultimately show ?thesis
    unfolding pass_inv_def using si' cnt more(1,2,6,7) new(1,2,5) dist
    by (intro conjI exI [of _ "new @ more"]) auto
qed

text \<open>(C1) What a dispatch pass does. When it returns \<open>n\<close>, exactly \<open>n\<close> pending tasks triggered by schedule
  were added, one for each cached job whose firing time has come and whose concurrency policy does not
  forbid it, and none for any other job; each of them has its message on the scheduled queue. Every
  cached job, skipped ones included, has its next firing in the heap and in the future.\<close>

theorem dispatch_pass_exact:
  assumes "croniter_advances cr" "croniter_whole cr" "sched_inv s"
    "dispatch_due_jobs cr MemoryQueueClient s w = Some (Inr n, s', w')"
  shows "\<exists>new. tasks (db w') = tasks (db w) @ new \<and> length new = n \<and> distinct (map task_job_id new) \<and>
    (\<forall>x \<in> set new. x = new_task (tid x) (task_job_id x) by_schedule 0 (tcreated_at x)) \<and>
    task_job_id ` set new =
      {i. \<exists>j. job_cache s i = Some j \<and> due (clock w (ticks w)) j \<and> \<not> blocked j (db w)} \<and>
    queued (scheduled_queue w') = queued (scheduled_queue w) + mset (map (\<lambda>x. task_body (tid x)) new) \<and>
    sched_inv s' \<and> (\<forall>i j. job_cache s' i = Some j \<longrightarrow> \<not> due (clock w (ticks w)) j)"
proof -
  obtain now w0 where n: "utcnow w = (now, w0)" by fastforce
  have now: "now = clock w (ticks w)" using n by (simp add: utcnow_def)
  note q = quietD [OF quiet_utcnow [OF n]]
  have hi: "heap_inv (heap s)" using assms(3) by (simp add: sched_inv_def)
  have P0: "pass_inv now s w0 0 s w0" using assms(3) by (simp add: pass_inv_def split: option.split)
  have loop: "dispatch_loop cr MemoryQueueClient now 0 s w0 = Some (Inr n, s', w')"
    using assms(4) n by (simp add: dispatch_due_jobs_def)
  have "\<exists>r s' w'. dispatch_loop cr MemoryQueueClient now 0 s w0 = Some (r, s', w') \<and>
    (case r of Inl err \<Rightarrow> True
     | Inr m \<Rightarrow> pass_inv now s w0 m s' w' \<and> heap_inv (heap s') \<and> (\<forall>e \<in> set (heap s'). now < fst e))"
    by (rule dispatch_loop_rule [where P = "pass_inv now s w0" and Q = "\<lambda>s w. True", OF assms(1) hi P0])
      (auto intro: pass_inv_skip pass_inv_fire [OF assms(1,2)])
  with loop have P: "pass_inv now s w0 n s' w'" and fut: "\<And>e. e \<in> set (heap s') \<Longrightarrow> now < fst e" by auto
  have si': "sched_inv s'" using P by (simp add: pass_inv_def)
  have nd: "\<not> due now j" if c: "job_cache s' i = Some j" for i j
  proof -
    obtain t where "next_fire_at j = Some t" "(t, i) \<in> set (heap s')" using sched_invD(2) [OF si' c] by blast
    with fut show ?thesis by (force simp: due_def)
  qed
  obtain new where new: "tasks (db w') = tasks (db w0) @ new" "length new = n" "distinct (map task_job_id new)"
    "\<forall>x \<in> set new. x = new_task (tid x) (task_job_id x) by_schedule 0 (tcreated_at x)"
    "queued (scheduled_queue w') = queued (scheduled_queue w0) + mset (map (\<lambda>x. task_body (tid x)) new)"
    "\<And>i. case job_cache s i of
               None \<Rightarrow> job_cache s' i = None \<and> i \<notin> task_job_id ` set new
             | Some j \<Rightarrow> job_cache s' i = Some j \<and> i \<notin> task_job_id ` set new \<or>
                 handled now i j (db w0) (task_job_id ` set new) (job_cache s' i)"
    using P unfolding pass_inv_def by blast
  have "i \<in> task_job_id ` set new \<longleftrightarrow> (\<exists>j. job_cache s i = Some j \<and> due now j \<and> \<not> blocked j (db w))" for i
    using new(6) [of i] nd [of i] q(1) by (auto simp: handled_def split: option.splits)
  then have "task_job_id ` set new = {i. \<exists>j. job_cache s i = Some j \<and> due now j \<and> \<not> blocked j (db w)}" by blast
  then show ?thesis using new(1-5) si' nd q now by auto
qed

lemma minutely_whole: "croniter_whole minutely"
  by (simp add: croniter_whole_def minutely_def whole_def)

lemma due_scheduler_inv: "sched_inv due_scheduler"
  by (simp add: sched_inv_def due_scheduler_def heap_inv_def whole_def sample_job_def paused_job_def)

lemma due_pass_runs:
  "case dispatch_due_jobs minutely MemoryQueueClient due_scheduler due_world of
     Some (Inr n, s', w') \<Rightarrow> n = 1 | _ \<Rightarrow> False"
  by code_simp

theorem dispatch_pass_exact_witness:
  "\<exists>s' w' t. dispatch_due_jobs minutely MemoryQueueClient due_scheduler due_world = Some (Inr 1, s', w') \<and>
     tasks (db w') = [t] \<and> task_job_id t = ''a''"
proof -
  obtain r s' w' where d0: "dispatch_due_jobs minutely MemoryQueueClient due_scheduler due_world = Some (r, s', w')"
    using due_pass_runs by (auto split: option.splits)
  have "r = Inr 1" using due_pass_runs d0 by (cases r) simp_all
  note d = d0 [unfolded this]
  from dispatch_pass_exact [OF minutely_advances minutely_whole due_scheduler_inv d] obtain new where
    new: "tasks (db w') = tasks (db due_world) @ new" "length new = 1"
      "task_job_id ` set new =
        {i. \<exists>j. job_cache due_scheduler i = Some j \<and> due (clock due_world (ticks due_world)) j \<and> \<not> blocked j (db due_world)}"
    by blast
  from new(2) obtain t where t: "new = [t]" by (cases new) auto
  with new(3) have "task_job_id t \<in> {i. \<exists>j. job_cache due_scheduler i = Some j}" by auto
  then have "task_job_id t = ''a''" by (simp add: due_scheduler_def split: if_splits)
  then show ?thesis using new(1) t d by (simp add: due_world_def paused_world_def)
qed

subsection \<open>Synchronising\<close>

text \<open>The cache is right about every row the cursor has passed.\<close>

definition agrees :: "scheduler \<Rightarrow> job \<Rightarrow> bool" where
  "agrees s j \<longleftrightarrow> job_cache s (jid j) = (if enabled j then Some j else None)"

definition synced :: "scheduler \<Rightarrow> database \<Rightarrow> bool" where
  "synced s d \<longleftrightarrow>
     (\<forall>j \<in> set (jobs d). job_type j = scheduled \<longrightarrow>
        (case last_sync_at s of None \<Rightarrow> False | Some t \<Rightarrow> updated_at j < t) \<longrightarrow> agrees s j)"

definition fires_whole :: "database \<Rightarrow> bool" where
  "fires_whole d \<longleftrightarrow> (\<forall>j \<in> set (jobs d). case next_fire_at j of None \<Rightarrow> True | Some t \<Rightarrow> whole t)"

lemma sync_one_cache: "job_cache (sync_one j s) = (job_cache s)(jid j := if enabled j then Some j else None)"
  by (simp add: sync_one_def Let_def)

lemma sync_fold_cache:
  assumes "distinct (map jid js)"
  shows "job_cache (fold sync_one js s) i =
    (case find_row jid i js of None \<Rightarrow> job_cache s i | Some j \<Rightarrow> if enabled j then Some j else None)"
  using assms
proof (induction js arbitrary: s)
  case (Cons j js)
  then have "jid j \<notin> jid ` set js" by simp
  then have "find_row jid (jid j) js = None" by (simp add: find_row_None_iff)
  with Cons show ?case by (auto simp: sync_one_cache split: option.split)
qed simp

lemma sync_one_inv:
  assumes inv: "sched_inv s" and t: "next_fire_at j = Some t" "whole t"
  shows "sched_inv (sync_one j s)"
proof (cases "enabled j")
  case False
  then show ?thesis using inv by (simp add: sync_one_def sched_inv_def)
next
  case en: True
  have hi: "heap_inv (heap s)" using inv by (simp add: sched_inv_def)
  let ?h = "if is_new_firing s (jid j) t then heappush (heap s) (t, jid j) else heap s"
  have h: "heap (sync_one j s) = ?h" using en t(1) by (simp add: sync_one_def Let_def)
  have push: "set (heappush (heap s) (t, jid j)) = insert (t, jid j) (set (heap s))"
    using heapq.push_items [OF hi] by (metis set_mset_add_mset_insert set_mset_mset)
  have "(t, jid j) \<in> set ?h"
  proof (cases "is_new_firing s (jid j) t")
    case False
    then obtain c t0 where c: "job_cache s (jid j) = Some c" "next_fire_at c = Some t0" "\<bar>t0 - t\<bar> \<le> timestamp_epsilon"
      by (auto simp: is_new_firing_def split: option.splits)
    with sched_invD(2) [OF inv c(1)] whole_close [OF _ t(2) c(3)] False show ?thesis by auto
  qed (simp add: push)
  moreover have "set (heap s) \<subseteq> set ?h" using push by auto
  moreover have "heap_inv ?h" using hi heapq.push_invar by auto
  moreover have "\<forall>e \<in> set ?h. whole (fst e)" using inv t(2) push by (auto simp: sched_inv_def)
  moreover have "jid k = i \<and> (\<exists>t. next_fire_at k = Some t \<and> whole t \<and> (t, i) \<in> set ?h)"
    if c: "job_cache s i = Some k" for i k
    using sched_invD [OF inv c] calculation(2) by blast
  ultimately show ?thesis using t h en unfolding sched_inv_def by (auto simp: sync_one_cache)
qed

text \<open>(C19) A sync makes the cache agree with the jobs table: every scheduled job of the table is cached as it is
  stored when it is enabled, and not cached when it is disabled, whether it changed since the last pass or
  not; and the next firing of every cached job is in the heap. It stays so for every later state of the
  table in which the rows that differ carry a stamp no more than ten seconds before this pass began.\<close>

theorem sync_jobs_complete:
  assumes wf: "db_wf (db w)" and fw: "fires_whole (db w)" and inv: "sched_inv s" and sy: "synced s (db w)"
    and s': "sync_jobs s w = (s', w')"
  shows "sched_inv s' \<and> db w' = db w \<and>
    (\<forall>j \<in> set (jobs (db w)). job_type j = scheduled \<longrightarrow> agrees s' j) \<and>
    (\<forall>d. (\<forall>j \<in> set (jobs d). job_type j = scheduled \<longrightarrow>
            j \<in> set (jobs (db w)) \<or> clock w (ticks w) - seconds 10 \<le> updated_at j) \<longrightarrow> synced s' d)"
proof -
  obtain start w1 where n: "utcnow w = (start, w1)" by fastforce
  have start: "start = clock w (ticks w)" using n by (simp add: utcnow_def)
  note q = quietD [OF quiet_utcnow [OF n]]
  let ?js = "list_updated_since (last_sync_at s) (db w)"
  let ?s1 = "fold sync_one ?js s"
  have s1: "s' = ?s1\<lparr>last_sync_at := Some (start - seconds 10)\<rparr>" "w' = w1"
    using s' n q by (simp_all add: sync_jobs_def sync_overlap_seconds_def)
  have dist: "distinct (map jid (jobs (db w)))" using wf by (simp add: db_wf_def keys_ok_def)
  then have djs: "distinct (map jid ?js)" by (simp add: list_updated_since_def distinct_map_filter)
  have js: "j \<in> set (jobs (db w))" "job_type j = scheduled" if "j \<in> set ?js" for j
    using that by (simp_all add: list_updated_since_def)
  have "sched_inv (fold sync_one ks u)" if "set ks \<subseteq> set ?js" "sched_inv u" for ks u
    using that
  proof (induction ks arbitrary: u)
    case (Cons k ks)
    have k: "k \<in> set (jobs (db w))" "job_type k = scheduled" using js Cons.prems(1) by auto
    then have "job_ok k" using wf by (auto simp: db_wf_def)
    then obtain t where "next_fire_at k = Some t" using k(2) by (auto simp: job_ok_def)
    moreover from this have "whole t" using fw k(1) by (auto simp: fires_whole_def)
    ultimately show ?case using Cons by (simp add: sync_one_inv)
  qed simp
  then have "sched_inv ?s1" using inv by simp
  then have si: "sched_inv s'" using s1 by (simp add: sched_inv_def)
  have ag: "agrees s' j" if j: "j \<in> set (jobs (db w))" "job_type j = scheduled" for j
  proof (cases "j \<in> set ?js")
    case True
    then have "find_row jid (jid j) ?js = Some j" using djs by (simp add: find_row_Some_iff)
    then show ?thesis using sync_fold_cache [OF djs] s1 by (simp add: agrees_def)
  next
    case False
    then have old: "case last_sync_at s of None \<Rightarrow> False | Some t \<Rightarrow> updated_at j < t"
      using j by (auto simp: list_updated_since_def split: option.splits)
    have "jid j \<notin> jid ` set ?js"
      using False j(1) js(1) dist by (auto simp: distinct_map inj_on_def)
    then have "find_row jid (jid j) ?js = None" by (simp add: find_row_None_iff)
    then show ?thesis using sync_fold_cache [OF djs] s1 sy old j by (auto simp: agrees_def synced_def)
  qed
  have "synced s' d" if "\<forall>j \<in> set (jobs d). job_type j = scheduled \<longrightarrow>
            j \<in> set (jobs (db w)) \<or> clock w (ticks w) - seconds 10 \<le> updated_at j" for d
    using that ag s1 start by (force simp: synced_def)
  then show ?thesis using si ag s1(2) q(1) by simp
qed

theorem sync_jobs_complete_witness:
  "agrees (fst (sync_jobs new_scheduler due_world)) sample_job"
proof -
  have wf: "db_wf (db due_world)"
    by (simp add: due_world_def paused_world_def sample_job_def paused_job_def db_wf_def keys_ok_def fks_ok_def job_ok_def)
  have fw: "fires_whole (db due_world)"
    by (simp add: due_world_def paused_world_def sample_job_def fires_whole_def whole_def)
  have sy: "synced new_scheduler (db due_world)" by (simp add: synced_def new_scheduler_def)
  obtain s' w' where s': "sync_jobs new_scheduler due_world = (s', w')" by fastforce
  from sync_jobs_complete [OF wf fw new_scheduler_inv sy s'] s' show ?thesis
    by (simp add: due_world_def sample_job_def paused_job_def)
qed

subsection \<open>Orphans\<close>

lemma release_all_eq:
  assumes "tid ` set ts \<subseteq> task_ids d"
  shows "release_all ts d =
    (Inr (), d\<lparr>tasks := map (\<lambda>t. if tid t \<in> tid ` set ts then release_columns t else t) (tasks d)\<rparr>)"
  using assms
proof (induction ts arbitrary: d)
  case (Cons t ts)
  let ?d = "d\<lparr>tasks := update_row tid (tid t) release_columns (tasks d)\<rparr>"
  have "task_ids ?d = task_ids d" by (simp add: task_ids_def keys_update_row release_columns_def)
  with Cons have "release_all (t # ts) d =
      (Inr (), ?d\<lparr>tasks := map (\<lambda>u. if tid u \<in> tid ` set ts then release_columns u else u) (tasks ?d)\<rparr>)"
    by (simp add: mark_running_expired_pending_def task_write_def)
  moreover have "map (\<lambda>u. if tid u \<in> tid ` set ts then release_columns u else u) (tasks ?d) =
      map (\<lambda>u. if tid u \<in> tid ` set (t # ts) then release_columns u else u) (tasks d)"
    by (simp add: update_row_def) (auto simp: release_columns_def)
  ultimately show ?case by simp
qed simp

lemma recover_orphans_run:
  assumes "store_inv cfg w" "recover_orphans w = (r, w')"
  shows "r = Inr (length (filter (expired (clock w (ticks w))) (tasks (db w)))) \<and> store_inv cfg w' \<and>
    tasks (db w') = map (\<lambda>t. if expired (clock w (ticks w)) t
      then t\<lparr>status := pending, locked_by := None, locked_until := None, started_at := None\<rparr> else t) (tasks (db w)) \<and>
    jobs (db w') = jobs (db w) \<and> draws w w' \<and> normal_queue w' = normal_queue w \<and> scheduled_queue w' = scheduled_queue w \<and>
    retry_queue w' = retry_queue w"
proof -
  obtain now w1 where n: "utcnow w = (now, w1)" by fastforce
  have now: "now = clock w (ticks w)" using n by (simp add: utcnow_def)
  note q = quiet_utcnow [OF n]
  note qd = quietD [OF q]
  let ?ts = "list_expired_running now (db w)"
  define T where "T = map (\<lambda>t. if expired now t then release_columns t else t) (tasks (db w))"
  have dist: "distinct (map tid (tasks (db w)))" using assms(1) by (simp add: store_inv_def db_wf_def keys_ok_def)
  have mem: "tid t \<in> tid ` set ?ts \<longleftrightarrow> expired now t" if "t \<in> set (tasks (db w))" for t
    using that dist by (auto simp: list_expired_running_def distinct_map inj_on_def)
  then have "map (\<lambda>t. if tid t \<in> tid ` set ?ts then release_columns t else t) (tasks (db w)) = T"
    unfolding T_def by (intro map_cong) auto
  moreover have "tid ` set ?ts \<subseteq> task_ids (db w)" by (auto simp: list_expired_running_def task_ids_def)
  ultimately have ra: "release_all ?ts (db w) = (Inr (), (db w)\<lparr>tasks := T\<rparr>)"
    using release_all_eq by simp
  then have res: "r = Inr (length ?ts)" "w' = w1\<lparr>db := (db w)\<lparr>tasks := T\<rparr>\<rparr>"
    using assms(2) n qd by (simp_all add: recover_orphans_def)
  have keys: "map tid T = map tid (tasks (db w))" "map task_job_id T = map task_job_id (tasks (db w))"
    by (simp_all add: T_def release_columns_def)
  have "task_ok (release_columns t)" if "task_ok t" "expired now t" for t
    using that by (auto simp: task_ok_def expired_def release_columns_def)
  then have ok: "\<forall>t \<in> set T. task_ok t" using assms(1) by (auto simp: T_def store_inv_def db_wf_def)
  have tj: "task_job_id ` set T = task_job_id ` set (tasks (db w))" using keys(2) by (metis list.set_map)
  have wf: "db_wf ((db w)\<lparr>tasks := T\<rparr>)"
    using assms(1) keys(1) ok tj by (simp add: store_inv_def db_wf_def keys_ok_def fks_ok_def job_ids_def)
  have ti: "task_ids ((db w)\<lparr>tasks := T\<rparr>) = task_ids (db w)"
    using keys(1) by (simp add: task_ids_def) (metis list.set_map)
  have "uuids_fresh w'"
    by (rule uuids_fresh_sub [of w]) (use assms(1) q res(2) ti in \<open>auto simp: store_inv_def quiet_def job_ids_def\<close>)
  then have "store_inv cfg w'" using assms(1) wf res(2) by (simp add: store_inv_def dag_def specs_derived_def)
  then show ?thesis using res qd q now by (simp add: quiet_def draws_def T_def list_expired_running_def release_columns_def [abs_def])
qed

text \<open>(C20) Recovering orphans returns to pending, unlocked, exactly the running tasks whose lock has ended, and
  leaves every other task as it is; it reports how many there were, sends no message, and keeps the
  store consistent.\<close>

theorem recover_orphans_exact:
  assumes "store_inv cfg w" "recover_orphans w = (r, w')"
  shows "r = Inr (length (filter (expired (clock w (ticks w))) (tasks (db w)))) \<and> store_inv cfg w' \<and>
    tasks (db w') = map (\<lambda>t. if expired (clock w (ticks w)) t
      then t\<lparr>status := pending, locked_by := None, locked_until := None, started_at := None\<rparr> else t) (tasks (db w)) \<and>
    jobs (db w') = jobs (db w) \<and> normal_queue w' = normal_queue w \<and> scheduled_queue w' = scheduled_queue w \<and>
    retry_queue w' = retry_queue w"
  using recover_orphans_run [OF assms] by blast

definition orphan_world :: "mem_queue world" where
  "orphan_world = paused_world\<lparr>ticks := 60, db := (db paused_world)\<lparr>tasks :=
     [(new_task ''t'' ''a'' manual 0 0)\<lparr>status := running, locked_by := Some ''w1'', locked_until := Some (seconds 30),
        started_at := Some 0\<rparr>]\<rparr>\<rparr>"

lemma orphan_store_inv: "store_inv default_settings orphan_world"
proof -
  have "db_wf (db orphan_world)"
    using paused_store_inv
    by (simp add: store_inv_def db_wf_def orphan_world_def keys_ok_def fks_ok_def job_ids_def paused_world_def
        paused_job_def task_ok_def new_task_def)
  moreover have "uuids_fresh orphan_world"
    using paused_store_inv
    by (simp add: store_inv_def uuids_fresh_def orphan_world_def job_ids_def task_ids_def
        paused_world_def sample_world_def initial_world_def)
  ultimately show ?thesis using paused_store_inv
    by (simp add: store_inv_def dag_def specs_derived_def orphan_world_def)
qed

theorem recover_orphans_exact_witness:
  "fst (recover_orphans orphan_world) = Inr 1 \<and> map status (tasks (db (snd (recover_orphans orphan_world)))) = [pending]"
proof -
  obtain r w' where r: "recover_orphans orphan_world = (r, w')" by fastforce
  from recover_orphans_exact [OF orphan_store_inv r] r show ?thesis
    by (simp add: orphan_world_def expired_def paused_world_def sample_world_def initial_world_def seconds_def)
qed

subsection \<open>Dispatching keeps the store consistent\<close>

definition id_used :: "'q world \<Rightarrow> uuid \<Rightarrow> bool" where
  "id_used w i \<longleftrightarrow> (\<forall>n \<ge> uuids_drawn w. uuid_source w n \<noteq> i)"

definition cache_ok :: "settings \<Rightarrow> scheduler \<Rightarrow> 'q world \<Rightarrow> bool" where
  "cache_ok cfg s w \<longleftrightarrow>
     (\<forall>i j. job_cache s i = Some j \<longrightarrow>
        jid j = i \<and> job_ok j \<and> job_type j = scheduled \<and> spec_derived cfg j \<and> id_used w i)"

lemma advanced_store:
  assumes inv: "store_inv cfg w" and adv: "advanced cr job now w w1 d j"
    and job: "job_ok job" "job_type job = scheduled" "spec_derived cfg job" "id_used w (jid job)"
  shows "store_inv cfg (w1\<lparr>db := d\<rparr>) \<and> job_ok j \<and> job_type j = scheduled \<and> spec_derived cfg j \<and> jid j = jid job"
proof -
  obtain e t stamp where a: "cron_expression job = Some e" "utcnow w = (stamp, w1)"
    "merge_commit stamp (job\<lparr>next_fire_at := Some t\<rparr>) (db w) = Inr d"
    "j = job\<lparr>next_fire_at := Some t\<rparr> \<or> j = job\<lparr>next_fire_at := Some t, updated_at := stamp\<rparr>"
    using adv by (auto simp: advanced_def)
  let ?j = "job\<lparr>next_fire_at := Some t\<rparr>"
  have ok: "job_ok ?j" "spec_derived cfg ?j" using job a(1) by (auto simp: job_ok_def spec_derived_iff)
  note F = merge_commit_frame [OF a(3)]
  note q = quiet_utcnow [OF a(2)]
  have "uuid_source w n \<noteq> jid job" if "uuids_drawn w \<le> n" for n using job(4) that by (simp add: id_used_def)
  then have "uuids_fresh (w1\<lparr>db := d\<rparr>)"
    using inv F q by (auto simp: store_inv_def uuids_fresh_def quiet_def task_ids_def)
  moreover have "db_wf d" "specs_derived cfg d"
    using inv merge_commit_wf [OF _ ok(1) a(3)] merge_commit_specs [OF _ ok(2) a(3)] by (auto simp: store_inv_def)
  ultimately have "store_inv cfg (w1\<lparr>db := d\<rparr>)" using inv F by (simp add: store_inv_def dag_def)
  then show ?thesis using ok a(4) job(2) by (auto simp: job_ok_def spec_derived_iff)
qed

lemma dispatch_job_store:
  assumes inv: "store_inv cfg w" and job: "job_ok job" "job_type job = scheduled" "spec_derived cfg job" "id_used w (jid job)"
    and d: "dispatch_job cr qc job now w = (r, w')"
  shows "store_inv cfg w' \<and>
    (\<forall>n j. r = Inr (n, j) \<longrightarrow> job_ok j \<and> job_type j = scheduled \<and> spec_derived cfg j \<and> jid j = jid job) \<and>
    uuid_source w' = uuid_source w \<and> uuids_drawn w \<le> uuids_drawn w'"
  using d
proof (cases rule: dispatch_job_cases)
  case (rejected err)
  then show ?thesis using inv by (auto simp: store_inv_quiet) (simp_all add: quiet_def)
next
  case (skipped w1 d j2)
  then show ?thesis using advanced_store [OF inv skipped(1) job]
    by (auto simp: advanced_def dest!: quiet_utcnow) (simp_all add: quiet_def)
next
  case (uncreated w1 d j2 i w3 created w4 err)
  have q: "quiet (w1\<lparr>db := d\<rparr>) w4" using quiet_trans [OF quiet_uuid4 [OF uncreated(3)] quiet_utcnow [OF uncreated(4)]] .
  moreover have "quiet w w1" using uncreated(1) by (auto simp: advanced_def quiet_utcnow)
  ultimately show ?thesis using uncreated advanced_store [OF inv uncreated(1) job] store_inv_quiet [OF q]
    by (auto simp: quiet_def)
next
  case (unsent w1 d j2 i w3 created w4 d' err)
  have q: "quiet (w1\<lparr>db := d\<rparr>) w4" using quiet_trans [OF quiet_uuid4 [OF unsent(3)] quiet_utcnow [OF unsent(4)]] .
  have q1: "quiet w w1" using unsent(1) by (auto simp: advanced_def quiet_utcnow)
  have s1: "store_inv cfg (w1\<lparr>db := d\<rparr>)" using advanced_store [OF inv unsent(1) job] by simp
  have "store_inv cfg w'"
    using task_create_store [OF s1 unsent(3) quiet_utcnow [OF unsent(4)], of _ w'] unsent(5,8) by simp
  then show ?thesis using unsent(7,8) q q1 by (auto simp: quiet_def)
next
  case (fired w1 d j2 i w3 created w4 d' qn)
  have q: "quiet (w1\<lparr>db := d\<rparr>) w4" using quiet_trans [OF quiet_uuid4 [OF fired(3)] quiet_utcnow [OF fired(4)]] .
  have q1: "quiet w w1" using fired(1) by (auto simp: advanced_def quiet_utcnow)
  note s1 = advanced_store [OF inv fired(1) job]
  have "store_inv cfg w'"
    using task_create_store [OF s1 [THEN conjunct1] fired(3) quiet_utcnow [OF fired(4)], of _ w'] fired(5,8) by simp
  then show ?thesis using fired(7,8) q q1 s1 by (auto simp: quiet_def)
qed

lemma cache_ok_mono:
  assumes "cache_ok cfg s w" "uuid_source w' = uuid_source w" "uuids_drawn w \<le> uuids_drawn w'" "job_cache s' = job_cache s"
  shows "cache_ok cfg s' w'"
  using assms by (auto simp: cache_ok_def id_used_def)

lemma cache_ok_quiet: "cache_ok cfg s w \<Longrightarrow> quiet w w' \<Longrightarrow> cache_ok cfg s w'"
  by (rule cache_ok_mono) (auto simp: quiet_def)

lemma stored_id_used: "uuids_fresh w \<Longrightarrow> i \<in> job_ids (db w) \<Longrightarrow> id_used w i"
  by (auto simp: uuids_fresh_def id_used_def)

lemma sync_cache_ok:
  assumes inv: "store_inv cfg w" and c: "cache_ok cfg s w" and s': "sync_jobs s w = (s', w')"
  shows "cache_ok cfg s' w' \<and> quiet w w'"
proof -
  obtain start w1 where n: "utcnow w = (start, w1)" by fastforce
  note q = quiet_utcnow [OF n]
  let ?js = "list_updated_since (last_sync_at s) (db w)"
  have ok: "jid j = jid j \<and> job_ok j \<and> job_type j = scheduled \<and> spec_derived cfg j \<and> id_used w (jid j)" if "j \<in> set ?js" for j
    using that inv stored_id_used [of w "jid j"]
    by (auto simp: list_updated_since_def store_inv_def db_wf_def specs_derived_def job_ids_def)
  have "cache_ok cfg (fold sync_one ks u) w" if "set ks \<subseteq> set ?js" "cache_ok cfg u w" for ks u
    using that
  proof (induction ks arbitrary: u)
    case (Cons k ks)
    have "cache_ok cfg (sync_one k u) w"
      using Cons.prems ok [of k] by (auto simp: cache_ok_def sync_one_cache)
    then show ?case using Cons by simp
  qed simp
  then have "cache_ok cfg (fold sync_one ?js s) w" using c by simp
  moreover have "s' = (fold sync_one ?js s)\<lparr>last_sync_at := Some (start - seconds 10)\<rparr>" "w' = w1"
    using s' n quietD(1) [OF q] by (simp_all add: sync_jobs_def sync_overlap_seconds_def)
  ultimately show ?thesis using q cache_ok_mono [of cfg "fold sync_one ?js s" w w' s'] by (simp add: quiet_def)
qed

lemma dispatch_due_jobs_store:
  fixes w :: "'q world"
  assumes adv: "croniter_advances cr" and hi: "heap_inv (heap s)" and inv: "store_inv cfg w" and c: "cache_ok cfg s w"
  shows "\<exists>r s' w'. dispatch_due_jobs cr qc s w = Some (r, s', w') \<and> store_inv cfg w' \<and> cache_ok cfg s' w' \<and> heap_inv (heap s')"
proof -
  obtain now w0 where n: "utcnow w = (now, w0)" by fastforce
  note q = quiet_utcnow [OF n]
  let ?P = "\<lambda>(n::nat) s w. store_inv cfg w \<and> cache_ok cfg s w"
  let ?Q = "\<lambda>s w. store_inv cfg w \<and> cache_ok cfg s w \<and> heap_inv (heap s)"
  have "\<exists>r s' w'. dispatch_loop cr qc now 0 s w0 = Some (r, s', w') \<and>
    (case r of Inl err \<Rightarrow> ?Q s' w' | Inr m \<Rightarrow> ?P m s' w' \<and> heap_inv (heap s') \<and> (\<forall>e \<in> set (heap s'). now < fst e))"
  proof (rule dispatch_loop_rule [where P = ?P and Q = ?Q, OF adv hi])
    show "?P 0 s w0" using inv c q by (simp add: store_inv_quiet cache_ok_quiet)
  next
    fix n s and w :: "'q world"
    assume "?P n s w" "heap_inv (heap s)" "heap s \<noteq> []"
    then show "?P n (popped s) w" by (auto simp: popped_mset cache_ok_def)
  next
    fix n s job t fired job' and w w1 :: "'q world"
    assume a: "?P n s w" "heap_inv (heap s)" "heap s \<noteq> []" "job_cache s (snd (heap s ! 0)) = Some job"
      "dispatch_job cr qc job now w = (Inr (fired, job'), w1)"
    then have job: "jid job = snd (heap s ! 0)" "job_ok job" "job_type job = scheduled" "spec_derived cfg job" "id_used w (jid job)"
      by (auto simp: cache_ok_def)
    note D = dispatch_job_store [OF _ job(2-5) a(5)]
    obtain t' where t': "next_fire_at job' = Some t'" using dispatch_job_next [OF adv a(5)] by auto
    have "cache_ok cfg s w1" using a(1) D by (auto intro: cache_ok_mono)
    then show "?P (n + fired) (rescheduled (snd (heap s ! 0)) job' (popped s)) w1"
      using a D job rescheduled_mset(3) [OF popped_mset(2) [OF a(2,3)] t'] popped_mset(3) [OF a(2,3)]
      by (auto simp: cache_ok_def id_used_def)
  next
    fix n s and w w1 :: "'q world"
    assume a: "?P n s w" "heap_inv (heap s)" "heap s \<noteq> []"
      "w1 = w \<or> (\<exists>job err. job_cache s (snd (heap s ! 0)) = Some job \<and> dispatch_job cr qc job now w = (Inl err, w1))"
    have pc: "job_cache (popped s) = job_cache s" using popped_mset(3) [OF a(2,3)] .
    from a(4) show "?Q (popped s) w1"
    proof
      assume "w1 = w"
      then show ?thesis using a popped_mset(2) [OF a(2,3)] cache_ok_mono [OF _ refl order_refl pc] by auto
    next
      assume "\<exists>job err. job_cache s (snd (heap s ! 0)) = Some job \<and> dispatch_job cr qc job now w = (Inl err, w1)"
      then obtain job err where j: "job_cache s (snd (heap s ! 0)) = Some job" "dispatch_job cr qc job now w = (Inl err, w1)"
        by blast
      then have job: "job_ok job" "job_type job = scheduled" "spec_derived cfg job" "id_used w (jid job)"
        using a(1) by (auto simp: cache_ok_def)
      note D = dispatch_job_store [OF _ job j(2)]
      then show ?thesis using a(1) popped_mset(2) [OF a(2,3)] cache_ok_mono [OF _ _ _ pc, of cfg w w1] by auto
    qed
  qed
  then obtain r s' w' where r: "dispatch_loop cr qc now 0 s w0 = Some (r, s', w')"
    "case r of Inl err \<Rightarrow> ?Q s' w' | Inr m \<Rightarrow> ?P m s' w' \<and> heap_inv (heap s') \<and> (\<forall>e \<in> set (heap s'). now < fst e)" by blast
  then have "?Q s' w'" by (cases r) simp_all
  then show ?thesis using r(1) n by (simp add: dispatch_due_jobs_def)
qed

subsection \<open>Rows the sync does not see\<close>

text \<open>
  A deleted job, and a job whose schedule was removed, are not among the rows \<open>list_updated_since\<close> returns, so
  a sync leaves their cached copies alone. The next firing then writes the copy back: a deleted
  job is inserted again, and a job turned into a one-time job becomes scheduled again.
\<close>

lemma sync_keeps_unseen:
  assumes "db_wf (db w)" "\<And>j. j \<in> set (jobs (db w)) \<Longrightarrow> jid j = i \<Longrightarrow> job_type j \<noteq> scheduled"
  shows "job_cache (fst (sync_jobs s w)) i = job_cache s i"
proof -
  obtain start w1 where n: "utcnow w = (start, w1)" by fastforce
  let ?js = "list_updated_since (last_sync_at s) (db w)"
  have "distinct (map jid ?js)"
    using assms(1) by (simp add: db_wf_def keys_ok_def list_updated_since_def distinct_map_filter)
  moreover have "i \<notin> jid ` set ?js" using assms(2) by (auto simp: list_updated_since_def)
  then have "find_row jid i ?js = None" by (simp add: find_row_None_iff)
  ultimately show ?thesis
    using sync_fold_cache [of ?js s i] n quietD(1) [OF quiet_utcnow [OF n]] by (simp add: sync_jobs_def)
qed

lemma dispatch_writes_cached_copy:
  assumes "dispatch_job cr qc job now w = (Inr (n, job'), w')"
  shows "\<exists>j. get_job_row (db w') (jid job) = Some j \<and> job_type j = job_type job \<and> cron_expression j = cron_expression job"
  using assms
proof (cases rule: dispatch_job_cases)
  case (skipped w1 d j2)
  then show ?thesis by (auto simp: advanced_def)
next
  case (fired w1 d j2 i w3 created w4 d' q)
  then have "get_job_row (db w') (jid job) = get_job_row d (jid job)"
    using task_create_SomeD [OF fired(5)] by (simp add: get_job_row_def)
  with fired(1) show ?thesis by (auto simp: advanced_def)
qed simp_all

definition emptied_world :: "mem_queue world" where
  "emptied_world = snd (delete_job ''a'' due_world)"

lemma deleted_job_returns:
  "job_ids (db emptied_world) = {} \<and>
   (case dispatch_due_jobs minutely MemoryQueueClient (fst (sync_jobs due_scheduler emptied_world)) emptied_world of
      Some (Inr n, s', w') \<Rightarrow> map jid (jobs (db w')) = [''a''] \<and> length (tasks (db w')) = 1 | _ \<Rightarrow> False)"
  by (simp add: emptied_world_def delete_job_def job_get_def get_job_row_def due_world_def sample_job_def paused_job_def
      job_delete_def job_ids_def) code_simp

text \<open>
  An exception before the commit of a dispatch loses the firing: the entry is popped, the row and its stamp
  are unchanged, and the next sync finds the cached time equal to the stored one and pushes nothing.
\<close>

lemma failed_dispatch_drops_firing:
  assumes inv: "sched_inv s" and one: "heap s = [(t, i)]" and due: "t \<le> now"
    and job: "job_cache s i = Some job" and err: "dispatch_job cr qc job now w = (Inl e, w1)"
  shows "dispatch_loop cr qc now n s w = Some (Inl e, s\<lparr>heap := []\<rparr>, w1) \<and>
    heap (sync_one job (s\<lparr>heap := []\<rparr>)) = []"
proof -
  obtain t0 where "next_fire_at job = Some t0" "(t0, i) \<in> set (heap s)" using sched_invD(2) [OF inv job] by blast
  with one have t0: "next_fire_at job = Some t" by simp
  have "jid job = i" using sched_invD(1) [OF inv job] .
  moreover have "popped s = s\<lparr>heap := []\<rparr>" using one by (simp add: popped_def heappop_def)
  ultimately show ?thesis using one due job err t0
    by (subst dispatch_loop.simps) (simp add: timestamp_epsilon_def sync_one_def is_new_firing_def Let_def)
qed

text \<open>The pass reads the expired tasks first and then releases each by its key. A worker that finishes late, between
  the two, is overwritten: its success becomes pending again although its message is gone.\<close>

definition late_task :: task where
  "late_task = (new_task ''t'' ''a'' manual 0 0)\<lparr>status := running, locked_by := Some ''w'', locked_until := Some 5, started_at := Some 1\<rparr>"

definition late_database :: database where
  "late_database = \<lparr>jobs = [paused_job], tasks = [late_task], job_dependencies = []\<rparr>"

definition after_late_success :: database where
  "after_late_success = projr (finish_task ''t'' success (Some ''done'') None 8 late_database)"

lemma release_reopens_late_success:
  "map tid (list_expired_running 7 late_database) = [''t'']"
  "map status (tasks after_late_success) = [success]"
  "map status (tasks (snd (release_all (list_expired_running 7 late_database) after_late_success))) = [pending]"
  by code_simp+

end
