(* ===== verification/Dependency_Scheduler.thy ===== *)
theory Dependency_Scheduler
  imports Job_Service
begin

text \<open>
  \<open>app/scheduler/dependency_scheduler.py\<close>. The jobs and their two relationship hops are read once, before
  anything is written; the latest tasks are read once, after the observed tasks were marked. Triggered
  runs go to the normal queue.
\<close>

subsection \<open>Operations\<close>

definition completed_at :: "task \<Rightarrow> time" where
  "completed_at t = (case finished_at t of Some f \<Rightarrow> f | None \<Rightarrow> tcreated_at t)"

definition load_jobs_with_dependencies :: "database \<Rightarrow> uuid list \<Rightarrow> job list" where
  "load_jobs_with_dependencies d ids = filter (\<lambda>j. jid j \<in> set ids) (jobs d)"

text \<open>A dict keeps the position of the first insertion of a key.\<close>

fun insert_keys :: "job list \<Rightarrow> job list \<Rightarrow> job list" where
  "insert_keys acc [] = acc"
| "insert_keys acc (j # js) = insert_keys (if jid j \<in> jid ` set acc then acc else acc @ [j]) js"

definition downstream_jobs :: "database \<Rightarrow> job \<Rightarrow> job list" where
  "downstream_jobs d j = filter (\<lambda>x. jid x \<in> set (downstream_job_ids d (jid j))) (jobs d)"

definition candidates :: "database \<Rightarrow> task list \<Rightarrow> job list" where
  "candidates d observed =
     insert_keys []
       (filter enabled (concat (map (downstream_jobs d) (load_jobs_with_dependencies d (map task_job_id observed)))))"

text \<open>The completion times of the upstream tasks, or no value when some upstream is not in success.\<close>

fun upstream_times :: "(uuid \<Rightarrow> task option) \<Rightarrow> uuid list \<Rightarrow> time list option" where
  "upstream_times latest [] = Some []"
| "upstream_times latest (u # us) =
     (case latest u of
        None \<Rightarrow> None
      | Some t \<Rightarrow>
          if status t \<noteq> success then None
          else map_option (\<lambda>ts. completed_at t # ts) (upstream_times latest us))"

definition ready :: "(uuid \<Rightarrow> task option) \<Rightarrow> uuid list \<Rightarrow> uuid \<Rightarrow> bool" where
  "ready latest ups i =
     (case upstream_times latest ups of
        None \<Rightarrow> False
      | Some [] \<Rightarrow> False
      | Some (t # ts) \<Rightarrow>
          (let ready_at = fold max ts t in
           case latest i of None \<Rightarrow> True | Some own \<Rightarrow> \<not> ready_at \<le> completed_at own))"

definition dispatch_if_ready ::
    "'q queue_client \<Rightarrow> (uuid \<Rightarrow> task option) \<Rightarrow> uuid list \<Rightarrow> job \<Rightarrow> 'q world \<Rightarrow> bool result \<times> 'q world" where
  "dispatch_if_ready qc latest ups job w =
     (if \<not> ready latest ups (jid job) then (Inr False, w)
      else
        (let (i, w1) = uuid4 w; (now, w2) = utcnow w1 in
         case task_create (new_task i (jid job) dependency 0 now) (db w2) of
           Inl e \<Rightarrow> (Inl e, w2)
         | Inr d \<Rightarrow>
             (let w3 = w2\<lparr>db := d\<rparr> in
              case send_task qc i (normal_queue w3) of
                Inl e \<Rightarrow> (Inl e, w3)
              | Inr q \<Rightarrow> (Inr True, w3\<lparr>normal_queue := q\<rparr>))))"

fun dispatch_ready_jobs ::
    "'q queue_client \<Rightarrow> (uuid \<Rightarrow> task option) \<Rightarrow> (uuid \<Rightarrow> uuid list) \<Rightarrow> job list \<Rightarrow> nat \<Rightarrow> 'q world \<Rightarrow> nat result \<times> 'q world" where
  "dispatch_ready_jobs qc latest ups [] triggered w = (Inr triggered, w)"
| "dispatch_ready_jobs qc latest ups (j # js) triggered w =
     (case dispatch_if_ready qc latest (ups (jid j)) j w of
        (Inl e, w') \<Rightarrow> (Inl e, w')
      | (Inr b, w') \<Rightarrow> dispatch_ready_jobs qc latest ups js (if b then Suc triggered else triggered) w')"

fun mark_all_processed :: "task list \<Rightarrow> database \<Rightarrow> unit result \<times> database" where
  "mark_all_processed [] d = (Inr (), d)"
| "mark_all_processed (t # ts) d =
     (case mark_processed_for_chaining (tid t) d of Inl e \<Rightarrow> (Inl e, d) | Inr d' \<Rightarrow> mark_all_processed ts d')"

definition chaining_limit :: nat where
  "chaining_limit = 100"

definition trigger_dependent_jobs :: "'q queue_client \<Rightarrow> 'q world \<Rightarrow> nat result \<times> 'q world" where
  "trigger_dependent_jobs qc w =
     (let observed = get_unprocessed_successful_tasks chaining_limit (db w) in
      if observed = [] then (Inr 0, w)
      else
        (let cands = candidates (db w) observed; ups = upstream_job_ids (db w) in
         case mark_all_processed observed (db w) of
           (Inl e, d) \<Rightarrow> (Inl e, w\<lparr>db := d\<rparr>)
         | (Inr u, d) \<Rightarrow>
             (let w1 = w\<lparr>db := d\<rparr> in
              if cands = [] then (Inr 0, w1)
              else
                (let latest = latest_task_per_job (map jid cands @ concat (map (\<lambda>j. ups (jid j)) cands)) d
                 in dispatch_ready_jobs qc latest ups cands 0 w1))))"

subsection \<open>Candidates\<close>

lemma insert_keys_set:
  assumes "\<And>x y. x \<in> set acc \<union> set js \<Longrightarrow> y \<in> set acc \<union> set js \<Longrightarrow> jid x = jid y \<Longrightarrow> x = y"
  shows "set (insert_keys acc js) = set acc \<union> set js"
  using assms
proof (induction acc js rule: insert_keys.induct)
  case (2 acc j js)
  let ?acc = "if jid j \<in> jid ` set acc then acc else acc @ [j]"
  have "j \<in> set ?acc"
  proof (cases "jid j \<in> jid ` set acc")
    case True
    then obtain x where x: "x \<in> set acc" "jid x = jid j" by (metis imageE)
    have "x = j" by (rule 2(2)) (use x in auto)
    with x True show ?thesis by simp
  qed simp
  then have acc: "set ?acc = insert j (set acc)" by (auto split: if_splits)
  have "set (insert_keys ?acc js) = set ?acc \<union> set js"
    by (rule 2(1)) (use 2(2) acc in auto)
  then show ?case using acc by simp
qed simp

lemma insert_keys_distinct: "distinct (map jid acc) \<Longrightarrow> distinct (map jid (insert_keys acc js))"
  by (induction acc js rule: insert_keys.induct) auto

lemma candidates_distinct: "distinct (map jid (candidates d ts))"
  by (simp add: candidates_def insert_keys_distinct)

lemma in_downstream:
  "x \<in> set (concat (map (downstream_jobs d) (load_jobs_with_dependencies d ids))) \<longleftrightarrow>
     x \<in> set (jobs d) \<and> (\<exists>i \<in> job_ids d \<inter> set ids. (i, jid x) \<in> set (job_dependencies d))"
proof -
  have "x \<in> set (downstream_jobs d j) \<longleftrightarrow> x \<in> set (jobs d) \<and> (jid j, jid x) \<in> set (job_dependencies d)" for j
    by (force simp: downstream_jobs_def downstream_job_ids_def)
  then show ?thesis by (auto simp: load_jobs_with_dependencies_def job_ids_def)
qed

lemma candidates_set:
  assumes "keys_ok d"
  shows "set (candidates d ts) =
    {x \<in> set (jobs d). enabled x \<and> (\<exists>t \<in> set ts. (task_job_id t, jid x) \<in> set (job_dependencies d) \<and> task_job_id t \<in> job_ids d)}"
proof -
  let ?xs = "filter enabled (concat (map (downstream_jobs d) (load_jobs_with_dependencies d (map task_job_id ts))))"
  have "inj_on jid (set (jobs d))" using assms by (simp add: keys_ok_def distinct_map)
  moreover have "set ?xs \<subseteq> set (jobs d)" using in_downstream [of _ d "map task_job_id ts"] by (metis filter_is_subset subset_iff)
  ultimately have "set (candidates d ts) = set ?xs"
    unfolding candidates_def by (subst insert_keys_set) (auto dest: inj_onD)
  also have "\<dots> = {x \<in> set (jobs d). enabled x \<and>
      (\<exists>t \<in> set ts. (task_job_id t, jid x) \<in> set (job_dependencies d) \<and> task_job_id t \<in> job_ids d)}"
    unfolding set_filter in_downstream by auto
  finally show ?thesis .
qed

lemma mark_all_eq:
  assumes "tid ` set ts \<subseteq> task_ids d"
  shows "mark_all_processed ts d =
    (Inr (), d\<lparr>tasks := map (\<lambda>t. if tid t \<in> tid ` set ts then t\<lparr>processed_for_chaining := True\<rparr> else t) (tasks d)\<rparr>)"
  using assms
proof (induction ts arbitrary: d)
  case (Cons t ts)
  let ?d = "d\<lparr>tasks := update_row tid (tid t) (\<lambda>r. r\<lparr>processed_for_chaining := True\<rparr>) (tasks d)\<rparr>"
  have "task_ids ?d = task_ids d" by (simp add: task_ids_def keys_update_row)
  with Cons have "mark_all_processed (t # ts) d =
      (Inr (), ?d\<lparr>tasks := map (\<lambda>u. if tid u \<in> tid ` set ts then u\<lparr>processed_for_chaining := True\<rparr> else u) (tasks ?d)\<rparr>)"
    by (simp add: mark_processed_for_chaining_def task_write_def)
  moreover have "map (\<lambda>u. if tid u \<in> tid ` set ts then u\<lparr>processed_for_chaining := True\<rparr> else u) (tasks ?d) =
      map (\<lambda>u. if tid u \<in> tid ` set (t # ts) then u\<lparr>processed_for_chaining := True\<rparr> else u) (tasks d)"
    by (simp add: update_row_def)
  ultimately show ?case by simp
qed simp

subsection \<open>Readiness\<close>

text \<open>What a downstream job waits for: it has upstreams, the newest task of each of them succeeded, and its own
  newest task completed before the last of those.\<close>

definition chain_ready :: "database \<Rightarrow> uuid \<Rightarrow> bool" where
  "chain_ready d i \<longleftrightarrow>
     upstream_job_ids d i \<noteq> [] \<and>
     (\<forall>u \<in> set (upstream_job_ids d i). \<exists>t. latest_task d u = Some t \<and> status t = success) \<and>
     (\<forall>own. latest_task d i = Some own \<longrightarrow>
        (\<exists>u \<in> set (upstream_job_ids d i). \<exists>t. latest_task d u = Some t \<and> completed_at own < completed_at t))"

lemma upstream_times_eq:
  "upstream_times latest us =
     (if \<forall>u \<in> set us. \<exists>t. latest u = Some t \<and> status t = success
      then Some (map (\<lambda>u. completed_at (the (latest u))) us) else None)"
  by (induction us) (auto split: option.splits)

lemma fold_max_le: "fold max ts (t::int) \<le> x \<longleftrightarrow> (\<forall>y \<in> insert t (set ts). y \<le> x)"
  by (induction ts arbitrary: t) auto

lemma ready_iff:
  "ready latest us i \<longleftrightarrow>
     us \<noteq> [] \<and> (\<forall>u \<in> set us. \<exists>t. latest u = Some t \<and> status t = success) \<and>
     (\<forall>own. latest i = Some own \<longrightarrow> (\<exists>u \<in> set us. completed_at own < completed_at (the (latest u))))"
proof (cases "\<forall>u \<in> set us. \<exists>t. latest u = Some t \<and> status t = success")
  case True
  show ?thesis
  proof (cases us)
    case (Cons u vs)
    have "\<not> fold max (map (\<lambda>u. completed_at (the (latest u))) vs) (completed_at (the (latest u))) \<le> completed_at own \<longleftrightarrow>
        (\<exists>x \<in> set us. completed_at own < completed_at (the (latest x)))" for own
      using Cons by (auto simp: fold_max_le not_le)
    then show ?thesis using True Cons
      by (simp add: ready_def upstream_times_eq Let_def del: ex_simps split: option.split)
  qed (simp add: ready_def)
next
  case False
  then show ?thesis by (simp add: ready_def upstream_times_eq) blast
qed

lemma insort_key_map: "insort_key k (g x) (map g xs) = map g (insort_key (\<lambda>y. k (g y)) x xs)"
  by (induction xs) auto

lemma sort_key_map_eq: "sort_key k (map g xs) = map g (sort_key (\<lambda>y. k (g y)) xs)"
  by (induction xs) (simp_all add: insort_key_map)

lemma latest_task_map:
  assumes "\<And>t. task_job_id (f t) = task_job_id t" "\<And>t. tcreated_at (f t) = tcreated_at t"
  shows "latest_task (d\<lparr>tasks := map f (tasks d)\<rparr>) j = map_option f (latest_task d j)"
proof -
  have "filter (\<lambda>t. task_job_id t = j) (map f (tasks d)) = map f (filter (\<lambda>t. task_job_id t = j) (tasks d))"
    using assms(1) by (simp add: filter_map o_def)
  then show ?thesis using assms(2)
    by (simp add: latest_task_def sort_key_map_eq split: list.split)
qed

text \<open>Reading the latest tasks after the marking makes no difference to readiness.\<close>

lemma ready_chain:
  assumes "insert i (set (upstream_job_ids d i)) \<subseteq> set ids"
  shows "ready (latest_task_per_job ids
      (d\<lparr>tasks := map (\<lambda>t. if tid t \<in> A then t\<lparr>processed_for_chaining := True\<rparr> else t) (tasks d)\<rparr>))
    (upstream_job_ids d i) i \<longleftrightarrow> chain_ready d i"
proof -
  let ?f = "\<lambda>t. if tid t \<in> A then t\<lparr>processed_for_chaining := True\<rparr> else t"
  let ?U = "set (upstream_job_ids d i)"
  define l where "l = latest_task_per_job ids (d\<lparr>tasks := map ?f (tasks d)\<rparr>)"
  have l: "l u = map_option ?f (latest_task d u)" if "u \<in> insert i ?U" for u
  proof -
    have "u \<in> set ids" using that assms by blast
    then show ?thesis by (simp add: l_def latest_task_per_job_def latest_task_map)
  qed
  have f: "status (?f t) = status t" "completed_at (?f t) = completed_at t" for t
    by (simp_all add: completed_at_def split: option.split)
  have "(\<exists>t. l u = Some t \<and> status t = success) \<longleftrightarrow> (\<exists>t. latest_task d u = Some t \<and> status t = success)"
    if "u \<in> ?U" for u using l [of u] that f(1) by (cases "latest_task d u") auto
  then have all: "(\<forall>u \<in> ?U. \<exists>t. l u = Some t \<and> status t = success) \<longleftrightarrow>
      (\<forall>u \<in> ?U. \<exists>t. latest_task d u = Some t \<and> status t = success)" by blast
  have own: "(\<forall>own. l i = Some own \<longrightarrow> P (completed_at own)) \<longleftrightarrow>
      (\<forall>own. latest_task d i = Some own \<longrightarrow> P (completed_at own))" for P
    using l [of i] f(2) by (cases "latest_task d i") auto
  have late: "(\<exists>u \<in> ?U. x < completed_at (the (l u))) \<longleftrightarrow> (\<exists>u \<in> ?U. \<exists>t. latest_task d u = Some t \<and> x < completed_at t)"
    if "\<forall>u \<in> ?U. \<exists>t. latest_task d u = Some t \<and> status t = success" for x
  proof (rule bex_cong [OF refl])
    fix u assume u: "u \<in> ?U"
    with that obtain t where t: "latest_task d u = Some t" by blast
    with l [of u] u have "l u = Some (?f t)" by simp
    with t f(2) show "x < completed_at (the (l u)) \<longleftrightarrow> (\<exists>t. latest_task d u = Some t \<and> x < completed_at t)" by simp
  qed
  show ?thesis unfolding l_def [symmetric] ready_iff chain_ready_def all
    using own [of "\<lambda>x. \<exists>u \<in> ?U. x < completed_at (the (l u))"] late by auto
qed

subsection \<open>A pass\<close>

context reliable_queue
begin

lemma dispatch_if_ready_run:
  assumes inv: "store_inv cfg w" and j: "jid job \<in> job_ids (db w)" and rd: "ready latest us (jid job)"
    and d: "dispatch_if_ready client latest us job w = (r, w')"
  shows "\<exists>x. r = Inr True \<and> store_inv cfg w' \<and> jobs (db w') = jobs (db w) \<and> tasks (db w') = tasks (db w) @ [x] \<and>
    x = new_task (tid x) (jid job) dependency 0 (tcreated_at x) \<and>
    waiting (normal_queue w') = add_mset (task_body (tid x)) (waiting (normal_queue w))"
proof -
  obtain i w1 where u: "uuid4 w = (i, w1)" by fastforce
  obtain now w2 where n: "utcnow w1 = (now, w2)" by fastforce
  have q: "quiet w w2" using quiet_trans [OF quiet_uuid4 [OF u] quiet_utcnow [OF n]] .
  let ?t = "new_task i (jid job) dependency 0 now"
  obtain d' where c: "task_create ?t (db w) = Inr d'"
    using uuid4_new [OF _ u] inv j by (auto simp: task_create_def store_inv_def)
  obtain q' where s: "send_task client i (normal_queue w) = Inr q'" using send_total by blast
  have "dispatch_if_ready client latest us job w = (Inr True, w2\<lparr>db := d', normal_queue := q'\<rparr>)"
    using rd u n c s quietD [OF q] by (simp add: dispatch_if_ready_def)
  then have r: "r = Inr True" "w' = w2\<lparr>db := d', normal_queue := q'\<rparr>" using d by simp_all
  have "store_inv cfg w'" using task_create_store [OF inv u quiet_utcnow [OF n], of ?t w'] c r by simp
  then show ?thesis using r task_create_SomeD [OF c] send_waiting [OF s] by (intro exI [of _ ?t]) simp
qed

lemma dispatch_ready_jobs_run:
  assumes "store_inv cfg w" "jid ` set js \<subseteq> job_ids (db w)"
    "dispatch_ready_jobs client latest us js n w = (r, w')"
  shows "\<exists>new. r = Inr (n + length new) \<and> store_inv cfg w' \<and> jobs (db w') = jobs (db w) \<and>
    tasks (db w') = tasks (db w) @ new \<and>
    map task_job_id new = map jid (filter (\<lambda>j. ready latest (us (jid j)) (jid j)) js) \<and>
    (\<forall>x \<in> set new. x = new_task (tid x) (task_job_id x) dependency 0 (tcreated_at x)) \<and>
    waiting (normal_queue w') = waiting (normal_queue w) + mset (map (\<lambda>x. task_body (tid x)) new)"
  using assms
proof (induction js arbitrary: n w)
  case (Cons j js)
  obtain r1 w1 where d: "dispatch_if_ready client latest (us (jid j)) j w = (r1, w1)" by fastforce
  show ?case
  proof (cases "ready latest (us (jid j)) (jid j)")
    case False
    then have "r1 = Inr False" "w1 = w" using d by (auto simp: dispatch_if_ready_def)
    then have "dispatch_ready_jobs client latest us js n w = (r, w')" using Cons.prems(3) d by simp
    from Cons.IH [OF Cons.prems(1) _ this] Cons.prems(2) False show ?thesis by simp
  next
    case True
    from dispatch_if_ready_run [OF Cons.prems(1) _ True d] Cons.prems(2) obtain x where
      x: "r1 = Inr True" "store_inv cfg w1" "jobs (db w1) = jobs (db w)" "tasks (db w1) = tasks (db w) @ [x]"
        "x = new_task (tid x) (jid j) dependency 0 (tcreated_at x)"
        "waiting (normal_queue w1) = add_mset (task_body (tid x)) (waiting (normal_queue w))" by auto
    have "dispatch_ready_jobs client latest us js (Suc n) w1 = (r, w')" using Cons.prems(3) d x(1) by simp
    from Cons.IH [OF x(2) _ this] Cons.prems(2) x(3) obtain new where new:
      "r = Inr (Suc n + length new)" "store_inv cfg w'" "jobs (db w') = jobs (db w1)"
      "tasks (db w') = tasks (db w1) @ new"
      "map task_job_id new = map jid (filter (\<lambda>j. ready latest (us (jid j)) (jid j)) js)"
      "\<forall>x \<in> set new. x = new_task (tid x) (task_job_id x) dependency 0 (tcreated_at x)"
      "waiting (normal_queue w') = waiting (normal_queue w1) + mset (map (\<lambda>x. task_body (tid x)) new)"
      by (auto simp: job_ids_def)
    have xj: "task_job_id x = jid j" using x(5) by (metis new_task_sel(2))
    then have "\<forall>y \<in> set (x # new). y = new_task (tid y) (task_job_id y) dependency 0 (tcreated_at y)" using new(6) x(5) by auto
    then show ?thesis using new x True xj by (intro exI [of _ "x # new"]) simp
  qed
qed simp

end

text \<open>The rows a pass observed, flagged.\<close>

definition flagged :: "task list \<Rightarrow> task list \<Rightarrow> task list" where
  "flagged observed ts = map (\<lambda>t. if tid t \<in> tid ` set observed then t\<lparr>processed_for_chaining := True\<rparr> else t) ts"

lemma flagged_Nil [simp]: "flagged [] ts = ts"
  by (simp add: flagged_def)

lemma flagged_store:
  assumes inv: "store_inv cfg w"
  shows "store_inv cfg (w\<lparr>db := (db w)\<lparr>tasks := flagged ob (tasks (db w))\<rparr>\<rparr>)"
proof -
  define T where "T = flagged ob (tasks (db w))"
  have keys: "map tid T = map tid (tasks (db w))" "map task_job_id T = map task_job_id (tasks (db w))"
    by (simp_all add: T_def flagged_def)
  have ok: "\<forall>t \<in> set T. task_ok t" using inv by (auto simp: T_def flagged_def store_inv_def db_wf_def task_ok_def)
  have sets: "tid ` set T = tid ` set (tasks (db w))" "task_job_id ` set T = task_job_id ` set (tasks (db w))"
    using keys by (metis list.set_map)+
  have "db_wf ((db w)\<lparr>tasks := T\<rparr>)"
    using inv keys(1) ok sets(2) by (simp add: store_inv_def db_wf_def keys_ok_def fks_ok_def job_ids_def)
  moreover have "uuids_fresh (w\<lparr>db := (db w)\<lparr>tasks := T\<rparr>\<rparr>)"
    by (rule uuids_fresh_sub [of w]) (use inv sets(1) in \<open>auto simp: store_inv_def job_ids_def task_ids_def\<close>)
  ultimately show ?thesis using inv by (simp add: T_def store_inv_def dag_def specs_derived_def)
qed

text \<open>Whatever the queue does, a pass keeps the store consistent.\<close>

lemma dispatch_if_ready_store:
  assumes inv: "store_inv cfg w" and d: "dispatch_if_ready qc latest ups j w = (r, w')"
  shows "store_inv cfg w' \<and> draws w w'"
proof (cases "ready latest ups (jid j)")
  case True
  obtain i w1 now w2 where u: "uuid4 w = (i, w1)" "utcnow w1 = (now, w2)" by fastforce
  note q = quiet_utcnow [OF u(2)]
  have w1: "db w1 = db w" "draws w w1" using u(1) by (auto simp: draws_def uuid4_def)
  then have w2: "db w2 = db w" "draws w w2" using q by (auto simp: quiet_def draws_def)
  show ?thesis
  proof (cases "task_create (new_task i (jid j) dependency 0 now) (db w2)")
    case (Inl e)
    then have "w' = w2" using d True u by (simp add: dispatch_if_ready_def)
    moreover have "quiet w w2" using quiet_trans [OF quiet_uuid4 [OF u(1)] q] .
    ultimately show ?thesis using inv w2 store_inv_quiet by blast
  next
    case (Inr dd)
    then have w': "db w' = dd" "uuid_source w' = uuid_source w2" "uuids_drawn w' = uuids_drawn w2"
      using d True u by (auto simp: dispatch_if_ready_def Let_def split: sum.splits)
    have "store_inv cfg w'"
      by (rule task_create_store [OF inv u(1) q, where t = "new_task i (jid j) dependency 0 now"]) (use Inr w' w2 in simp_all)
    then show ?thesis using w' w2 by (simp add: draws_def)
  qed
qed (use inv d in \<open>auto simp: dispatch_if_ready_def draws_def\<close>)

lemma dispatch_ready_jobs_store:
  "store_inv cfg w \<Longrightarrow> dispatch_ready_jobs qc latest ups js n w = (r, w') \<Longrightarrow> store_inv cfg w' \<and> draws w w'"
proof (induction js arbitrary: n w)
  case (Cons j js)
  obtain r1 w1 where d: "dispatch_if_ready qc latest (ups (jid j)) j w = (r1, w1)" by fastforce
  note s1 = dispatch_if_ready_store [OF Cons.prems(1) d]
  show ?case
  proof (cases r1)
    case (Inl e)
    with d s1 Cons.prems(2) show ?thesis by simp
  next
    case (Inr b)
    with d Cons.prems(2) have "dispatch_ready_jobs qc latest ups js (if b then Suc n else n) w1 = (r, w')" by simp
    from Cons.IH [OF s1 [THEN conjunct1] this] s1 show ?thesis by (auto simp: draws_def)
  qed
qed (simp add: draws_def)

lemma trigger_dependent_jobs_store:
  assumes inv: "store_inv cfg w" and t: "trigger_dependent_jobs qc w = (r, w')"
  shows "store_inv cfg w' \<and> draws w w'"
proof -
  define ob where "ob = get_unprocessed_successful_tasks chaining_limit (db w)"
  have "tid ` set ob \<subseteq> task_ids (db w)" by (auto simp: ob_def task_ids_def dest: unprocessed_in)
  then have mark: "mark_all_processed ob (db w) = (Inr (), (db w)\<lparr>tasks := flagged ob (tasks (db w))\<rparr>)"
    using mark_all_eq by (simp add: flagged_def)
  let ?w1 = "w\<lparr>db := (db w)\<lparr>tasks := flagged ob (tasks (db w))\<rparr>\<rparr>"
  have inv1: "store_inv cfg ?w1" by (rule flagged_store [OF inv])
  have "w' = w \<or> w' = ?w1 \<or> (\<exists>l c. dispatch_ready_jobs qc l (upstream_job_ids (db w)) c 0 ?w1 = (r, w'))"
    using t mark by (auto simp: trigger_dependent_jobs_def Let_def ob_def [symmetric] split: if_splits)
  moreover have "draws w ?w1" by (simp add: draws_def)
  ultimately show ?thesis using inv inv1 dispatch_ready_jobs_store [OF inv1] by (auto simp: draws_def)
qed

lemma candidates_enabled:
  assumes "db_wf d"
  shows "set (candidates d ts) =
    {x \<in> set (jobs d). enabled x \<and> (\<exists>t \<in> set ts. (task_job_id t, jid x) \<in> set (job_dependencies d))}"
proof -
  have wf: "keys_ok d" "fst ` set (job_dependencies d) \<subseteq> job_ids d" using assms by (simp_all add: db_wf_def fks_ok_def)
  then have "a \<in> job_ids d" if "(a, b) \<in> set (job_dependencies d)" for a b using that by (metis fst_conv image_eqI subsetD)
  then show ?thesis unfolding candidates_set [OF wf(1)] by blast
qed

text \<open>(C13) What a pass over finished tasks triggers, with sends that succeed. The observed successes are flagged;
  exactly one pending task, and one message on the normal queue, is added for each enabled job that is
  directly downstream of an observed success and ready: all its upstreams have success as their newest
  outcome and its own newest run completed before the last of them. A job below several of the observed
  successes still gets one run, and every other job gets none.\<close>

theorem trigger_dependent_exact:
  assumes inv: "store_inv cfg w" and t: "trigger_dependent_jobs MemoryQueueClient w = (r, w')"
    and ob: "observed = get_unprocessed_successful_tasks 100 (db w)"
  shows "\<exists>new. r = Inr (length new) \<and> store_inv cfg w' \<and> jobs (db w') = jobs (db w) \<and>
    tasks (db w') = flagged observed (tasks (db w)) @ new \<and> distinct (map task_job_id new) \<and>
    (\<forall>x \<in> set new. x = new_task (tid x) (task_job_id x) dependency 0 (tcreated_at x)) \<and>
    task_job_id ` set new =
      {jid j | j. j \<in> set (jobs (db w)) \<and> enabled j \<and>
         (\<exists>t \<in> set observed. (task_job_id t, jid j) \<in> set (job_dependencies (db w))) \<and> chain_ready (db w) (jid j)} \<and>
    queued (normal_queue w') = queued (normal_queue w) + mset (map (\<lambda>x. task_body (tid x)) new)"
proof -
  let ?d = "db w" and ?d1 = "(db w)\<lparr>tasks := flagged observed (tasks (db w))\<rparr>"
  let ?w1 = "w\<lparr>db := ?d1\<rparr>"
  let ?c = "candidates ?d observed" and ?ups = "upstream_job_ids ?d"
  let ?l = "latest_task_per_job (map jid ?c @ concat (map (\<lambda>j. ?ups (jid j)) ?c)) ?d1"
  have wf: "db_wf ?d" using inv by (simp add: store_inv_def)
  have "set observed \<subseteq> set (tasks ?d)" unfolding ob by (blast dest: unprocessed_in)
  then have sub: "tid ` set observed \<subseteq> task_ids ?d" by (auto simp: task_ids_def)
  have mark: "mark_all_processed observed ?d = (Inr (), ?d1)" using mark_all_eq [OF sub] by (simp add: flagged_def)
  have inv1: "store_inv cfg ?w1" by (rule flagged_store [OF inv])
  note cset = candidates_enabled [OF wf, of observed]
  have rdy: "ready ?l (?ups (jid j)) (jid j) \<longleftrightarrow> chain_ready ?d (jid j)" if "j \<in> set ?c" for j
    unfolding flagged_def by (rule ready_chain) (use that in auto)
  have run: "dispatch_ready_jobs MemoryQueueClient ?l ?ups ?c 0 ?w1 = (r, w')"
    if "observed \<noteq> []" "?c \<noteq> []"
    using t that mark ob by (simp add: trigger_dependent_jobs_def chaining_limit_def Let_def)
  have "\<exists>new. r = Inr (length new) \<and> store_inv cfg w' \<and> jobs (db w') = jobs ?d \<and>
    tasks (db w') = flagged observed (tasks ?d) @ new \<and>
    map task_job_id new = map jid (filter (\<lambda>j. ready ?l (?ups (jid j)) (jid j)) ?c) \<and>
    (\<forall>x \<in> set new. x = new_task (tid x) (task_job_id x) dependency 0 (tcreated_at x)) \<and>
    queued (normal_queue w') = queued (normal_queue w) + mset (map (\<lambda>x. task_body (tid x)) new)"
  proof (cases "observed = [] \<or> ?c = []")
    case True
    then have c: "?c = []" by (auto simp: candidates_def load_jobs_with_dependencies_def)
    have "r = Inr 0 \<and> w' = (if observed = [] then w else ?w1)"
      using t mark ob c by (auto simp: trigger_dependent_jobs_def chaining_limit_def Let_def split: if_splits)
    then show ?thesis using inv inv1 c by (intro exI [of _ "[]"]) auto
  next
    case False
    have "jid ` set ?c \<subseteq> job_ids (db ?w1)" using cset by (auto simp: job_ids_def)
    from memq.dispatch_ready_jobs_run [OF inv1 this run] False show ?thesis by simp
  qed
  then obtain new where new: "r = Inr (length new)" "store_inv cfg w'" "jobs (db w') = jobs ?d"
    "tasks (db w') = flagged observed (tasks ?d) @ new"
    "map task_job_id new = map jid (filter (\<lambda>j. ready ?l (?ups (jid j)) (jid j)) ?c)"
    "\<forall>x \<in> set new. x = new_task (tid x) (task_job_id x) dependency 0 (tcreated_at x)"
    "queued (normal_queue w') = queued (normal_queue w) + mset (map (\<lambda>x. task_body (tid x)) new)" by blast
  have "distinct (map task_job_id new)" unfolding new(5) using candidates_distinct by (simp add: distinct_map_filter)
  moreover have "task_job_id ` set new = jid ` {j \<in> set ?c. chain_ready ?d (jid j)}"
    using arg_cong [OF new(5), of set] rdy by auto
  moreover have "\<dots> = {jid j | j. j \<in> set (jobs ?d) \<and> enabled j \<and>
         (\<exists>t \<in> set observed. (task_job_id t, jid j) \<in> set (job_dependencies ?d)) \<and> chain_ready ?d (jid j)}"
    using cset by auto
  ultimately show ?thesis using new by (intro exI [of _ new]) simp
qed

definition upstream_done :: task where
  "upstream_done = (new_task ''t'' ''a'' manual 0 0)\<lparr>status := success, started_at := Some 1, finished_at := Some 2\<rparr>"

definition chain_world :: "mem_queue world" where
  "chain_world = paused_world\<lparr>uuids_drawn := 2, db := \<lparr>jobs = [paused_job, paused_job\<lparr>jid := ''aa'', name := ''after'', enabled := True\<rparr>],
     tasks = [upstream_done], job_dependencies = [(''a'', ''aa'')]\<rparr>\<rparr>"

lemma chain_store_inv: "store_inv default_settings chain_world"
proof -
  have "db_wf (db chain_world)"
    by (simp add: chain_world_def db_wf_def keys_ok_def fks_ok_def job_ids_def paused_job_def job_ok_def task_ok_def
        upstream_done_def new_task_def)
  moreover have "uuids_fresh chain_world"
  proof -
    have "replicate (Suc n) (CHR ''a'') \<noteq> ''a''" "replicate (Suc n) (CHR ''a'') \<noteq> ''aa''" if "2 \<le> n" for n
      using that by (auto dest!: arg_cong [where f = length])
    then show ?thesis
      using inj_replicate
      by (auto simp: uuids_fresh_def chain_world_def paused_world_def sample_world_def initial_world_def job_ids_def
          task_ids_def paused_job_def upstream_done_def)
  qed
  moreover have "dag (db chain_world)" 
    by (simp add: dag_def chain_world_def acyclic_insert) (simp add: acyclic_def)
  moreover have "spec_derived default_settings (paused_job\<lparr>jid := ''aa'', name := ''after'', enabled := True\<rparr>)"
    using paused_spec by (simp add: spec_derived_iff)
  ultimately show ?thesis using paused_spec by (simp add: store_inv_def specs_derived_def chain_world_def)
qed

lemma chain_world_observed: "get_unprocessed_successful_tasks 100 (db chain_world) = [upstream_done]"
  by code_simp

theorem trigger_dependent_exact_witness:
  "\<exists>w' x. trigger_dependent_jobs MemoryQueueClient chain_world = (Inr 1, w') \<and> task_job_id x = ''aa'' \<and> x \<in> set (tasks (db w'))"
proof -
  obtain r w' where t: "trigger_dependent_jobs MemoryQueueClient chain_world = (r, w')" by fastforce
  obtain new where new: "tasks (db w') = flagged [upstream_done] (tasks (db chain_world)) @ new"
    "task_job_id ` set new =
      {jid j | j. j \<in> set (jobs (db chain_world)) \<and> enabled j \<and>
         (\<exists>t \<in> set [upstream_done]. (task_job_id t, jid j) \<in> set (job_dependencies (db chain_world))) \<and>
         chain_ready (db chain_world) (jid j)}"
    using trigger_dependent_exact [OF chain_store_inv t chain_world_observed [symmetric]] by blast
  have "chain_ready (db chain_world) ''aa''"
    by (simp add: chain_ready_def upstream_job_ids_def chain_world_def latest_task_def upstream_done_def)
  then have "''aa'' \<in> task_job_id ` set new" unfolding new(2)
    by (auto simp: chain_world_def upstream_done_def intro!: exI [of _ "paused_job\<lparr>jid := ''aa'', name := ''after'', enabled := True\<rparr>"])
  then obtain x where "x \<in> set new" "task_job_id x = ''aa''" by (metis imageE)
  moreover have "fst (trigger_dependent_jobs MemoryQueueClient chain_world) = Inr 1" by code_simp
  ultimately show ?thesis using t new(1) by auto
qed

text \<open>Chaining is idempotent: once a pass has handled all the successes it found, a second pass right after it
  triggers nothing and changes nothing.\<close>

lemma trigger_twice_is_once:
  assumes inv: "store_inv cfg w" and t: "trigger_dependent_jobs MemoryQueueClient w = (r, w')"
    and few: "length (filter (\<lambda>t. status t = success \<and> \<not> processed_for_chaining t) (tasks (db w))) \<le> 100"
  shows "trigger_dependent_jobs qc w' = (Inr 0, w')"
proof -
  let ?p = "\<lambda>t. status t = success \<and> \<not> processed_for_chaining t"
  let ?ob = "get_unprocessed_successful_tasks 100 (db w)"
  have "set ?ob = set (sort_key tcreated_at (filter ?p (tasks (db w))))"
    using few by (simp add: get_unprocessed_successful_tasks_def)
  then have ob: "set ?ob = set (filter ?p (tasks (db w)))" by simp
  obtain new where new: "tasks (db w') = flagged ?ob (tasks (db w)) @ new"
    "\<forall>x \<in> set new. x = new_task (tid x) (task_job_id x) dependency 0 (tcreated_at x)"
    using trigger_dependent_exact [OF inv t refl] by blast
  have "\<not> ?p t" if "t \<in> set (tasks (db w'))" for t
  proof (cases "t \<in> set new")
    case True
    then have "status t = pending" using new(2) by (metis new_task_sel(3))
    then show ?thesis by simp
  next
    case False
    then have "t \<in> set (flagged ?ob (tasks (db w)))" using that new(1) by simp
    then obtain u where u: "u \<in> set (tasks (db w))" "t = (if tid u \<in> tid ` set ?ob then u\<lparr>processed_for_chaining := True\<rparr> else u)"
      unfolding flagged_def set_map by (rule imageE)
    show ?thesis
    proof (cases "?p u")
      case True
      then have "u \<in> set ?ob" using ob u(1) by simp
      then show ?thesis using u(2) by simp
    qed (use u(2) in auto)
  qed
  then have "filter ?p (tasks (db w')) = []" by (simp add: filter_empty_conv)
  then have "get_unprocessed_successful_tasks chaining_limit (db w') = []"
    by (simp add: get_unprocessed_successful_tasks_def)
  then show ?thesis by (simp add: trigger_dependent_jobs_def)
qed

lemma trigger_twice_is_once_example:
  "fst (trigger_dependent_jobs MemoryQueueClient (snd (trigger_dependent_jobs MemoryQueueClient chain_world))) = Inr 0"
proof -
  obtain r w' where t: "trigger_dependent_jobs MemoryQueueClient chain_world = (r, w')" by fastforce
  have "length (filter (\<lambda>t. status t = success \<and> \<not> processed_for_chaining t) (tasks (db chain_world))) \<le> 100"
    by (simp add: chain_world_def)
  from trigger_twice_is_once [OF chain_store_inv t this] t show ?thesis by simp
qed

text \<open>
  The guard compares completion times, so a downstream run that was already under way when its upstream
  completed, and that completed later, counts as a run after it: the new completion is not chained.
\<close>

definition overlap_world :: "mem_queue world" where
  "overlap_world = chain_world\<lparr>db := (db chain_world)\<lparr>tasks := [upstream_done,
     (new_task ''u'' ''aa'' manual 0 0)\<lparr>status := success, started_at := Some 1, finished_at := Some 3, processed_for_chaining := True\<rparr>]\<rparr>\<rparr>"

lemma overlapping_run_swallows_trigger: "fst (trigger_dependent_jobs MemoryQueueClient overlap_world) = Inr 0"
  by code_simp

end
