(* ===== verification/Autoscaler.thy ===== *)
theory Autoscaler
  imports Queues
begin

text \<open>
  \<open>app/services/vm_service.py\<close>, \<open>app/services/autoscaler_service.py\<close> and
  \<open>app/api/v1/vms.py\<close>: the fleet of worker containers and the process that sizes it from the
  depth of the queues. The Docker SDK and the SQS client are parameters; what the SDK documents
  of its calls is the predicate \<open>docker_laws\<close>. Without a Docker daemon the service keeps a list of
  names, its mock mode. The contract the autoscaler relies on is the locale \<open>fleet\<close>.
\<close>

subsection \<open>The Docker SDK\<close>

text \<open>The exceptions the service tells apart: \<open>NotFound\<close> is a \<open>DockerException\<close>; anything else
  (a broken connection of the HTTP library, say) is neither.\<close>

datatype docker_error = docker_not_found | docker_failure | other_failure

definition is_docker_exception :: "docker_error \<Rightarrow> bool" where
  "is_docker_exception e \<longleftrightarrow> e \<noteq> other_failure"

type_synonym 'a docker_result = "docker_error + 'a"

record container =
  c_name :: string
  c_image :: string
  c_env :: "string list option"
  c_cmd :: "string list option"
  c_networks :: "string list"
  c_labels :: "(string \<times> string) list"
  c_created :: "string option"

record run_request =
  rq_image :: string
  rq_command :: "string list option"
  rq_name :: string
  rq_environment :: "(string \<times> string) list"
  rq_network :: string
  rq_labels :: "(string \<times> string) list"
  rq_volumes :: "(string \<times> string \<times> string) list"
  rq_restart_policy :: string

record 's docker_client =
  docker_ping :: "'s \<Rightarrow> unit docker_result"
  containers_list :: "string list \<Rightarrow> 's \<Rightarrow> container list docker_result"
  containers_get :: "string \<Rightarrow> 's \<Rightarrow> container docker_result"
  containers_run :: "run_request \<Rightarrow> 's \<Rightarrow> container docker_result \<times> 's"
  container_stop :: "container \<Rightarrow> 's \<Rightarrow> unit docker_result \<times> 's"
  container_remove :: "container \<Rightarrow> 's \<Rightarrow> unit docker_result \<times> 's"

subsection \<open>The service\<close>

text \<open>The fields of the service, the state of the daemon, and the values of \<open>uuid4().hex\<close> still to
  be drawn.\<close>

record 's vm_service =
  vm_client :: "'s docker_client option"
  mock_vms :: "string list"
  daemon :: 's
  hex_source :: "nat \<Rightarrow> string"
  hex_drawn :: nat

definition project_label :: string where
  "project_label = ''com.dass.project=dass''"

definition service_label :: string where
  "service_label = ''com.dass.service=worker''"

definition autoscaled_label :: string where
  "autoscaled_label = ''com.dass.autoscaled=true''"

definition VMService ::
    "'s docker_client docker_result option \<Rightarrow> 's \<Rightarrow> (nat \<Rightarrow> string) \<Rightarrow> 's vm_service docker_result" where
  "VMService from_env s src =
     (let mock = \<lparr>vm_client = None, mock_vms = [], daemon = s, hex_source = src, hex_drawn = 0\<rparr> in
      case from_env of
        None \<Rightarrow> Inr mock
      | Some (Inl e) \<Rightarrow> if is_docker_exception e then Inr mock else Inl e
      | Some (Inr client) \<Rightarrow>
          (case docker_ping client s of
             Inl e \<Rightarrow> if is_docker_exception e then Inr mock else Inl e
           | Inr u \<Rightarrow> Inr (mock\<lparr>vm_client := Some client\<rparr>)))"

definition list_workers :: "bool \<Rightarrow> 's vm_service \<Rightarrow> container list docker_result" where
  "list_workers autoscaled_only v =
     (case vm_client v of
        None \<Rightarrow> Inr []
      | Some client \<Rightarrow>
          (case containers_list client
                  ([project_label, service_label] @ (if autoscaled_only then [autoscaled_label] else []))
                  (daemon v) of
             Inr cs \<Rightarrow> Inr cs
           | Inl e \<Rightarrow> if is_docker_exception e then Inr [] else Inl e))"

definition template_container :: "string \<Rightarrow> 's vm_service \<Rightarrow> container option docker_result" where
  "template_container template_name v =
     (case vm_client v of
        None \<Rightarrow> Inr None
      | Some client \<Rightarrow>
          (case containers_get client template_name (daemon v) of
             Inr c \<Rightarrow> Inr (Some c)
           | Inl e \<Rightarrow>
               if e \<noteq> docker_not_found then Inl e
               else (case list_workers False v of
                       Inl e' \<Rightarrow> Inl e'
                     | Inr cs \<Rightarrow> Inr (case cs of [] \<Rightarrow> None | c # cs' \<Rightarrow> Some c))))"

definition get_active_vms :: "'s vm_service \<Rightarrow> string list docker_result" where
  "get_active_vms v =
     (case vm_client v of
        None \<Rightarrow> Inr (mock_vms v)
      | Some client \<Rightarrow> map_sum id (map c_name) (list_workers False v))"

text \<open>\<open>uuid4().hex[:8]\<close>.\<close>

definition next_suffix :: "'s vm_service \<Rightarrow> string \<times> 's vm_service" where
  "next_suffix v = (take 8 (hex_source v (hex_drawn v)), v\<lparr>hex_drawn := Suc (hex_drawn v)\<rparr>)"

fun mock_names :: "nat \<Rightarrow> 's vm_service \<Rightarrow> string list \<times> 's vm_service" where
  "mock_names 0 v = ([], v)"
| "mock_names (Suc n) v =
     (let (sfx, v1) = next_suffix v; (names, v2) = mock_names n v1 in ((''i-'' @ sfx) # names, v2))"

text \<open>\<open>entry.partition("=")\<close>.\<close>

definition env_entry :: "string \<Rightarrow> string \<times> string" where
  "env_entry entry = (takeWhile (\<lambda>c. c \<noteq> CHR ''='') entry, tl (dropWhile (\<lambda>c. c \<noteq> CHR ''='') entry))"

fun env_dict :: "string list \<Rightarrow> (string \<times> string) list \<Rightarrow> (string \<times> string) list" where
  "env_dict [] env = env"
| "env_dict (entry # entries) env =
     (let (k, v) = env_entry entry in env_dict entries (if k \<noteq> [] then dict_set k v env else env))"

definition worker_labels :: "(string \<times> string) list" where
  "worker_labels =
     [(''com.dass.project'', ''dass''), (''com.dass.service'', ''worker''), (''com.dass.autoscaled'', ''true'')]"

definition clone_request :: "container \<Rightarrow> (string \<times> string) list \<Rightarrow> string \<Rightarrow> run_request" where
  "clone_request template env sfx =
     \<lparr>rq_image = c_image template, rq_command = c_cmd template,
      rq_name = ''dass-worker-autoscaled-'' @ sfx, rq_environment = env,
      rq_network = (case c_networks template of [] \<Rightarrow> ''dass_dass-net'' | nw # nws \<Rightarrow> nw),
      rq_labels = worker_labels,
      rq_volumes = [(''/var/run/docker.sock'', ''/var/run/docker.sock'', ''rw'')],
      rq_restart_policy = ''unless-stopped''\<rparr>"

fun run_clones ::
    "'s docker_client \<Rightarrow> container \<Rightarrow> (string \<times> string) list \<Rightarrow> nat \<Rightarrow> 's vm_service \<Rightarrow>
     string list docker_result \<times> 's vm_service" where
  "run_clones client template env 0 v = (Inr [], v)"
| "run_clones client template env (Suc n) v =
     (let (sfx, v1) = next_suffix v;
          env' = dict_set ''DASS_WORKER_ID'' (''worker-as-'' @ sfx) env;
          (r, s) = containers_run client (clone_request template env' sfx) (daemon v1);
          v2 = v1\<lparr>daemon := s\<rparr>
      in case r of
           Inr c \<Rightarrow>
             (let (r', v3) = run_clones client template env' n v2 in (map_sum id (\<lambda>cs. c_name c # cs) r', v3))
         | Inl e \<Rightarrow> if is_docker_exception e then run_clones client template env' n v2 else (Inl e, v2))"

definition create_vms :: "string \<Rightarrow> int \<Rightarrow> 's vm_service \<Rightarrow> string list docker_result \<times> 's vm_service" where
  "create_vms template_name cnt v =
     (if cnt \<le> 0 then (Inr [], v)
      else case vm_client v of
        None \<Rightarrow>
          (let (names, v1) = mock_names (nat cnt) v in (Inr names, v1\<lparr>mock_vms := mock_vms v1 @ names\<rparr>))
      | Some client \<Rightarrow>
          (case template_container template_name v of
             Inl e \<Rightarrow> (Inl e, v)
           | Inr None \<Rightarrow> (Inr [], v)
           | Inr (Some template) \<Rightarrow>
               run_clones client template
                 (env_dict (case c_env template of None \<Rightarrow> [] | Some es \<Rightarrow> es) []) (nat cnt) v))"

fun stop_all ::
    "'s docker_client \<Rightarrow> container list \<Rightarrow> 's vm_service \<Rightarrow> string list docker_result \<times> 's vm_service" where
  "stop_all client [] v = (Inr [], v)"
| "stop_all client (c # cs) v =
     (let (r, s) = container_stop client c (daemon v);
          (r', s') = (case r of Inl e \<Rightarrow> (Inl e, s) | Inr u \<Rightarrow> container_remove client c s);
          v' = v\<lparr>daemon := s'\<rparr>
      in case r' of
           Inr u \<Rightarrow> (let (rs, v'') = stop_all client cs v' in (map_sum id (\<lambda>ns. c_name c # ns) rs, v''))
         | Inl e \<Rightarrow> if is_docker_exception e then stop_all client cs v' else (Inl e, v'))"

fun mock_pop :: "nat \<Rightarrow> string list \<Rightarrow> string list \<times> string list" where
  "mock_pop 0 vms = ([], vms)"
| "mock_pop (Suc n) [] = ([], [])"
| "mock_pop (Suc n) (vm # vms) = (let (removed, rest) = mock_pop n vms in (vm # removed, rest))"

definition created_key :: "container \<Rightarrow> string" where
  "created_key c = (case c_created c of None \<Rightarrow> [] | Some t \<Rightarrow> t)"

definition terminate_vms :: "int \<Rightarrow> 's vm_service \<Rightarrow> string list docker_result \<times> 's vm_service" where
  "terminate_vms cnt v =
     (if cnt \<le> 0 then (Inr [], v)
      else case vm_client v of
        None \<Rightarrow> (let (removed, rest) = mock_pop (nat cnt) (mock_vms v) in (Inr removed, v\<lparr>mock_vms := rest\<rparr>))
      | Some client \<Rightarrow>
          (case list_workers True v of
             Inl e \<Rightarrow> (Inl e, v)
           | Inr cs \<Rightarrow> stop_all client (take (nat cnt) (sort_key created_key cs)) v))"

subsection \<open>The autoscaler\<close>

text \<open>The two SQS calls it makes; the attributes come back as strings.\<close>

record sqs_depth_api =
  depth_queue_url :: "string \<Rightarrow> string result"
  depth_attributes :: "string \<Rightarrow> (string \<times> string) list result"

definition min_vms :: int where
  "min_vms = 1"

definition max_vms :: int where
  "max_vms = 10"

definition depth_per_vm :: int where
  "depth_per_vm = 20"

definition attribute_int :: "string \<Rightarrow> (string \<times> string) list \<Rightarrow> int option" where
  "attribute_int k attrs = (case map_of attrs k of None \<Rightarrow> Some 0 | Some s \<Rightarrow> int_of_str s)"

definition depth :: "sqs_depth_api \<Rightarrow> string \<Rightarrow> int" where
  "depth api qname =
     (case depth_queue_url api qname of
        Inl e \<Rightarrow> 0
      | Inr url \<Rightarrow>
          (case depth_attributes api url of
             Inl e \<Rightarrow> 0
           | Inr attrs \<Rightarrow>
               (case (attribute_int ''ApproximateNumberOfMessages'' attrs,
                      attribute_int ''ApproximateNumberOfMessagesNotVisible'' attrs) of
                  (Some visible, Some in_flight) \<Rightarrow> visible + in_flight
                | _ \<Rightarrow> 0)))"

text \<open>\<open>math.ceil(total / DEPTH_PER_VM)\<close>; the float division is exact enough below \<open>2 ^ 50\<close>.\<close>

definition vms_for_depth :: "int \<Rightarrow> int" where
  "vms_for_depth t = (if t = 0 then 0 else - ((- t) div depth_per_vm))"

definition decide :: "sqs_depth_api \<Rightarrow> settings \<Rightarrow> int \<times> (string \<times> int) list \<times> int" where
  "decide api cfg =
     (let depths = map (\<lambda>(qname, label). (label, depth api qname))
                     [(queue_name_normal cfg, ''normal''), (queue_name_scheduled cfg, ''scheduled''),
                      (queue_name_retry cfg, ''retry'')];
          needed = vms_for_depth (sum_list (map snd depths))
      in (max min_vms (min max_vms needed), depths, needed))"

definition autoscaler_enabled :: "settings \<Rightarrow> bool" where
  "autoscaler_enabled cfg \<longleftrightarrow> queue_backend cfg = sqs_backend"

definition apply_scaling ::
    "sqs_depth_api \<Rightarrow> settings \<Rightarrow> string \<Rightarrow> 's vm_service \<Rightarrow> unit docker_result \<times> 's vm_service" where
  "apply_scaling api cfg template_name v =
     (if \<not> autoscaler_enabled cfg then (Inr (), v)
      else let desired = fst (decide api cfg) in
        case get_active_vms v of
          Inl e \<Rightarrow> (Inl e, v)
        | Inr active \<Rightarrow>
            (let current = int (length active) in
             if desired > current then map_prod (map_sum id (\<lambda>r. ())) id (create_vms template_name (desired - current) v)
             else if desired < current then map_prod (map_sum id (\<lambda>r. ())) id (terminate_vms (current - desired) v)
             else (Inr (), v)))"

subsection \<open>The endpoints\<close>

text \<open>The response of a request, with its message; an exception of the SDK leaves the handler as it is, and
  the left side is the status of a refusal.\<close>

definition vm_create_response :: "string list \<Rightarrow> string \<times> string list" where
  "vm_create_response vm_ids = (''Successfully requested '' @ show_nat (length vm_ids) @ '' Worker VMs'', vm_ids)"

definition create_worker_vms ::
    "settings \<Rightarrow> string \<Rightarrow> int \<Rightarrow> 's vm_service \<Rightarrow>
     (error + (string \<times> string list) docker_result) \<times> 's vm_service" where
  "create_worker_vms cfg template_name cnt v =
     (if \<not> vm_admin_api_enabled cfg
      then (Inl (HTTPException 403 ''VM admin API is disabled. Set DASS_VM_ADMIN_API_ENABLED=true to enable.''), v)
      else if cnt \<le> 0 then (Inl (HTTPException 400 ''Count must be greater than 0''), v)
      else map_prod (Inr \<circ> map_sum id vm_create_response) id (create_vms template_name cnt v))"

definition list_worker_vms :: "'s vm_service \<Rightarrow> string list docker_result" where
  "list_worker_vms v = get_active_vms v"

subsection \<open>The desired size\<close>

text \<open>The depth of the queue paths together.\<close>

definition total_depth :: "sqs_depth_api \<Rightarrow> settings \<Rightarrow> int" where
  "total_depth api cfg =
     depth api (queue_name_normal cfg) + depth api (queue_name_scheduled cfg) + depth api (queue_name_retry cfg)"

lemma ceil_div_le: "(- ((- t) div 20) \<le> n) \<longleftrightarrow> t \<le> 20 * n" for t n :: int
  by presburger

lemma vms_for_depth_le: "0 \<le> n \<Longrightarrow> vms_for_depth t \<le> n \<longleftrightarrow> t \<le> 20 * n"
  by (auto simp: vms_for_depth_def depth_per_vm_def ceil_div_le)

lemma decide_desired: "fst (decide api cfg) = max 1 (min 10 (vms_for_depth (total_depth api cfg)))"
  by (simp add: decide_def total_depth_def min_vms_def max_vms_def add.assoc Let_def)

text \<open>(C27) The desired fleet lies between one and ten workers; it has room for the whole backlog at twenty
  messages each unless it is the largest fleet, and no smaller permitted fleet has that room.\<close>

theorem desired_is_least:
  "1 \<le> fst (decide api cfg) \<and> fst (decide api cfg) \<le> 10 \<and>
   (fst (decide api cfg) = 10 \<or> total_depth api cfg \<le> 20 * fst (decide api cfg)) \<and>
   (\<forall>n. 1 \<le> n \<and> n < fst (decide api cfg) \<longrightarrow> 20 * n < total_depth api cfg)"
proof -
  have room: "(n < vms_for_depth t) = (20 * n < t)" if "0 \<le> n" for n t
    using vms_for_depth_le [OF that, of t] by linarith
  have "total_depth api cfg \<le> 20 * max 1 (vms_for_depth (total_depth api cfg))"
    using vms_for_depth_le [of "max 1 (vms_for_depth (total_depth api cfg))" "total_depth api cfg"] by simp
  moreover have "20 * n < total_depth api cfg"
    if "1 \<le> n" "n < max 1 (min 10 (vms_for_depth (total_depth api cfg)))" for n
    using that room [of n "total_depth api cfg"] by (auto simp: max_def min_def split: if_splits)
  ultimately show ?thesis unfolding decide_desired by (auto simp: max_def min_def split: if_splits)
qed

definition busy_api :: sqs_depth_api where
  "busy_api =
     \<lparr>depth_queue_url = Inr,
      depth_attributes = (\<lambda>url. Inr [(''ApproximateNumberOfMessages'', ''15''),
        (''ApproximateNumberOfMessagesNotVisible'', ''6'')])\<rparr>"

lemma busy_decide: "decide busy_api default_settings =
    (4, [(''normal'', 21), (''scheduled'', 21), (''retry'', 21)], 4)"
  by code_simp

theorem desired_is_least_witness: "20 * 3 < total_depth busy_api default_settings"
proof -
  have "\<forall>n. 1 \<le> n \<and> n < 4 \<longrightarrow> 20 * n < total_depth busy_api default_settings"
    using desired_is_least [of busy_api default_settings] unfolding busy_decide by simp
  from this [rule_format, of 3] show ?thesis by simp
qed

subsection \<open>Fleets\<close>

lemma mock_pop_eq: "mock_pop n vms = (take n vms, drop n vms)"
  by (induction n vms rule: mock_pop.induct) simp_all

text \<open>What the autoscaler expects of a fleet: starting \<open>n\<close> workers adds at most \<open>n\<close>, stopping \<open>n\<close>
  removes at most \<open>n\<close>. An exact fleet starts and stops what it is asked to.\<close>

locale fleet =
  fixes size_of :: "'f \<Rightarrow> nat" and start :: "nat \<Rightarrow> 'f \<Rightarrow> 'f" and stop :: "nat \<Rightarrow> 'f \<Rightarrow> 'f"
  assumes start_bounds: "size_of f \<le> size_of (start n f) \<and> size_of (start n f) \<le> size_of f + n"
    and stop_bounds: "size_of (stop n f) \<le> size_of f \<and> size_of f \<le> size_of (stop n f) + n"
begin

definition resize :: "nat \<Rightarrow> 'f \<Rightarrow> 'f" where
  "resize desired f =
     (if size_of f < desired then start (desired - size_of f) f
      else if desired < size_of f then stop (size_of f - desired) f else f)"

lemma resize_between:
  "min desired (size_of f) \<le> size_of (resize desired f) \<and> size_of (resize desired f) \<le> max desired (size_of f)"
  using start_bounds [of f "desired - size_of f"] stop_bounds [of "size_of f - desired" f]
  by (auto simp: resize_def)

end

locale exact_fleet = fleet +
  assumes start_exact: "size_of (start n f) = size_of f + n"
    and stop_exact: "size_of (stop n f) = size_of f - n"
begin

lemma resize_exact: "size_of (resize desired f) = desired"
  by (simp add: resize_def start_exact stop_exact)

end

subsection \<open>Mock mode\<close>

lemma next_suffix_simps [simp]:
  "vm_client (snd (next_suffix v)) = vm_client v" "mock_vms (snd (next_suffix v)) = mock_vms v"
  "daemon (snd (next_suffix v)) = daemon v"
  by (simp_all add: next_suffix_def)

lemma mock_names_frame [simp]:
  "length (fst (mock_names n v)) = n" "mock_vms (snd (mock_names n v)) = mock_vms v"
  "vm_client (snd (mock_names n v)) = vm_client v"
  by (induction n arbitrary: v) (simp_all add: case_prod_beta Let_def)

lemma mock_names_prefix: "nm \<in> set (fst (mock_names n v)) \<Longrightarrow> is_prefix ''i-'' nm"
  by (induction n arbitrary: v) (auto simp: case_prod_beta Let_def)

definition mock_create :: "nat \<Rightarrow> 's vm_service \<Rightarrow> 's vm_service" where
  "mock_create n v = snd (create_vms [] (int n) (v\<lparr>vm_client := None\<rparr>))"

definition mock_terminate :: "nat \<Rightarrow> 's vm_service \<Rightarrow> 's vm_service" where
  "mock_terminate n v = snd (terminate_vms (int n) (v\<lparr>vm_client := None\<rparr>))"

lemma mock_create_vms:
  "vm_client v = None \<Longrightarrow> create_vms nm n v =
     (Inr (fst (mock_names (nat n) v)),
      (snd (mock_names (nat n) v))\<lparr>mock_vms := mock_vms v @ fst (mock_names (nat n) v)\<rparr>)"
  by (cases "n \<le> 0") (simp_all add: create_vms_def case_prod_beta Let_def)

lemma mock_terminate_vms:
  "vm_client v = None \<Longrightarrow> terminate_vms n v =
     (Inr (take (nat n) (mock_vms v)), v\<lparr>mock_vms := drop (nat n) (mock_vms v)\<rparr>)"
  by (cases "n \<le> 0") (simp_all add: terminate_vms_def mock_pop_eq)

interpretation mock_fleet: exact_fleet "\<lambda>v :: 's vm_service. length (mock_vms v)" mock_create mock_terminate
  by unfold_locales (simp_all add: mock_create_def mock_terminate_def mock_create_vms mock_terminate_vms)

lemma resize_mock_vms:
  "\<exists>old new. old @ mock_vms (mock_fleet.resize d v) = mock_vms v @ new \<and> (old = [] \<or> new = [])"
proof (cases "length (mock_vms v)" d rule: linorder_cases)
  case less
  then have "[] @ mock_vms (mock_fleet.resize d v) =
      mock_vms v @ fst (mock_names (d - length (mock_vms v)) (v\<lparr>vm_client := None\<rparr>))"
    by (simp add: mock_fleet.resize_def mock_create_def mock_create_vms del: of_nat_diff)
  then show ?thesis by blast
next
  case greater
  then have "take (length (mock_vms v) - d) (mock_vms v) @ mock_vms (mock_fleet.resize d v) = mock_vms v @ []"
    by (simp add: mock_fleet.resize_def mock_terminate_def mock_terminate_vms del: of_nat_diff)
  then show ?thesis by blast
next
  case equal
  then have "[] @ mock_vms (mock_fleet.resize d v) = mock_vms v @ []" by (simp add: mock_fleet.resize_def)
  then show ?thesis by blast
qed

lemma apply_scaling_mock:
  assumes "vm_client v = None" "autoscaler_enabled cfg"
  shows "apply_scaling api cfg nm v = (Inr (), mock_fleet.resize (nat (fst (decide api cfg))) v)"
proof -
  have pos: "1 \<le> fst (decide api cfg)" by (simp add: decide_desired)
  have keep: "v\<lparr>vm_client := None\<rparr> = v" using assms(1) by (cases v) simp
  have d: "int (nat (fst (decide api cfg)) - length (mock_vms v)) = fst (decide api cfg) - int (length (mock_vms v))"
    if "int (length (mock_vms v)) < fst (decide api cfg)" using that by simp
  show ?thesis using assms(2) pos
    by (auto simp: apply_scaling_def get_active_vms_def assms(1) Let_def mock_fleet.resize_def keep
        mock_create_def mock_terminate_def mock_create_vms [OF assms(1)] mock_terminate_vms [OF assms(1)]
        map_prod_def nat_diff_distrib)
qed

text \<open>On a fleet without a Docker daemon an autoscaling pass always succeeds and leaves exactly the
  desired number of workers, which the workers already there are part of: growing keeps them all and
  shrinking drops the oldest.\<close>

lemma apply_scaling_reaches_desired:
  assumes "vm_client v = None" "autoscaler_enabled cfg"
  shows "\<exists>v'. apply_scaling api cfg nm v = (Inr (), v') \<and> int (length (mock_vms v')) = fst (decide api cfg) \<and>
    (\<exists>old new. old @ mock_vms v' = mock_vms v @ new \<and> (old = [] \<or> new = []))"
proof (intro exI [of _ "mock_fleet.resize (nat (fst (decide api cfg))) v"] conjI)
  let ?d = "nat (fst (decide api cfg))"
  show "apply_scaling api cfg nm v = (Inr (), mock_fleet.resize ?d v)" by (rule apply_scaling_mock [OF assms])
  show "int (length (mock_vms (mock_fleet.resize ?d v))) = fst (decide api cfg)"
    using mock_fleet.resize_exact [of ?d v] by (simp add: decide_desired)
  show "\<exists>old new. old @ mock_vms (mock_fleet.resize ?d v) = mock_vms v @ new \<and> (old = [] \<or> new = [])"
    by (rule resize_mock_vms)
qed

definition mock_service :: "string list \<Rightarrow> unit vm_service" where
  "mock_service vms =
     \<lparr>vm_client = None, mock_vms = vms, daemon = (), hex_source = (\<lambda>n. show_nat n), hex_drawn = 0\<rparr>"

lemma apply_scaling_reaches_desired_example:
  "\<exists>v'. apply_scaling busy_api default_settings [] (mock_service [''i-a'']) = (Inr (), v') \<and> length (mock_vms v') = 4"
proof -
  have "vm_client (mock_service [''i-a'']) = None" "autoscaler_enabled default_settings"
    by (simp_all add: mock_service_def autoscaler_enabled_def default_settings_def)
  from apply_scaling_reaches_desired [OF this, of busy_api "[]"] show ?thesis unfolding busy_decide by auto
qed

text \<open>A queue that cannot be read counts as empty, so a failing read shrinks the fleet to one worker.\<close>

definition failing_api :: sqs_depth_api where
  "failing_api = \<lparr>depth_queue_url = (\<lambda>q. Inl QueueError), depth_attributes = (\<lambda>u. Inl QueueError)\<rparr>"

lemma failed_read_shrinks_fleet:
  "mock_vms (snd (apply_scaling failing_api default_settings [] (mock_service [''i-a'', ''i-b'', ''i-c'']))) = [''i-c'']"
  by code_simp

subsection \<open>Docker mode\<close>

text \<open>What the SDK documents: listing returns the running containers that carry all the labels; a
  container that was started runs, has the name it was given and carries the labels it was given,
  and a failed start leaves nothing running; stopping and removing a container concern no other.\<close>

definition has_label :: "container \<Rightarrow> string \<Rightarrow> bool" where
  "has_label c l \<longleftrightarrow> env_entry l \<in> set (c_labels c)"

definition list_law :: "'s docker_client \<Rightarrow> ('s \<Rightarrow> container set) \<Rightarrow> bool" where
  "list_law client up \<longleftrightarrow>
     (\<forall>labels s. case containers_list client labels s of
        Inl e \<Rightarrow> True
      | Inr cs \<Rightarrow> distinct cs \<and> set cs = {c \<in> up s. \<forall>l \<in> set labels. has_label c l})"

definition run_law :: "'s docker_client \<Rightarrow> ('s \<Rightarrow> container set) \<Rightarrow> bool" where
  "run_law client up \<longleftrightarrow>
     (\<forall>rq s. case containers_run client rq s of
        (Inl e, s') \<Rightarrow> is_docker_exception e \<longrightarrow> up s' = up s
      | (Inr c, s') \<Rightarrow> up s' = insert c (up s) \<and> c_name c = rq_name rq \<and> set (rq_labels rq) \<subseteq> set (c_labels c))"

definition stop_law :: "'s docker_client \<Rightarrow> ('s \<Rightarrow> container set) \<Rightarrow> bool" where
  "stop_law client up \<longleftrightarrow>
     (\<forall>c s. case container_stop client c s of
        (Inl e, s') \<Rightarrow> up s - {c} \<subseteq> up s' \<and> up s' \<subseteq> up s
      | (Inr u, s') \<Rightarrow> up s' = up s - {c})"

definition remove_law :: "'s docker_client \<Rightarrow> ('s \<Rightarrow> container set) \<Rightarrow> bool" where
  "remove_law client up \<longleftrightarrow>
     (\<forall>c s. up s - {c} \<subseteq> up (snd (container_remove client c s)) \<and>
            up (snd (container_remove client c s)) \<subseteq> up s)"

definition docker_laws :: "'s docker_client \<Rightarrow> ('s \<Rightarrow> container set) \<Rightarrow> bool" where
  "docker_laws client up \<longleftrightarrow>
     list_law client up \<and> run_law client up \<and> stop_law client up \<and> remove_law client up"

lemma list_lawD:
  assumes "list_law client up" "containers_list client labels s = Inr cs"
  shows "distinct cs \<and> set cs = {c \<in> up s. \<forall>l \<in> set labels. has_label c l}"
  using assms(1) unfolding list_law_def by (auto simp: assms(2) dest!: spec [of _ labels] spec [of _ s])

lemma stop_lawD:
  assumes "stop_law client up" "container_stop client c s = (r, s')"
  shows "case r of Inl e \<Rightarrow> up s - {c} \<subseteq> up s' \<and> up s' \<subseteq> up s | Inr u \<Rightarrow> up s' = up s - {c}"
  using assms(1) unfolding stop_law_def by (auto simp: assms(2) dest!: spec [of _ c] spec [of _ s] split: sum.splits)

definition workers :: "bool \<Rightarrow> ('s \<Rightarrow> container set) \<Rightarrow> 's vm_service \<Rightarrow> container set" where
  "workers autoscaled_only up v =
     {c \<in> up (daemon v). has_label c project_label \<and> has_label c service_label \<and>
        (autoscaled_only \<longrightarrow> has_label c autoscaled_label)}"

lemma list_workers_cases:
  assumes "docker_laws client up" "vm_client v = Some client"
  obtains (failed) e where "list_workers b v = Inl e"
  | (empty) "list_workers b v = Inr []"
  | (listed) cs where "list_workers b v = Inr cs" "distinct cs" "set cs = workers b up v"
proof (cases "containers_list client ([project_label, service_label] @ (if b then [autoscaled_label] else [])) (daemon v)")
  case (Inl e)
  with assms(2) that(1,2) show ?thesis by (cases "is_docker_exception e") (simp_all add: list_workers_def)
next
  case (Inr cs)
  have "distinct cs \<and> set cs =
      {c \<in> up (daemon v). \<forall>l \<in> set ([project_label, service_label] @ (if b then [autoscaled_label] else [])). has_label c l}"
    by (rule list_lawD [OF _ Inr]) (use assms(1) in \<open>simp add: docker_laws_def\<close>)
  moreover have "list_workers b v = Inr cs" using Inr assms(2) by (simp add: list_workers_def)
  ultimately show ?thesis by (intro that(3)) (auto simp: workers_def)
qed

lemma stop_remove_bounds:
  assumes "docker_laws client up" "container_stop client c s = (r, s1)"
    "(case r of Inl e \<Rightarrow> (Inl e, s1) | Inr u \<Rightarrow> container_remove client c s1) = (r', s2)"
  shows "up s - {c} \<subseteq> up s2 \<and> up s2 \<subseteq> up s \<and> (\<forall>u. r' = Inr u \<longrightarrow> c \<notin> up s2)"
proof -
  have st: "case r of Inl e \<Rightarrow> up s - {c} \<subseteq> up s1 \<and> up s1 \<subseteq> up s | Inr u \<Rightarrow> up s1 = up s - {c}"
    by (rule stop_lawD [OF _ assms(2)]) (use assms(1) in \<open>simp add: docker_laws_def\<close>)
  have rm: "up s1 - {c} \<subseteq> up (snd (container_remove client c s1)) \<and>
      up (snd (container_remove client c s1)) \<subseteq> up s1"
    using assms(1) unfolding docker_laws_def remove_law_def by blast
  show ?thesis
  proof (cases r)
    case (Inl e)
    with assms(3) st show ?thesis by auto
  next
    case (Inr u)
    with assms(3) have "s2 = snd (container_remove client c s1)" by (auto dest: arg_cong [where f = snd])
    with st rm Inr show ?thesis by auto
  qed
qed

lemma stop_all_bounds:
  assumes laws: "docker_laws client up" and "stop_all client cs v = (r, v')"
  shows "up (daemon v) - set cs \<subseteq> up (daemon v') \<and> up (daemon v') \<subseteq> up (daemon v) \<and>
    (case r of Inl e \<Rightarrow> True | Inr names \<Rightarrow> \<forall>nm \<in> set names. \<exists>c \<in> set cs. c_name c = nm \<and> c \<notin> up (daemon v'))"
  using assms(2)
proof (induction cs arbitrary: v r v')
  case (Cons c cs)
  obtain r1 s1 where st: "container_stop client c (daemon v) = (r1, s1)" by fastforce
  obtain r2 s2 where rm: "(case r1 of Inl e \<Rightarrow> (Inl e, s1) | Inr u \<Rightarrow> container_remove client c s1) = (r2, s2)"
    by fastforce
  note b = stop_remove_bounds [OF laws st rm]
  show ?case
  proof (cases r2)
    case (Inl e)
    show ?thesis
    proof (cases "is_docker_exception e")
      case True
      with Cons.prems Inl st rm have "stop_all client cs (v\<lparr>daemon := s2\<rparr>) = (r, v')" by (simp add: Let_def)
      from Cons.IH [OF this] b show ?thesis by (auto split: sum.splits)
    next
      case False
      with Cons.prems Inl st rm b show ?thesis by (auto simp: Let_def)
    qed
  next
    case (Inr u)
    obtain rs v2 where rest: "stop_all client cs (v\<lparr>daemon := s2\<rparr>) = (rs, v2)" by fastforce
    with Cons.prems Inr st rm have r: "r = map_sum id (\<lambda>ns. c_name c # ns) rs" "v' = v2" by (simp_all add: Let_def)
    show ?thesis using Cons.IH [OF rest] b Inr unfolding r by (cases rs) auto
  qed
qed simp

lemma take_sort_key_least:
  fixes f :: "'a \<Rightarrow> 'b::linorder"
  assumes "c \<in> set (take n (sort_key f cs))" "c' \<in> set cs" "c' \<notin> set (take n (sort_key f cs))"
  shows "f c \<le> f c'"
proof -
  let ?xs = "sort_key f cs"
  have "c' \<in> set (drop n ?xs)"
    using assms(2,3) by (metis Un_iff append_take_drop_id set_append set_sort)
  moreover have "sorted (map f (take n ?xs) @ map f (drop n ?xs))"
    by (metis append_take_drop_id map_append sorted_sort_key)
  ultimately show ?thesis using assms(1) by (auto simp: sorted_append)
qed

text \<open>Scaling down stops at most the requested number of containers, all of them autoscaled workers
  and none younger than one that is left; every other container, a baseline worker above all, keeps
  running whichever calls fail, and the names returned are those of workers that no longer run.\<close>

lemma terminate_vms_bounds:
  assumes "docker_laws client up" "vm_client v = Some client" "terminate_vms n v = (r, v')"
  shows "\<exists>victims \<subseteq> workers True up v.
    card victims \<le> nat n \<and>
    (\<forall>c \<in> victims. \<forall>c' \<in> workers True up v - victims. created_key c \<le> created_key c') \<and>
    up (daemon v) - victims \<subseteq> up (daemon v') \<and> up (daemon v') \<subseteq> up (daemon v) \<and>
    (case r of Inl e \<Rightarrow> True | Inr names \<Rightarrow> \<forall>nm \<in> set names. \<exists>c \<in> victims. c_name c = nm \<and> c \<notin> up (daemon v'))"
proof (cases "0 < n \<and> (\<exists>cs. list_workers True v = Inr cs \<and> cs \<noteq> [])")
  case True
  then obtain cs where cs: "list_workers True v = Inr cs" "cs \<noteq> []" "0 < n" by blast
  then have set_cs: "set cs = workers True up v"
    using list_workers_cases [OF assms(1,2), of True] by (metis Inl_Inr_False sum.inject(2))
  define vs where "vs = take (nat n) (sort_key created_key cs)"
  have "stop_all client vs v = (r, v')" using assms(2,3) cs by (simp add: terminate_vms_def vs_def)
  note b = stop_all_bounds [OF assms(1) this]
  have "card (set vs) \<le> nat n" using card_length [of vs] by (simp add: vs_def)
  moreover have "set vs \<subseteq> workers True up v"
    unfolding vs_def using set_take_subset [of "nat n" "sort_key created_key cs"] set_cs by simp
  moreover have "\<forall>c \<in> set vs. \<forall>c' \<in> workers True up v - set vs. created_key c \<le> created_key c'"
    unfolding vs_def set_cs [symmetric] by (blast intro: take_sort_key_least)
  ultimately show ?thesis using b by blast
next
  case False
  then have "v' = v" "r = Inr [] \<or> (\<exists>e. r = Inl e)"
    using assms(2,3) by (auto simp: terminate_vms_def split: sum.splits if_splits)
  then show ?thesis by (intro exI [of _ "{}"]) auto
qed

lemma run_lawD:
  assumes "run_law client up" "containers_run client rq s = (r, s')"
  shows "case r of Inl e \<Rightarrow> is_docker_exception e \<longrightarrow> up s' = up s
    | Inr c \<Rightarrow> up s' = insert c (up s) \<and> c_name c = rq_name rq \<and> set (rq_labels rq) \<subseteq> set (c_labels c)"
  using assms(1) unfolding run_law_def by (auto simp: assms(2) dest!: spec [of _ rq] spec [of _ s] split: sum.splits)

lemma worker_labels_all: "has_label c l"
  if "set worker_labels \<subseteq> set (c_labels c)" "l \<in> {project_label, service_label, autoscaled_label}"
proof -
  have "env_entry l \<in> set worker_labels" using that(2) by (elim insertE) (simp_all, code_simp+)
  then show ?thesis using that(1) by (auto simp: has_label_def)
qed

lemma run_clones_bounds:
  assumes laws: "docker_laws client up" and "run_clones client template env n v = (Inr names, v')"
  shows "\<exists>new. up (daemon v') = up (daemon v) \<union> set new \<and> names = map c_name new \<and> length new \<le> n \<and>
    set new \<subseteq> workers True up v'"
  using assms(2)
proof (induction n arbitrary: v env names)
  case (Suc n)
  obtain sfx v1 where sfx: "next_suffix v = (sfx, v1)" by fastforce
  then have v1: "daemon v1 = daemon v" by (metis next_suffix_simps(3) snd_conv)
  define env' where "env' = dict_set ''DASS_WORKER_ID'' (''worker-as-'' @ sfx) env"
  obtain r s where run: "containers_run client (clone_request template env' sfx) (daemon v1) = (r, s)" by fastforce
  have law: "run_law client up" using laws by (simp add: docker_laws_def)
  note b = run_lawD [OF law run]
  show ?case
  proof (cases r)
    case (Inl e)
    with Suc.prems sfx run have "is_docker_exception e" "run_clones client template env' n (v1\<lparr>daemon := s\<rparr>) = (Inr names, v')"
      by (auto simp: Let_def env'_def split: if_splits)
    from Suc.IH [OF this(2)] this(1) b Inl v1 show ?thesis by fastforce
  next
    case (Inr c)
    obtain rs v3 where rest: "run_clones client template env' n (v1\<lparr>daemon := s\<rparr>) = (rs, v3)" by fastforce
    with Suc.prems sfx run Inr obtain ns where ns: "rs = Inr ns" "names = c_name c # ns" "v3 = v'"
      by (cases rs) (auto simp: Let_def env'_def)
    from Suc.IH [OF rest [unfolded ns(1,3)]] obtain new where
      new: "up (daemon v') = up s \<union> set new" "ns = map c_name new" "length new \<le> n" "set new \<subseteq> workers True up v'"
      by auto
    have "set worker_labels \<subseteq> set (c_labels c)" using b Inr by (simp add: clone_request_def)
    then have "c \<in> workers True up v'" using b Inr new(1) by (simp add: workers_def worker_labels_all)
    with new b Inr v1 ns(2) show ?thesis by (intro exI [of _ "c # new"]) auto
  qed
qed auto

text \<open>Scaling up through Docker starts at most the requested number of containers, each labelled as
  an autoscaled worker, returns their names, and stops nothing.\<close>

lemma create_vms_bounds:
  assumes "docker_laws client up" "vm_client v = Some client" "create_vms nm n v = (Inr names, v')"
  shows "\<exists>new. up (daemon v') = up (daemon v) \<union> set new \<and> names = map c_name new \<and> length new \<le> nat n \<and>
    set new \<subseteq> workers True up v'"
proof (cases "\<exists>template. 0 < n \<and> template_container nm v = Inr (Some template)")
  case True
  then obtain template where "0 < n" "template_container nm v = Inr (Some template)" by blast
  with assms(2,3) have
    "run_clones client template (env_dict (case c_env template of None \<Rightarrow> [] | Some es \<Rightarrow> es) []) (nat n) v = (Inr names, v')"
    by (simp add: create_vms_def)
  from run_clones_bounds [OF assms(1) this] show ?thesis .
next
  case False
  with assms(2,3) have "v' = v" "names = []" by (auto simp: create_vms_def split: if_splits sum.splits option.splits)
  then show ?thesis by simp
qed

lemma workers_card_bounds:
  assumes fin: "finite (workers False up v)" and victims: "card victims \<le> n"
    and sub: "up (daemon v) - victims \<subseteq> up (daemon v')" "up (daemon v') \<subseteq> up (daemon v)" "victims \<subseteq> workers True up v"
  shows "card (workers False up v) \<le> card (workers False up v') + n \<and> card (workers False up v') \<le> card (workers False up v)"
proof -
  have w: "workers False up v \<subseteq> workers False up v' \<union> victims" "workers False up v' \<subseteq> workers False up v"
    using sub by (auto simp: workers_def)
  have "finite victims" by (rule finite_subset [OF _ fin]) (use sub(3) in \<open>auto simp: workers_def\<close>)
  with w fin have "card (workers False up v) \<le> card (workers False up v' \<union> victims)"
    by (intro card_mono) (auto dest: finite_subset)
  also have "\<dots> \<le> card (workers False up v') + card victims" by (rule card_Un_le)
  finally show ?thesis using victims card_mono [OF fin w(2)] by linarith
qed

lemma workers_grow:
  assumes fin: "finite (workers False up v)" and new: "up (daemon v') = up (daemon v) \<union> set new"
  shows "card (workers False up v') \<le> card (workers False up v) + length new \<and>
    card (workers False up v) \<le> card (workers False up v') \<and>
    workers False up v \<subseteq> workers False up v' \<and> workers False up v' \<subseteq> workers False up v \<union> set new"
proof (intro conjI)
  show sub: "workers False up v \<subseteq> workers False up v'" "workers False up v' \<subseteq> workers False up v \<union> set new"
    using new by (auto simp: workers_def)
  then have fin': "finite (workers False up v')" using fin by (auto dest: finite_subset)
  show "card (workers False up v) \<le> card (workers False up v')" by (rule card_mono [OF fin' sub(1)])
  have "card (workers False up v') \<le> card (workers False up v \<union> set new)" using fin sub(2) by (intro card_mono) auto
  also have "\<dots> \<le> card (workers False up v) + length new"
    using card_Un_le [of "workers False up v" "set new"] card_length [of new] by linarith
  finally show "card (workers False up v') \<le> card (workers False up v) + length new" .
qed

text \<open>(C26) An autoscaling pass that could list the worker containers and raises nothing moves their
  number towards the desired one without passing it, keeps every baseline worker running, and adds
  only containers labelled as autoscaled workers.\<close>

theorem docker_scaling_pass:
  assumes laws: "docker_laws client up" and client: "vm_client v = Some client"
    and listed: "containers_list client [project_label, service_label] (daemon v) = Inr cs"
    and pass: "apply_scaling api cfg nm v = (Inr (), v')" and enabled: "autoscaler_enabled cfg"
  shows "min (nat (fst (decide api cfg))) (card (workers False up v)) \<le> card (workers False up v') \<and>
    card (workers False up v') \<le> max (nat (fst (decide api cfg))) (card (workers False up v)) \<and>
    workers False up v - workers True up v \<subseteq> workers False up v' \<and>
    workers False up v' - workers False up v \<subseteq> workers True up v'"
proof -
  have law: "list_law client up" using laws by (simp add: docker_laws_def)
  have W: "set cs = workers False up v" "length cs = card (workers False up v)"
    using list_lawD [OF law listed] distinct_card [of cs] by (auto simp: workers_def)
  then have fin: "finite (workers False up v)" by (metis List.finite_set)
  define cur d where "cur = int (card (workers False up v))" and "d = fst (decide api cfg)"
  have d1: "1 \<le> d" by (simp add: d_def decide_desired)
  have "get_active_vms v = Inr (map c_name cs)"
    using client listed by (simp add: get_active_vms_def list_workers_def)
  then have pass': "(if d > cur then map_prod (map_sum id (\<lambda>r. ())) id (create_vms nm (d - cur) v)
       else if d < cur then map_prod (map_sum id (\<lambda>r. ())) id (terminate_vms (cur - d) v) else (Inr (), v)) = (Inr (), v')"
    using pass enabled W(2) by (auto simp: apply_scaling_def Let_def d_def cur_def split: if_splits)
  show ?thesis
  proof (cases d cur rule: linorder_cases)
    case greater
    obtain r where "create_vms nm (d - cur) v = (r, v')" "map_sum id (\<lambda>r. ()) r = Inr ()"
      using pass' greater by (cases "create_vms nm (d - cur) v") auto
    then obtain names where "create_vms nm (d - cur) v = (Inr names, v')" by (cases r) auto
    from create_vms_bounds [OF laws client this] obtain new where
      new: "up (daemon v') = up (daemon v) \<union> set new" "length new \<le> nat (d - cur)" "set new \<subseteq> workers True up v'" by blast
    from workers_grow [OF fin new(1)] new(2) greater d1
    have "card (workers False up v') \<le> nat d" "card (workers False up v) \<le> card (workers False up v')"
      "workers False up v \<subseteq> workers False up v'" "workers False up v' \<subseteq> workers False up v \<union> set new"
      by (auto simp: cur_def)
    with new(3) show ?thesis by (auto simp: d_def)
  next
    case less
    then obtain r where "terminate_vms (cur - d) v = (r, v')"
      using pass' by (cases "terminate_vms (cur - d) v") auto
    from terminate_vms_bounds [OF laws client this] obtain victims where
      vs: "victims \<subseteq> workers True up v" "card victims \<le> nat (cur - d)" "up (daemon v) - victims \<subseteq> up (daemon v')"
        "up (daemon v') \<subseteq> up (daemon v)" by blast
    have "workers False up v - workers True up v \<subseteq> workers False up v'" "workers False up v' \<subseteq> workers False up v"
      using vs by (auto simp: workers_def)
    with workers_card_bounds [OF fin vs(2,3,4,1)] less d1 show ?thesis by (auto simp: cur_def d_def)
  qed (use pass' in \<open>auto simp: cur_def d_def\<close>)
qed

subsection \<open>A small daemon\<close>

definition small_docker :: "bool \<Rightarrow> container list docker_client" where
  "small_docker broken =
     \<lparr>docker_ping = (\<lambda>s. Inr ()),
      containers_list = (\<lambda>labels s. if broken then Inl docker_failure
        else Inr (remdups (filter (\<lambda>c. \<forall>l \<in> set labels. has_label c l) s))),
      containers_get = (\<lambda>nm s. case find_row c_name nm s of None \<Rightarrow> Inl docker_not_found | Some c \<Rightarrow> Inr c),
      containers_run = (\<lambda>rq s.
        if rq_name rq \<in> c_name ` set s then (Inl docker_failure, s)
        else let c = \<lparr>c_name = rq_name rq, c_image = rq_image rq, c_env = None, c_cmd = rq_command rq,
                      c_networks = [rq_network rq], c_labels = rq_labels rq, c_created = None\<rparr> in (Inr c, c # s)),
      container_stop = (\<lambda>c s. if c \<in> set s then (Inr (), filter (\<lambda>x. x \<noteq> c) s) else (Inl docker_not_found, s)),
      container_remove = (\<lambda>c s. (Inr (), s))\<rparr>"

lemma small_docker_laws: "docker_laws (small_docker broken) set"
  by (auto simp: docker_laws_def list_law_def run_law_def stop_law_def remove_law_def small_docker_def Let_def)

definition baseline_worker :: container where
  "baseline_worker =
     \<lparr>c_name = ''dass-worker-1'', c_image = ''dass'', c_env = Some [''A=1''], c_cmd = None, c_networks = [],
      c_labels = [(''com.dass.project'', ''dass''), (''com.dass.service'', ''worker'')], c_created = Some ''2024''\<rparr>"

definition docker_service :: "bool \<Rightarrow> container list \<Rightarrow> container list vm_service" where
  "docker_service broken cs =
     \<lparr>vm_client = Some (small_docker broken), mock_vms = [], daemon = cs, hex_source = (\<lambda>n. show_nat n), hex_drawn = 0\<rparr>"

lemma small_pass:
  "map_prod id (\<lambda>v. map c_name (daemon v))
     (apply_scaling busy_api default_settings ''dass-worker-1'' (docker_service broken [baseline_worker])) =
   (Inr (), (if broken then [''dass-worker-autoscaled-3''] else []) @
     [''dass-worker-autoscaled-2'', ''dass-worker-autoscaled-1'', ''dass-worker-autoscaled-0'', ''dass-worker-1''])"
  by (cases broken) (simp_all, code_simp+)

lemma small_listed:
  "containers_list (small_docker False) [project_label, service_label] (daemon (docker_service False [baseline_worker])) =
   Inr [baseline_worker]"
  by code_simp

theorem docker_scaling_pass_witness:
  "card (workers False set (snd (apply_scaling busy_api default_settings ''dass-worker-1''
     (docker_service False [baseline_worker])))) \<le> 4"
proof -
  let ?v = "docker_service False [baseline_worker]"
  have enabled: "autoscaler_enabled default_settings" by code_simp
  have client: "vm_client ?v = Some (small_docker False)" by (simp add: docker_service_def)
  obtain v' where pass: "apply_scaling busy_api default_settings ''dass-worker-1'' ?v = (Inr (), v')"
    using arg_cong [OF small_pass [of False], of fst] by (cases "apply_scaling busy_api default_settings ''dass-worker-1'' ?v") auto
  have "card (workers False set ?v) \<le> card {baseline_worker}"
    by (intro card_mono) (auto simp: workers_def docker_service_def)
  then show ?thesis
    using docker_scaling_pass [OF small_docker_laws client small_listed pass enabled] unfolding busy_decide pass by auto
qed

text \<open>A failing list call counts as an empty fleet: the pass then starts as many workers as are
  desired on top of those that run.\<close>

lemma failed_list_overshoots:
  "length (daemon (snd (apply_scaling busy_api default_settings ''dass-worker-1'' (docker_service True [baseline_worker])))) = 5 \<and>
   fst (decide busy_api default_settings) = 4"
  by code_simp

end
