(* ===== verification/Db_Session.thy ===== *)
theory Db_Session
  imports Config
begin

text \<open>
  \<open>app/db/session.py\<close>: the pool profile of a process, its engines, the routing of statements
  between the primary and the replica, the cached health of the replica, and the scope that pins
  a session to the primary. Times are readings of \<open>time.monotonic()\<close> in microseconds; whether a
  connection to the replica succeeds is an input of the probe.
\<close>

subsection \<open>Pool profiles and engines\<close>

record pool_profile =
  pool_size :: int
  max_overflow :: int
  pool_timeout :: int

definition pool_profiles :: "(string \<times> pool_profile) list" where
  "pool_profiles =
     [(''api'', \<lparr>pool_size = 30, max_overflow = 20, pool_timeout = 15\<rparr>),
      (''worker'', \<lparr>pool_size = 5, max_overflow = 5, pool_timeout = 30\<rparr>),
      (''default'', \<lparr>pool_size = 5, max_overflow = 0, pool_timeout = 30\<rparr>)]"

definition resolve_role :: "string \<Rightarrow> string" where
  "resolve_role wid =
     (let lowered = lower wid in
      if contains ''worker'' lowered then ''worker''
      else if contains ''api'' lowered then ''api''
      else ''default'')"

text \<open>The arguments of \<open>create_engine\<close>; \<open>connect_timeout\<close> and \<open>prepare_threshold\<close> are its
  \<open>connect_args\<close>.\<close>

record engine =
  engine_url :: string
  echo :: bool
  pool_pre_ping :: bool
  profile :: pool_profile
  connect_timeout :: "int option"
  prepare_threshold :: "int option"

definition has_replica :: "settings \<Rightarrow> bool" where
  "has_replica cfg \<longleftrightarrow>
     (case replica_database_url cfg of None \<Rightarrow> False | Some url \<Rightarrow> url \<noteq> [] \<and> url \<noteq> database_url cfg)"

text \<open>\<open>_POOL_PROFILES[ROLE]\<close>.\<close>

definition profile_of :: "string \<Rightarrow> pool_profile option" where
  "profile_of wid = map_of pool_profiles (resolve_role wid)"

definition primary_engine :: "settings \<Rightarrow> pool_profile \<Rightarrow> engine" where
  "primary_engine cfg prof =
     \<lparr>engine_url = database_url cfg, echo = database_echo cfg, pool_pre_ping = True, profile = prof,
      connect_timeout = None, prepare_threshold = None\<rparr>"

definition replica_engine :: "settings \<Rightarrow> pool_profile \<Rightarrow> engine" where
  "replica_engine cfg prof =
     (case replica_database_url cfg of
        None \<Rightarrow> primary_engine cfg prof
      | Some url \<Rightarrow>
          if has_replica cfg then
            \<lparr>engine_url = url, echo = database_echo cfg, pool_pre_ping = True, profile = prof,
             connect_timeout = Some 2, prepare_threshold = None\<rparr>
          else primary_engine cfg prof)"

definition heartbeat_engine :: "settings \<Rightarrow> engine" where
  "heartbeat_engine cfg =
     \<lparr>engine_url = database_url cfg, echo = False, pool_pre_ping = True,
      profile = \<lparr>pool_size = 2, max_overflow = 8, pool_timeout = 10\<rparr>,
      connect_timeout = None, prepare_threshold = None\<rparr>"

definition pool_ceiling :: "engine \<Rightarrow> int" where
  "pool_ceiling e = pool_size (profile e) + max_overflow (profile e)"

subsection \<open>Health of the replica\<close>

record replica_health =
  health_ok :: bool
  checked_at :: time

definition initial_health :: replica_health where
  "initial_health = \<lparr>health_ok = True, checked_at = 0\<rparr>"

definition replica_health_ttl :: time where
  "replica_health_ttl = seconds 5"

text \<open>\<open>connects\<close> tells whether \<open>replica_engine.connect()\<close> would succeed now.\<close>

definition replica_available :: "settings \<Rightarrow> time \<Rightarrow> bool \<Rightarrow> replica_health \<Rightarrow> bool \<times> replica_health" where
  "replica_available cfg now connects h =
     (if \<not> has_replica cfg then (True, h)
      else if now - checked_at h < replica_health_ttl then (health_ok h, h)
      else let h' = (if connects then h\<lparr>health_ok := True\<rparr> else h\<lparr>health_ok := False\<rparr>)\<lparr>checked_at := now\<rparr>
           in (health_ok h', h'))"

subsection \<open>Routing\<close>

datatype clause = Select | DML | DDL | raw_text | no_clause

text \<open>A session: whether it is flushing, its \<open>info\<close> dictionary, and the keys of its identity map.\<close>

record session =
  flushing :: bool
  info :: "string \<Rightarrow> bool option"
  identity_map :: "(string \<times> uuid) list"

definition get_bind ::
    "settings \<Rightarrow> pool_profile \<Rightarrow> time \<Rightarrow> bool \<Rightarrow> clause \<Rightarrow> session \<Rightarrow> replica_health \<Rightarrow> engine \<times> replica_health" where
  "get_bind cfg prof now connects c s h =
     (if flushing s then (primary_engine cfg prof, h)
      else if c \<noteq> Select then (primary_engine cfg prof, h)
      else if info s ''force_primary'' = Some True \<or> identity_map s \<noteq> [] then (primary_engine cfg prof, h)
      else (case replica_available cfg now connects h of
              (ok, h') \<Rightarrow> (if ok then replica_engine cfg prof else primary_engine cfg prof, h')))"

subsection \<open>Pinning a session\<close>

text \<open>\<open>with force_primary(db): ...\<close> for a body that may raise; \<open>finally\<close> runs either way.\<close>

definition force_primary :: "(session \<Rightarrow> 'a result \<times> session) \<Rightarrow> session \<Rightarrow> 'a result \<times> session" where
  "force_primary block s =
     (let previous = info s ''force_primary'';
          had_previous = (previous \<noteq> None);
          (r, s') = block (s\<lparr>info := (info s)(''force_primary'' \<mapsto> True)\<rparr>)
      in (r, if had_previous then s'\<lparr>info := (info s')(''force_primary'' := previous)\<rparr>
             else s'\<lparr>info := (info s')(''force_primary'' := None)\<rparr>))"

subsection \<open>Properties\<close>

lemma resolve_role_cases: "resolve_role wid \<in> {''worker'', ''api'', ''default''}"
  by (simp add: resolve_role_def Let_def)

lemma replica_engine_distinct: "replica_engine cfg prof \<noteq> primary_engine cfg prof \<longleftrightarrow> has_replica cfg"
  by (auto simp: replica_engine_def primary_engine_def has_replica_def split: option.splits)

text \<open>Every process finds its pool profile, whatever its identifier is, and the engines it opens hold at
  most fifty connections each to a database; without a replica of its own the read engine is the
  primary engine and opens no second pool.\<close>

lemma engines_bounded:
  "\<exists>prof. profile_of wid = Some prof \<and>
     pool_ceiling (primary_engine cfg prof) \<le> 50 \<and> pool_ceiling (replica_engine cfg prof) \<le> 50 \<and>
     pool_ceiling (heartbeat_engine cfg) = 10 \<and>
     (replica_engine cfg prof = primary_engine cfg prof \<longleftrightarrow> \<not> has_replica cfg)"
proof -
  have "resolve_role wid = ''worker'' \<or> resolve_role wid = ''api'' \<or> resolve_role wid = ''default''"
    using resolve_role_cases [of wid] by blast
  then obtain prof where p: "profile_of wid = Some prof" "pool_size prof + max_overflow prof \<le> 50"
    by (elim disjE) (simp_all add: profile_of_def pool_profiles_def)
  then have "pool_ceiling (replica_engine cfg prof) \<le> 50" "pool_ceiling (primary_engine cfg prof) \<le> 50"
    by (auto simp: pool_ceiling_def replica_engine_def primary_engine_def split: option.splits)
  with p(1) replica_engine_distinct [of cfg prof] show ?thesis
    by (auto simp: pool_ceiling_def heartbeat_engine_def)
qed

text \<open>A statement goes to a dedicated replica exactly when it is a plain select of a session that is not
  flushing, is not pinned and has loaded nothing, and the replica counts as healthy; everything else
  goes to the primary.\<close>

lemma replica_only_for_plain_reads:
  assumes "has_replica cfg"
  shows "fst (get_bind cfg prof now connects c s h) =
    (if c = Select \<and> \<not> flushing s \<and> info s ''force_primary'' \<noteq> Some True \<and> identity_map s = [] \<and>
        (if now - checked_at h < replica_health_ttl then health_ok h else connects)
     then replica_engine cfg prof else primary_engine cfg prof)"
  using assms by (auto simp: get_bind_def replica_available_def Let_def split: if_splits)

definition split_settings :: settings where
  "split_settings = default_settings\<lparr>replica_database_url := Some ''postgresql://replica''\<rparr>"

definition plain_session :: session where
  "plain_session = \<lparr>flushing = False, info = (\<lambda>k. None), identity_map = []\<rparr>"

lemma replica_only_for_plain_reads_example:
  "engine_url (fst (get_bind split_settings \<lparr>pool_size = 5, max_overflow = 5, pool_timeout = 30\<rparr> (seconds 7) True Select plain_session initial_health)) =
     ''postgresql://replica''"
proof -
  have "has_replica split_settings" by code_simp
  from replica_only_for_plain_reads [OF this] show ?thesis
    by (simp add: plain_session_def initial_health_def replica_health_ttl_def seconds_def replica_engine_def
        has_replica_def split_settings_def default_settings_def)
qed

subsection \<open>Runs of health checks\<close>

text \<open>A run of calls at the given times, where \<open>up t\<close> tells whether the replica accepts a connection at
  time \<open>t\<close>: the answers, the number of connections opened to probe, and the health left behind.\<close>

fun health_run ::
    "settings \<Rightarrow> (time \<Rightarrow> bool) \<Rightarrow> time list \<Rightarrow> replica_health \<Rightarrow> bool list \<times> nat \<times> replica_health" where
  "health_run cfg up [] h = ([], 0, h)"
| "health_run cfg up (now # ts) h =
     (let (ok, h1) = replica_available cfg now (up now) h;
          (oks, n, h') = health_run cfg up ts h1
      in (ok # oks, (if has_replica cfg \<and> replica_health_ttl \<le> now - checked_at h then Suc n else n), h'))"

definition truthful :: "(time \<Rightarrow> bool) \<Rightarrow> replica_health \<Rightarrow> bool" where
  "truthful up h \<longleftrightarrow> health_ok h = up (checked_at h)"

lemma replica_available_step:
  assumes "has_replica cfg" "truthful up h" "replica_available cfg now (up now) h = (ok, h')" "checked_at h \<le> now"
  shows "ok = up (checked_at h') \<and> truthful up h' \<and> checked_at h' \<le> now \<and> now - checked_at h' < replica_health_ttl \<and>
    (if replica_health_ttl \<le> now - checked_at h then checked_at h' = now else h' = h)"
  using assms by (auto simp: replica_available_def truthful_def Let_def replica_health_ttl_def seconds_def split: if_splits)

text \<open>(C31) Over any run of reads in the order of time, each read sees the state the replica had at most five
  seconds before it, and probing costs at most one connection per five seconds of the run.\<close>

theorem replica_health_is_recent:
  assumes "has_replica cfg" "truthful up h" "sorted (checked_at h # ts)"
    and "health_run cfg up ts h = (oks, n, h')"
  shows "list_all2 (\<lambda>now ok. \<exists>t. now - replica_health_ttl < t \<and> t \<le> now \<and> ok = up t) ts oks \<and>
    int n * replica_health_ttl \<le> last (checked_at h # ts) - checked_at h"
  using assms(2-4)
proof (induction ts arbitrary: h oks n)
  case (Cons now ts)
  obtain ok h1 where step: "replica_available cfg now (up now) h = (ok, h1)" by fastforce
  obtain oks1 n1 where run: "health_run cfg up ts h1 = (oks1, n1, h')"
    using Cons.prems(3) step by (auto simp: Let_def split: prod.splits)
  have le: "checked_at h \<le> now" using Cons.prems(2) by simp
  note s1 = replica_available_step [OF assms(1) Cons.prems(1) step le]
  have srt: "sorted (checked_at h1 # ts)" using Cons.prems(2) s1 by auto
  note ih = Cons.IH [OF _ srt run]
  have "\<exists>t. now - replica_health_ttl < t \<and> t \<le> now \<and> ok = up t" using s1 by (intro exI [of _ "checked_at h1"]) auto
  moreover have "last (checked_at h1 # ts) \<le> last (now # ts)" "now \<le> last (now # ts)"
    using s1 Cons.prems(2) by (cases ts; simp)+
  ultimately show ?case using ih s1 Cons.prems(3) step run assms(1)
    by (auto simp: Let_def algebra_simps split: if_splits)
qed simp

definition flaps :: "time \<Rightarrow> bool" where
  "flaps t \<longleftrightarrow> t < seconds 6"

theorem replica_health_is_recent_witness:
  "list_all2 (\<lambda>now ok. \<exists>t. now - replica_health_ttl < t \<and> t \<le> now \<and> ok = flaps t)
     [seconds 5, seconds 7, seconds 11] [True, True, False]"
proof -
  have "health_run split_settings flaps [seconds 5, seconds 7, seconds 11] initial_health =
      ([True, True, False], 2, \<lparr>health_ok = False, checked_at = seconds 11\<rparr>)"
    by code_simp
  moreover have "has_replica split_settings" "truthful flaps initial_health"
    "sorted (checked_at initial_health # [seconds 5, seconds 7, seconds 11])" by code_simp+
  ultimately show ?thesis using replica_health_is_recent by blast
qed

subsection \<open>Pinned blocks\<close>

lemma pinned_bind:
  "info s ''force_primary'' = Some True \<Longrightarrow> get_bind cfg prof now connects c s h = (primary_engine cfg prof, h)"
  by (simp add: get_bind_def)

text \<open>A pinned block runs with every statement on the primary, and afterwards the pin is what it was
  before, whether the block returns or raises and however blocks are nested; all else the block did
  to the session stays.\<close>

lemma force_primary_scoped:
  assumes "block (s\<lparr>info := (info s)(''force_primary'' \<mapsto> True)\<rparr>) = (r, s')"
  shows "fst (get_bind cfg prof now connects c (s\<lparr>info := (info s)(''force_primary'' \<mapsto> True)\<rparr>) h) = primary_engine cfg prof \<and>
    force_primary block s = (r, s'\<lparr>info := (info s')(''force_primary'' := info s ''force_primary'')\<rparr>)"
  using assms by (auto simp: force_primary_def Let_def pinned_bind)

definition nested_block :: "session \<Rightarrow> unit result \<times> session" where
  "nested_block = force_primary (\<lambda>s. (Inl ValueError, s\<lparr>identity_map := [(''jobs'', ''a'')]\<rparr>))"

lemma nested_block_run:
  "nested_block (plain_session\<lparr>info := (info plain_session)(''force_primary'' \<mapsto> True)\<rparr>) =
   (Inl ValueError, plain_session\<lparr>info := [''force_primary'' \<mapsto> True], identity_map := [(''jobs'', ''a'')]\<rparr>)"
  by (auto simp: nested_block_def force_primary_def plain_session_def Let_def)

text \<open>Nested blocks, of which the inner one raises.\<close>

lemma nested_block_scoped:
  "force_primary nested_block plain_session = (Inl ValueError, plain_session\<lparr>identity_map := [(''jobs'', ''a'')]\<rparr>)"
proof -
  have "(info (plain_session\<lparr>info := [''force_primary'' \<mapsto> True], identity_map := [(''jobs'', ''a'')]\<rparr>))
      (''force_primary'' := info plain_session ''force_primary'') = info plain_session"
    by (auto simp: plain_session_def)
  then show ?thesis
    using force_primary_scoped [where block = nested_block and s = plain_session, OF nested_block_run] by (simp add: plain_session_def)
qed

end
