(* ===== verification/Guid.thy ===== *)
theory Guid
  imports Pystr "HOL-Library.Word"
begin

text \<open>
  \<open>app/db/types.py\<close>: the column types. A UUID is a 128-bit word; \<open>uuid_of_str\<close> and \<open>uuid_str\<close> are
  \<open>uuid.UUID(s)\<close> and \<open>str(u)\<close> of the standard library. The development keeps identifiers as
  their canonical strings: the round trip here is what justifies it.
\<close>

subsection \<open>Parsing and printing UUIDs\<close>

text \<open>\<open>int(s, 16)\<close>: surrounding space, a sign, a prefix \<open>0x\<close>, single underscores between digits.\<close>

fun hex_digits_val :: "nat \<Rightarrow> bool \<Rightarrow> string \<Rightarrow> nat option" where
  "hex_digits_val a after_digit [] = (if after_digit then Some a else None)"
| "hex_digits_val a after_digit (c # cs) =
     (case hex_val c of
        Some d \<Rightarrow> hex_digits_val (16 * a + d) True cs
      | None \<Rightarrow> if c = CHR ''_'' \<and> after_digit then hex_digits_val a False cs else None)"

definition drop_underscore :: "string \<Rightarrow> string" where
  "drop_underscore s = (case s of [] \<Rightarrow> [] | c # cs \<Rightarrow> if c = CHR ''_'' then cs else s)"

definition hex_unsigned :: "string \<Rightarrow> nat option" where
  "hex_unsigned s =
     (case s of
        c # x # cs \<Rightarrow>
          if c = CHR ''0'' \<and> (x = CHR ''x'' \<or> x = CHR ''X'') then hex_digits_val 0 False (drop_underscore cs)
          else hex_digits_val 0 False s
      | _ \<Rightarrow> hex_digits_val 0 False s)"

definition int_of_hex :: "string \<Rightarrow> int option" where
  "int_of_hex s =
     (case strip s of
        [] \<Rightarrow> None
      | c # cs \<Rightarrow>
          if c = CHR ''-'' then map_option (\<lambda>n. - int n) (hex_unsigned cs)
          else if c = CHR ''+'' then map_option int (hex_unsigned cs)
          else map_option int (hex_unsigned (c # cs)))"

text \<open>\<open>s.replace(needle, "")\<close>: \<open>k\<close> characters of an occurrence are still to be skipped.\<close>

fun remove_from :: "string \<Rightarrow> nat \<Rightarrow> string \<Rightarrow> string" where
  "remove_from needle k [] = []"
| "remove_from needle (Suc k) (c # cs) = remove_from needle k cs"
| "remove_from needle 0 (c # cs) =
     (if is_prefix needle (c # cs) then remove_from needle (length needle - 1) cs
      else c # remove_from needle 0 cs)"

definition remove_all_str :: "string \<Rightarrow> string \<Rightarrow> string" where
  "remove_all_str needle s = remove_from needle 0 s"

definition strip_chars :: "char list \<Rightarrow> string \<Rightarrow> string" where
  "strip_chars cs s = rev (dropWhile (\<lambda>c. c \<in> set cs) (rev (dropWhile (\<lambda>c. c \<in> set cs) s)))"

definition uuid_of_str :: "string \<Rightarrow> 128 word option" where
  "uuid_of_str s =
     (let hex = remove_all_str ''-'' (strip_chars ''{}'' (remove_all_str ''uuid:'' (remove_all_str ''urn:'' s))) in
      if length hex \<noteq> 32 then None
      else case int_of_hex hex of
             None \<Rightarrow> None
           | Some i \<Rightarrow> if 0 \<le> i \<and> i < 2 ^ 128 then Some (word_of_int i) else None)"

fun hex_fixed :: "nat \<Rightarrow> nat \<Rightarrow> string" where
  "hex_fixed 0 n = []"
| "hex_fixed (Suc k) n = hex_fixed k (n div 16) @ [hex_digit (n mod 16)]"

definition uuid_str :: "128 word \<Rightarrow> string" where
  "uuid_str u =
     (let hex = hex_fixed 32 (unat u) in
      take 8 hex @ ''-'' @ take 4 (drop 8 hex) @ ''-'' @ take 4 (drop 12 hex) @ ''-'' @ take 4 (drop 16 hex) @
      ''-'' @ drop 20 hex)"

subsection \<open>The column types\<close>

text \<open>What a caller binds: nothing, a UUID object, or anything else by its \<open>str()\<close>.\<close>

datatype bind_value = bind_none | bind_uuid "128 word" | bind_other string

fun process_bind_param :: "bind_value \<Rightarrow> string option result" where
  "process_bind_param bind_none = Inr None"
| "process_bind_param (bind_uuid u) = Inr (Some (uuid_str u))"
| "process_bind_param (bind_other s) =
     (case uuid_of_str s of None \<Rightarrow> Inl ValueError | Some u \<Rightarrow> Inr (Some (uuid_str u)))"

fun process_result_value :: "string option \<Rightarrow> 128 word option result" where
  "process_result_value None = Inr None"
| "process_result_value (Some s) = (case uuid_of_str s of None \<Rightarrow> Inl ValueError | Some u \<Rightarrow> Inr (Some u))"

datatype column_type = JSONB_column | JSON_column

definition load_dialect_impl :: "string \<Rightarrow> column_type" where
  "load_dialect_impl dialect = (if dialect = ''postgresql'' then JSONB_column else JSON_column)"

subsection \<open>The canonical form\<close>

definition hex_lower :: "char \<Rightarrow> bool" where
  "hex_lower c \<longleftrightarrow> (let n = ord_of c in (48 \<le> n \<and> n \<le> 57) \<or> (97 \<le> n \<and> n \<le> 102))"

lemma hex_lower_digit [simp]: "d < 16 \<Longrightarrow> hex_lower (hex_digit d)"
  by (auto simp: hex_lower_def hex_digit_def Let_def)

lemma hex_lower_props:
  "hex_lower c \<Longrightarrow> c \<noteq> CHR '':'' \<and> c \<noteq> CHR ''-'' \<and> c \<noteq> CHR ''+'' \<and> c \<noteq> CHR ''x'' \<and> c \<noteq> CHR ''X'' \<and>
     c \<notin> set ''{}'' \<and> \<not> is_space c"
  by (auto simp: hex_lower_def is_space_def Let_def)

lemma length_hex_fixed [simp]: "length (hex_fixed k n) = k"
  by (induction k arbitrary: n) simp_all

lemma hex_fixed_lower: "\<forall>c \<in> set (hex_fixed k n). hex_lower c"
  by (induction k arbitrary: n) auto

lemma hex_digits_val_fixed:
  "hex_digits_val a b (hex_fixed k n @ rest) = hex_digits_val (a * 16 ^ k + n mod 16 ^ k) (b \<or> 0 < k) rest"
proof (induction k arbitrary: n rest)
  case (Suc k)
  have "n mod 16 ^ Suc k = 16 * ((n div 16) mod 16 ^ k) + n mod 16"
    by (simp add: mod_mult2_eq [of n 16 "16 ^ k"])
  then show ?case by (simp add: Suc algebra_simps)
qed simp

subsection \<open>Strings without the removed characters\<close>

lemma is_prefix_subset: "is_prefix needle t \<Longrightarrow> set needle \<subseteq> set t"
  by (induction needle t rule: is_prefix.induct) auto

lemma remove_from_absent:
  assumes "x \<in> set needle"
  shows "x \<notin> set s \<Longrightarrow> remove_from needle 0 s = s"
proof (induction s)
  case (Cons c s)
  then have "\<not> is_prefix needle (c # s)" using is_prefix_subset assms by blast
  with Cons show ?case by simp
qed simp

lemma remove_from_filter: "remove_from [x] 0 s = filter (\<lambda>c. c \<noteq> x) s"
  by (induction s) auto

lemma strip_chars_id:
  assumes "s \<noteq> []" "hd s \<notin> set cs" "last s \<notin> set cs"
  shows "strip_chars cs s = s"
  using assms by (simp add: strip_chars_def dropWhile_hd hd_rev)

lemma hex_unsigned_plain:
  "\<forall>c \<in> set s. c \<noteq> CHR ''x'' \<and> c \<noteq> CHR ''X'' \<Longrightarrow> hex_unsigned s = hex_digits_val 0 False s"
  by (auto simp: hex_unsigned_def split: list.splits)

lemma int_of_hex_plain:
  "s \<noteq> [] \<Longrightarrow> hd s \<noteq> CHR ''-'' \<and> hd s \<noteq> CHR ''+'' \<Longrightarrow> strip s = s \<Longrightarrow> int_of_hex s = map_option int (hex_unsigned s)"
  by (cases s) (simp_all add: int_of_hex_def)

lemma take_drop_join: "take n (drop m xs) @ drop (m + n) xs = drop m xs"
  by (metis add.commute append_take_drop_id drop_drop)

lemma uuid_str_parts:
  "length (uuid_str u) = 36 \<and> filter (\<lambda>c. c \<noteq> CHR ''-'') (uuid_str u) = hex_fixed 32 (unat u) \<and>
   CHR '':'' \<notin> set (uuid_str u) \<and> hex_lower (hd (uuid_str u)) \<and> hex_lower (last (uuid_str u))"
proof -
  define hex where "hex = hex_fixed 32 (unat u)"
  have len: "length hex = 32" and low: "\<And>c. c \<in> set hex \<Longrightarrow> hex_lower c"
    using hex_fixed_lower [of 32 "unat u"] by (simp_all add: hex_def)
  have dash: "filter (\<lambda>c. c \<noteq> CHR ''-'') xs = xs" "CHR '':'' \<notin> set xs" if "set xs \<subseteq> set hex" for xs
    using that low hex_lower_props by (auto simp: filter_id_conv)
  have sub: "set (take 8 hex) \<subseteq> set hex" "set (take 4 (drop m hex)) \<subseteq> set hex" "set (drop m hex) \<subseteq> set hex" for m
    by (auto dest: in_set_takeD in_set_dropD)
  have str: "uuid_str u = take 8 hex @ ''-'' @ take 4 (drop 8 hex) @ ''-'' @ take 4 (drop 12 hex) @ ''-'' @
      take 4 (drop 16 hex) @ ''-'' @ drop 20 hex"
    by (simp add: uuid_str_def hex_def Let_def)
  have join: "take 8 hex @ take 4 (drop 8 hex) @ take 4 (drop 12 hex) @ take 4 (drop 16 hex) @ drop 20 hex = hex"
    using take_drop_join [of 4 16 hex] take_drop_join [of 4 12 hex] take_drop_join [of 4 8 hex] by simp
  have "hd (uuid_str u) = hd hex" using len by (cases hex) (simp_all add: str)
  moreover have "last (uuid_str u) = last hex" using len by (simp add: str last_drop)
  moreover have "hd hex \<in> set hex" "last hex \<in> set hex" using len by (auto intro!: hd_in_set last_in_set)
  ultimately show ?thesis using len low join dash [OF sub(1)] dash [OF sub(2)] dash [OF sub(3)]
    by (simp add: str flip: hex_def)
qed

lemma uuid_of_uuid_str: "uuid_of_str (uuid_str u) = Some u"
proof -
  note parts = uuid_str_parts [of u]
  let ?hex = "hex_fixed 32 (unat u)"
  have "remove_all_str ''uuid:'' (remove_all_str ''urn:'' (uuid_str u)) = uuid_str u"
    using parts by (simp add: remove_all_str_def remove_from_absent [where x = "CHR '':''"])
  moreover have "strip_chars ''{}'' (uuid_str u) = uuid_str u"
    using parts hex_lower_props by (intro strip_chars_id) auto
  ultimately have hex: "remove_all_str ''-'' (strip_chars ''{}'' (remove_all_str ''uuid:'' (remove_all_str ''urn:'' (uuid_str u)))) = ?hex"
    using parts by (simp add: remove_all_str_def remove_from_filter)
  have low: "\<forall>c \<in> set ?hex. hex_lower c" by (rule hex_fixed_lower)
  have ne: "?hex \<noteq> []" by (metis length_hex_fixed list.size(3) zero_neq_numeral)
  then have "hd ?hex \<in> set ?hex" by simp
  with low have "hd ?hex \<noteq> CHR ''-'' \<and> hd ?hex \<noteq> CHR ''+''" using hex_lower_props by blast
  moreover have "strip ?hex = ?hex" using low hex_lower_props by (intro strip_id) blast
  moreover have "hex_unsigned ?hex = Some (unat u)"
  proof -
    have "hex_unsigned ?hex = hex_digits_val 0 False (?hex @ [])"
      using low hex_lower_props by (simp add: hex_unsigned_plain)
    also have "\<dots> = Some (unat u mod 16 ^ 32)" by (subst hex_digits_val_fixed) simp
    also have "unat u mod 16 ^ 32 = unat u" using unsigned_less [of u, where 'a = nat] by simp
    finally show ?thesis .
  qed
  ultimately have "int_of_hex ?hex = Some (int (unat u))"
    using ne by (simp add: int_of_hex_plain)
  moreover have "int (unat u) < 2 ^ 128" using unsigned_less [of u, where 'a = int] by simp
  ultimately show ?thesis by (simp add: uuid_of_str_def hex Let_def)
qed

text \<open>(C30) Binding an identifier and reading the column gives the identifier back: whatever form the caller
  used, the stored text is the canonical one of 36 characters, it is read back as the very UUID that
  was bound, and binding it again stores the same text.\<close>

theorem guid_roundtrip:
  assumes "process_bind_param v = Inr (Some c)"
  shows "length c = 36 \<and> process_bind_param (bind_other c) = Inr (Some c) \<and>
    (\<exists>u. c = uuid_str u \<and> process_result_value (Some c) = Inr (Some u) \<and> (v = bind_uuid u \<or> (\<exists>s. v = bind_other s \<and> uuid_of_str s = Some u)))"
proof -
  obtain u where "c = uuid_str u" "v = bind_uuid u \<or> (\<exists>s. v = bind_other s \<and> uuid_of_str s = Some u)"
    using assms by (cases v) (auto split: option.splits)
  then show ?thesis using uuid_str_parts [of u] by (auto simp: uuid_of_uuid_str)
qed

theorem guid_roundtrip_witness: "process_result_value (Some (uuid_str 5)) = Inr (Some 5)"
  using guid_roundtrip [of "bind_uuid 5" "uuid_str 5"] by simp

text \<open>A braced or prefixed form, and one with upper-case digits, name the same UUID.\<close>

lemma lenient_forms:
  "uuid_of_str ''{urn:uuid:00000000-0000-0000-0000-0000000000AF}'' = Some 175"
  by (simp add: uuid_of_str_def remove_all_str_def strip_chars_def int_of_hex_def strip_def is_space_def hex_unsigned_def
      hex_val_def Let_def)

subsection \<open>A source of identifiers\<close>

text \<open>A source whose first hundred identifiers are UUIDs.\<close>

definition uuid_stream :: "nat \<Rightarrow> uuid" where
  "uuid_stream n = (if n < 100 then uuid_str (word_of_nat n) else replicate n (CHR ''z''))"

lemma length_uuid_str: "length (uuid_str u) = 36"
  by (simp add: uuid_str_def Let_def)

lemma uuid_str_inj: "uuid_str u = uuid_str v \<Longrightarrow> u = v"
  by (metis uuid_of_uuid_str option.inject)

lemma uuid_stream_inj: "inj uuid_stream"
proof (rule injI)
  fix m n :: nat
  assume eq: "uuid_stream m = uuid_stream n"
  show "m = n"
  proof (cases "m < 100 \<and> n < 100")
    case True
    then have "(word_of_nat m :: 128 word) = word_of_nat n" using eq uuid_str_inj by (simp add: uuid_stream_def)
    then have "unat (word_of_nat m :: 128 word) = unat (word_of_nat n :: 128 word)" by simp
    then show ?thesis using True by (simp add: unat_of_nat)
  next
    case False
    then show ?thesis using arg_cong [OF eq, of length] by (auto simp: uuid_stream_def length_uuid_str split: if_splits)
  qed
qed

lemma uuid_stream_uuids: "uuid_stream ` {..<100} \<subseteq> range uuid_str"
  by (auto simp: uuid_stream_def)

end
