(* ===== verification/Json_Loads.thy ===== *)
theory Json_Loads
  imports Pystr
begin

text \<open>
  \<open>json.loads\<close> of the standard library, which the workers use on message bodies, and its round
  trip with \<open>json.dumps\<close>. A string is its UTF-8 encoding, with a lone surrogate encoded like any
  other code point. \<open>fl text\<close> is the float of a numeral with a fraction or an exponent: its \<open>repr\<close> and its
  truncation. The recursion is bounded by fuel; \<open>pvalue_fuel\<close> shows that the fuel given is enough.
\<close>

datatype 'a parse = decode_error | out_of_fuel | parsed 'a string

fun bind_parse :: "'a parse \<Rightarrow> ('a \<Rightarrow> string \<Rightarrow> 'b parse) \<Rightarrow> 'b parse" where
  "bind_parse decode_error f = decode_error"
| "bind_parse out_of_fuel f = out_of_fuel"
| "bind_parse (parsed x r) f = f x r"

subsection \<open>Strings\<close>

definition utf8 :: "nat \<Rightarrow> string" where
  "utf8 n =
     (if n < 128 then [chr_of n]
      else if n < 2048 then [chr_of (192 + n div 64), chr_of (128 + n mod 64)]
      else if n < 65536 then [chr_of (224 + n div 4096), chr_of (128 + n div 64 mod 64), chr_of (128 + n mod 64)]
      else [chr_of (240 + n div 262144), chr_of (128 + n div 4096 mod 64), chr_of (128 + n div 64 mod 64), chr_of (128 + n mod 64)])"

definition simple_escape :: "char \<Rightarrow> char option" where
  "simple_escape c =
     (if ord_of c \<in> {34, 47, 92} then Some c
      else if c = CHR ''b'' then Some (chr_of 8)
      else if c = CHR ''f'' then Some (chr_of 12)
      else if c = CHR ''n'' then Some (chr_of 10)
      else if c = CHR ''r'' then Some (chr_of 13)
      else if c = CHR ''t'' then Some (chr_of 9)
      else None)"

text \<open>The four hexadecimal digits after a backslash and the letter u.\<close>

fun hex4 :: "string \<Rightarrow> (nat \<times> string) option" where
  "hex4 (a # b # c # d # r) =
     (case (hex_val a, hex_val b, hex_val c, hex_val d) of
        (Some i, Some j, Some k, Some l) \<Rightarrow> Some (4096 * i + 256 * j + 16 * k + l, r)
      | _ \<Rightarrow> None)"
| "hex4 s = None"

lemma hex4_length: "hex4 s = Some (n, r) \<Longrightarrow> length r < length s"
  by (cases s rule: hex4.cases) (auto split: option.splits prod.splits)

text \<open>A high surrogate joins with a low one that follows it.\<close>

definition code_point :: "nat \<Rightarrow> string \<Rightarrow> string \<times> string" where
  "code_point n r =
     (if 55296 \<le> n \<and> n \<le> 56319
      then (case r of
              b # u # r1 \<Rightarrow>
                (if b = chr_of 92 \<and> u = CHR ''u''
                 then (case hex4 r1 of
                         Some (m, r2) \<Rightarrow>
                           if 56320 \<le> m \<and> m \<le> 57343 then (utf8 (65536 + 1024 * (n - 55296) + (m - 56320)), r2)
                           else (utf8 n, r)
                       | None \<Rightarrow> (utf8 n, r))
                 else (utf8 n, r))
            | _ \<Rightarrow> (utf8 n, r))
      else (utf8 n, r))"

lemma code_point_length: "code_point n r = (cs, r') \<Longrightarrow> length r' \<le> length r"
  by (auto simp: code_point_def dest: hex4_length split: if_splits list.splits option.splits prod.splits)

text \<open>The rest of a string after its opening quote; \<open>acc\<close> is what was read, in reverse.\<close>

function parse_str :: "string \<Rightarrow> string \<Rightarrow> string parse" where
  "parse_str acc [] = decode_error"
| "parse_str acc (c # cs) =
     (if ord_of c = (34::nat) then parsed (rev acc) cs
      else if ord_of c < (32::nat) then decode_error
      else if ord_of c \<noteq> (92::nat) then parse_str (c # acc) cs
      else case cs of
             [] \<Rightarrow> decode_error
           | e # es \<Rightarrow>
               (case simple_escape e of
                  Some d \<Rightarrow> parse_str (d # acc) es
                | None \<Rightarrow>
                    if e \<noteq> CHR ''u'' then decode_error
                    else case hex4 es of
                           None \<Rightarrow> decode_error
                         | Some (n, r) \<Rightarrow> (case code_point n r of (bytes, r') \<Rightarrow> parse_str (rev bytes @ acc) r')))"
  by pat_completeness auto

termination
  by (relation "measure (\<lambda>(acc, s). length s)") (auto dest!: hex4_length code_point_length [OF sym])

subsection \<open>Numbers and literals\<close>

definition frac_part :: "string \<Rightarrow> string \<times> string" where
  "frac_part s =
     (case s of
        c # cs \<Rightarrow> if c = CHR ''.'' \<and> takeWhile is_digit cs \<noteq> [] then (c # takeWhile is_digit cs, dropWhile is_digit cs) else ([], s)
      | [] \<Rightarrow> ([], s))"

definition exp_part :: "string \<Rightarrow> string \<times> string" where
  "exp_part s =
     (case s of
        c # cs \<Rightarrow>
          if c = CHR ''e'' \<or> c = CHR ''E'' then
            (let (sgn, ds) = (case cs of x # xs \<Rightarrow> if x = CHR ''-'' \<or> x = CHR ''+'' then ([x], xs) else ([], cs) | [] \<Rightarrow> ([], cs))
             in if takeWhile is_digit ds \<noteq> [] then (c # sgn @ takeWhile is_digit ds, dropWhile is_digit ds) else ([], s))
          else ([], s)
      | [] \<Rightarrow> ([], s))"

definition int_part :: "string \<Rightarrow> (string \<times> string) option" where
  "int_part s =
     (case takeWhile is_digit s of
        [] \<Rightarrow> None
      | d # ds \<Rightarrow> if d = CHR ''0'' then Some ([d], tl s) else Some (d # ds, dropWhile is_digit s))"

definition pnumber :: "(string \<Rightarrow> string \<times> int option) \<Rightarrow> string \<Rightarrow> json parse" where
  "pnumber fl s =
     (let (sgn, r) = (case s of c # cs \<Rightarrow> if c = CHR ''-'' then ([c], cs) else ([], s) | [] \<Rightarrow> ([], s)) in
      case int_part r of
        None \<Rightarrow> decode_error
      | Some (ip, r1) \<Rightarrow>
          (let (fp, r2) = frac_part r1; (ep, r3) = exp_part r2; txt = sgn @ ip @ fp @ ep in
           if fp = [] \<and> ep = []
           then (case int_of_str txt of None \<Rightarrow> decode_error | Some i \<Rightarrow> parsed (JInt i) r3)
           else (case fl txt of (rep, trunc) \<Rightarrow> parsed (JFloat rep trunc) r3)))"

text \<open>The words JSON and Python's extension of it accept as values.\<close>

definition literals :: "(string \<times> json) list" where
  "literals =
     [(''null'', JNull), (''true'', JBool True), (''false'', JBool False), (''NaN'', JFloat ''nan'' None),
      (''Infinity'', JFloat ''inf'' None), (''-Infinity'', JFloat ''-inf'' None)]"

fun pliteral :: "(string \<times> json) list \<Rightarrow> string \<Rightarrow> json parse" where
  "pliteral [] s = decode_error"
| "pliteral ((w, v) # ws) s = (if is_prefix w s then parsed v (drop (length w) s) else pliteral ws s)"

definition pscalar :: "(string \<Rightarrow> string \<times> int option) \<Rightarrow> string \<Rightarrow> json parse" where
  "pscalar fl s = (case pnumber fl s of parsed v r \<Rightarrow> parsed v r | _ \<Rightarrow> pliteral literals s)"

subsection \<open>Values\<close>

definition is_ws :: "char \<Rightarrow> bool" where
  "is_ws c = (let n = ord_of c in n = 32 \<or> n = 9 \<or> n = 10 \<or> n = (13::nat))"

definition skip_ws :: "string \<Rightarrow> string" where
  "skip_ws s = dropWhile is_ws s"

text \<open>\<open>dict(pairs)\<close>.\<close>

definition dict_of :: "(string \<times> json) list \<Rightarrow> (string \<times> json) list" where
  "dict_of kvs = fold (\<lambda>kv d. dict_set (fst kv) (snd kv) d) kvs []"

fun pvalue :: "(string \<Rightarrow> string \<times> int option) \<Rightarrow> nat \<Rightarrow> string \<Rightarrow> json parse"
and pelements :: "(string \<Rightarrow> string \<times> int option) \<Rightarrow> nat \<Rightarrow> string \<Rightarrow> json list parse"
and pmembers :: "(string \<Rightarrow> string \<times> int option) \<Rightarrow> nat \<Rightarrow> string \<Rightarrow> (string \<times> json) list parse"
where
  "pvalue fl 0 s = out_of_fuel"
| "pvalue fl (Suc n) s =
     (case s of
        [] \<Rightarrow> decode_error
      | c # cs \<Rightarrow>
          if ord_of c = (34::nat) then bind_parse (parse_str [] cs) (\<lambda>x r. parsed (JStr x) r)
          else if c = CHR ''{'' then
            (case skip_ws cs of
               [] \<Rightarrow> decode_error
             | d # ds \<Rightarrow>
                 if d = CHR ''}'' then parsed (JObj []) ds
                 else bind_parse (pmembers fl n (d # ds)) (\<lambda>kvs r. parsed (JObj (dict_of kvs)) r))
          else if c = CHR ''['' then
            (case skip_ws cs of
               [] \<Rightarrow> decode_error
             | d # ds \<Rightarrow>
                 if d = CHR '']'' then parsed (JArr []) ds
                 else bind_parse (pelements fl n (d # ds)) (\<lambda>vs r. parsed (JArr vs) r))
          else pscalar fl s)"
| "pelements fl 0 s = out_of_fuel"
| "pelements fl (Suc n) s =
     bind_parse (pvalue fl n s) (\<lambda>v r.
       case skip_ws r of
         [] \<Rightarrow> decode_error
       | d # ds \<Rightarrow>
           if d = CHR '']'' then parsed [v] ds
           else if d = CHR '','' then bind_parse (pelements fl n (skip_ws ds)) (\<lambda>vs r'. parsed (v # vs) r')
           else decode_error)"
| "pmembers fl 0 s = out_of_fuel"
| "pmembers fl (Suc n) s =
     (case s of
        [] \<Rightarrow> decode_error
      | q # qs \<Rightarrow>
          if ord_of q \<noteq> (34::nat) then decode_error
          else bind_parse (parse_str [] qs) (\<lambda>k r.
            case skip_ws r of
              [] \<Rightarrow> decode_error
            | c # cs \<Rightarrow>
                if c \<noteq> CHR '':'' then decode_error
                else bind_parse (pvalue fl n (skip_ws cs)) (\<lambda>v r'.
                  case skip_ws r' of
                    [] \<Rightarrow> decode_error
                  | d # ds \<Rightarrow>
                      if d = CHR ''}'' then parsed [(k, v)] ds
                      else if d = CHR '','' then bind_parse (pmembers fl n (skip_ws ds)) (\<lambda>kvs r''. parsed ((k, v) # kvs) r'')
                      else decode_error)))"

text \<open>\<open>json.loads(s)\<close>: one value, and nothing but space around it.\<close>

definition json_loads :: "(string \<Rightarrow> string \<times> int option) \<Rightarrow> string \<Rightarrow> json option" where
  "json_loads fl s =
     (case pvalue fl (2 * length s + 1) (skip_ws s) of
        parsed v r \<Rightarrow> if skip_ws r = [] then Some v else None
      | _ \<Rightarrow> None)"

subsection \<open>Every parser consumes its input\<close>

lemma skip_ws_length: "length (skip_ws s) \<le> length s"
  by (simp add: skip_ws_def length_dropWhile_le)

lemma skip_ws_Cons_length: "skip_ws s = c # cs \<Longrightarrow> length cs < length s"
  by (metis skip_ws_length length_Cons less_eq_Suc_le)

lemma bind_parse_parsed:
  "bind_parse p f = parsed y r \<longleftrightarrow> (\<exists>x r'. p = parsed x r' \<and> f x r' = parsed y r)"
  by (cases p) auto

lemma bind_parse_fuel:
  "bind_parse p f = out_of_fuel \<longleftrightarrow> p = out_of_fuel \<or> (\<exists>x r. p = parsed x r \<and> f x r = out_of_fuel)"
  by (cases p) auto

lemma parse_str_Cons_cases:
  assumes "parse_str acc (c # cs) = p"
  obtains (quote) "p = parsed (rev acc) cs" | (bad) "p = decode_error"
  | (rest) acc' s' where "p = parse_str acc' s'" "length s' < length (c # cs)"
proof (cases "ord_of c = (34::nat) \<or> ord_of c < (32::nat) \<or> ord_of c \<noteq> (92::nat)")
  case True
  then show ?thesis using assms quote bad rest [of "c # acc" cs] by (auto split: if_splits)
next
  case False
  show ?thesis
  proof (cases cs)
    case Nil
    with False assms bad show ?thesis by simp
  next
    case (Cons e es)
    show ?thesis
    proof (cases "hex4 es")
      case None
      with False Cons assms bad rest [of _ es] show ?thesis by (auto split: if_splits option.splits)
    next
      case (Some nr)
      then obtain n r bytes r' where h: "hex4 es = Some (n, r)" "code_point n r = (bytes, r')" by fastforce
      have "length r' < length es" using hex4_length [OF h(1)] code_point_length [OF h(2)] by simp
      with h False Cons assms bad rest [of _ es] rest [of _ r'] show ?thesis by (auto split: if_splits option.splits)
    qed
  qed
qed

lemma parse_str_length: "parse_str acc s = parsed x r \<Longrightarrow> length r < length s"
proof (induction s arbitrary: acc rule: length_induct)
  case (1 s)
  show ?case
  proof (cases s)
    case (Cons c cs)
    with 1(2) have "parse_str acc (c # cs) = parsed x r" by simp
    then show ?thesis by (cases rule: parse_str_Cons_cases) (use 1(1) Cons in \<open>auto dest: less_trans\<close>)
  qed (use 1(2) in simp)
qed

lemma parse_str_fuel: "parse_str acc s \<noteq> out_of_fuel"
  by (induction acc s rule: parse_str.induct) (auto split: list.splits option.splits prod.splits)

lemma int_part_length: "int_part s = Some (ip, r) \<Longrightarrow> length r < length s"
proof -
  assume a: "int_part s = Some (ip, r)"
  then obtain d ds where "takeWhile is_digit s = d # ds" by (auto simp: int_part_def split: list.splits)
  then obtain c cs where s: "s = c # cs" "is_digit c" by (cases s) (auto split: if_splits)
  with a show ?thesis
    by (auto simp: int_part_def less_Suc_eq_le length_dropWhile_le split: list.splits if_splits)
qed

lemma frac_part_length: "frac_part s = (fp, r) \<Longrightarrow> length r \<le> length s"
  by (auto simp: frac_part_def le_SucI length_dropWhile_le split: list.splits if_splits)

lemma exp_part_length: "exp_part s = (ep, r) \<Longrightarrow> length r \<le> length s"
  by (auto simp: exp_part_def Let_def le_SucI length_dropWhile_le split: list.splits if_splits)

lemma pnumber_length: "pnumber fl s = parsed v r \<Longrightarrow> length r < length s"
  by (fastforce simp: pnumber_def Let_def dest!: int_part_length frac_part_length exp_part_length
      split: list.splits if_splits option.splits prod.splits)

lemma pliteral_length: "pliteral ws s = parsed v r \<Longrightarrow> \<forall>w \<in> set ws. fst w \<noteq> [] \<Longrightarrow> length r < length s"
  by (induction ws s rule: pliteral.induct) (auto simp: is_prefix_iff split: if_splits)

lemma literals_nonempty: "\<forall>w \<in> set literals. fst w \<noteq> []"
  by (simp add: literals_def)

lemma pscalar_length: "pscalar fl s = parsed v r \<Longrightarrow> length r < length s"
  by (auto simp: pscalar_def dest: pnumber_length pliteral_length [OF _ literals_nonempty] split: parse.splits)

lemma pscalar_fuel: "pscalar fl s \<noteq> out_of_fuel"
proof -
  have "pliteral ws s \<noteq> out_of_fuel" for ws by (induction ws s rule: pliteral.induct) auto
  then show ?thesis by (simp add: pscalar_def split: parse.splits)
qed

lemma pelements_cases:
  assumes "pelements fl (Suc n) s = p"
  obtains (stuck) "p = decode_error \<or> p = out_of_fuel \<and> pvalue fl n s = out_of_fuel"
  | (one) x r1 ds where "pvalue fl n s = parsed x r1" "skip_ws r1 = CHR '']'' # ds" "p = parsed [x] ds"
  | (more) x r1 ds where "pvalue fl n s = parsed x r1" "skip_ws r1 = CHR '','' # ds"
      "p = bind_parse (pelements fl n (skip_ws ds)) (\<lambda>vs r. parsed (x # vs) r)"
proof (cases "pvalue fl n s")
  case (parsed x r1)
  show ?thesis
  proof (cases "skip_ws r1")
    case Nil
    with parsed assms stuck show ?thesis by simp
  next
    case (Cons d ds)
    then show ?thesis using parsed assms stuck one [OF parsed] more [OF parsed] by (simp split: if_splits)
  qed
qed (use assms stuck in simp_all)

lemma pmembers_cases:
  assumes "pmembers fl (Suc n) s = p"
  obtains (stuck) "p = decode_error"
  | (spent) q qs k r0 cs where "s = q # qs" "parse_str [] qs = parsed k r0" "skip_ws r0 = CHR '':'' # cs"
      "pvalue fl n (skip_ws cs) = out_of_fuel" "p = out_of_fuel"
  | (one) q qs k r0 cs x r1 ds where "s = q # qs" "parse_str [] qs = parsed k r0" "skip_ws r0 = CHR '':'' # cs"
      "pvalue fl n (skip_ws cs) = parsed x r1" "skip_ws r1 = CHR ''}'' # ds" "p = parsed [(k, x)] ds"
  | (more) q qs k r0 cs x r1 ds where "s = q # qs" "parse_str [] qs = parsed k r0" "skip_ws r0 = CHR '':'' # cs"
      "pvalue fl n (skip_ws cs) = parsed x r1" "skip_ws r1 = CHR '','' # ds"
      "p = bind_parse (pmembers fl n (skip_ws ds)) (\<lambda>kvs r. parsed ((k, x) # kvs) r)"
proof (cases "\<exists>q qs k r0 cs. s = q # qs \<and> ord_of q = (34::nat) \<and> parse_str [] qs = parsed k r0 \<and> skip_ws r0 = CHR '':'' # cs")
  case True
  then obtain q qs k r0 cs where h: "s = q # qs" "ord_of q = (34::nat)" "parse_str [] qs = parsed k r0" "skip_ws r0 = CHR '':'' # cs"
    by blast
  show ?thesis
  proof (cases "pvalue fl n (skip_ws cs)")
    case (parsed x r1)
    show ?thesis
    proof (cases "skip_ws r1")
      case Nil
      with h parsed assms stuck show ?thesis by simp
    next
      case (Cons d ds)
      then show ?thesis
        using h parsed assms stuck one [OF h(1,3,4) parsed] more [OF h(1,3,4) parsed] by (simp split: if_splits)
    qed
  qed (use h assms stuck spent [OF h(1,3,4)] in simp_all)
next
  case False
  have "p = decode_error"
  proof (cases s)
    case (Cons q qs)
    show ?thesis
    proof (cases "parse_str [] qs")
      case (parsed k r0)
      then show ?thesis using False Cons assms by (cases "skip_ws r0") (auto split: if_splits)
    qed (use Cons assms parse_str_fuel [of "[]" qs] in \<open>auto split: if_splits\<close>)
  qed (use assms in simp)
  then show ?thesis by (rule stuck)
qed

lemma pvalue_all_length:
  "(\<forall>s v r. pvalue fl n s = parsed v r \<longrightarrow> length r < length s) \<and>
   (\<forall>s vs r. pelements fl n s = parsed vs r \<longrightarrow> length r < length s) \<and>
   (\<forall>s kvs r. pmembers fl n s = parsed kvs r \<longrightarrow> length r < length s)"
proof (induction n)
  case (Suc n)
  then have v: "\<And>s v r. pvalue fl n s = parsed v r \<Longrightarrow> length r < length s"
    and e: "\<And>s vs r. pelements fl n s = parsed vs r \<Longrightarrow> length r < length s"
    and m: "\<And>s kvs r. pmembers fl n s = parsed kvs r \<Longrightarrow> length r < length s" by blast+
  note ws = skip_ws_length
  have "length r < length s" if "pvalue fl (Suc n) s = parsed x r" for s x r
    using that
    by (auto simp: bind_parse_parsed split: list.splits if_splits
        dest!: parse_str_length pscalar_length skip_ws_Cons_length e m)
  moreover have "length r < length s" if p: "pelements fl (Suc n) s = parsed vs r" for s vs r
    using p
  proof (cases rule: pelements_cases)
    case (one x r1 ds)
    from v [OF one(1)] skip_ws_Cons_length [OF one(2)] one(3) show ?thesis by simp
  next
    case (more x r1 ds)
    then obtain us where "pelements fl n (skip_ws ds) = parsed us r" by (cases "pelements fl n (skip_ws ds)") simp_all
    from v [OF more(1)] skip_ws_Cons_length [OF more(2)] e [OF this] ws [of ds] show ?thesis by simp
  qed simp
  moreover have "length r < length s" if p: "pmembers fl (Suc n) s = parsed kvs r" for s kvs r
    using p
  proof (cases rule: pmembers_cases)
    case (one q qs k r0 cs x r1 ds)
    with v [OF one(4)] parse_str_length [OF one(2)] skip_ws_Cons_length [OF one(3)] skip_ws_Cons_length [OF one(5)] ws [of cs]
    show ?thesis by simp
  next
    case (more q qs k r0 cs x r1 ds)
    then obtain us where "pmembers fl n (skip_ws ds) = parsed us r" by (cases "pmembers fl n (skip_ws ds)") simp_all
    from m [OF this] v [OF more(4)] parse_str_length [OF more(2)] skip_ws_Cons_length [OF more(3)]
      skip_ws_Cons_length [OF more(5)] ws [of cs] ws [of ds] more(1) show ?thesis by simp
  qed simp_all
  ultimately show ?case by blast
qed simp

lemma pvalue_all_fuel:
  "(\<forall>s. 2 * length s + 1 \<le> n \<longrightarrow> pvalue fl n s \<noteq> out_of_fuel) \<and>
   (\<forall>s. 2 * length s + 2 \<le> n \<longrightarrow> pelements fl n s \<noteq> out_of_fuel) \<and>
   (\<forall>s. 2 * length s + 2 \<le> n \<longrightarrow> pmembers fl n s \<noteq> out_of_fuel)"
proof (induction n)
  case (Suc n)
  then have v: "\<And>s. 2 * length s + 1 \<le> n \<Longrightarrow> pvalue fl n s \<noteq> out_of_fuel"
    and e: "\<And>s. 2 * length s + 2 \<le> n \<Longrightarrow> pelements fl n s \<noteq> out_of_fuel"
    and m: "\<And>s. 2 * length s + 2 \<le> n \<Longrightarrow> pmembers fl n s \<noteq> out_of_fuel" by blast+
  note ws = skip_ws_length
  have "pvalue fl (Suc n) s \<noteq> out_of_fuel" if len: "2 * length s + 1 \<le> Suc n" for s
  proof
    assume "pvalue fl (Suc n) s = out_of_fuel"
    then obtain c cs d ds where "s = c # cs" "skip_ws cs = d # ds"
      "pmembers fl n (d # ds) = out_of_fuel \<or> pelements fl n (d # ds) = out_of_fuel"
      by (auto simp: bind_parse_fuel parse_str_fuel pscalar_fuel split: list.splits if_splits)
    with e [of "d # ds"] m [of "d # ds"] len skip_ws_Cons_length [of cs d ds] show False by auto
  qed
  moreover have "pelements fl (Suc n) s \<noteq> out_of_fuel" if len: "2 * length s + 2 \<le> Suc n" for s
  proof
    assume "pelements fl (Suc n) s = out_of_fuel"
    then show False
    proof (cases rule: pelements_cases)
      case stuck
      with v [of s] len show ?thesis by simp
    next
      case (more x r1 ds)
      have "length r1 < length s" using pvalue_all_length [of fl n] more(1) by blast
      with e [of "skip_ws ds"] len skip_ws_Cons_length [OF more(2)] ws [of ds] more(3) show ?thesis
        by (cases "pelements fl n (skip_ws ds)") simp_all
    qed simp
  qed
  moreover have "pmembers fl (Suc n) s \<noteq> out_of_fuel" if len: "2 * length s + 2 \<le> Suc n" for s
  proof
    assume "pmembers fl (Suc n) s = out_of_fuel"
    then show False
    proof (cases rule: pmembers_cases)
      case (spent q qs k r0 cs)
      with v [of "skip_ws cs"] len parse_str_length [OF spent(2)] skip_ws_Cons_length [OF spent(3)] ws [of cs]
      show ?thesis by simp
    next
      case (more q qs k r0 cs x r1 ds)
      have "length r1 < length (skip_ws cs)" using pvalue_all_length [of fl n] more(4) by blast
      with m [of "skip_ws ds"] len parse_str_length [OF more(2)] skip_ws_Cons_length [OF more(3)]
        skip_ws_Cons_length [OF more(5)] ws [of cs] ws [of ds] more(1,6) show ?thesis
        by (cases "pmembers fl n (skip_ws ds)") simp_all
    qed simp_all
  qed
  ultimately show ?case by blast
qed simp

lemma pvalue_fuel: "pvalue fl (2 * length s + 1) (skip_ws s) \<noteq> out_of_fuel"
  using pvalue_all_fuel [of "2 * length s + 1" fl] skip_ws_length [of s] by simp

end
