(* ===== verification/Json_Roundtrip.thy ===== *)
theory Json_Roundtrip
  imports Json_Loads
begin

text \<open>
  \<open>json.loads(json.dumps(v)) = v\<close> for values without floats whose strings are ASCII and whose
  objects repeat no key: the messages on the queues are of this kind.
\<close>

subsection \<open>Strings\<close>

definition ascii :: "string \<Rightarrow> bool" where
  "ascii s \<longleftrightarrow> (\<forall>c \<in> set s. ord_of c < (128::nat))"

lemma chr_ord: "ord_of c = n \<Longrightarrow> c = chr_of n"
  by auto

lemma hex4_u: "n < 256 \<Longrightarrow> hex4 (CHR ''0'' # CHR ''0'' # hex_digit (n div 16) # hex_digit (n mod 16) # r) = Some (n, r)"
proof -
  assume "n < 256"
  then have "n div 16 < 16" by simp
  moreover have "hex_val (CHR ''0'') = Some 0" by (simp add: hex_val_def Let_def)
  ultimately show ?thesis by simp
qed

lemma parse_str_escape:
  assumes "ord_of c < (128::nat)"
  shows "parse_str acc (json_escape c @ r) = parse_str (c # acc) r"
proof -
  define n :: nat where "n = ord_of c"
  then have c: "c = chr_of n" and n: "n < 128" using assms by simp_all
  consider "n \<in> {34, 92, 10, 13, 9, 12, 8}" | "32 \<le> n \<and> n \<le> 126 \<and> n \<noteq> 34 \<and> n \<noteq> 92"
    | "n \<notin> {34, 92, 10, 13, 9, 12, 8}" "\<not> (32 \<le> n \<and> n \<le> 126)" by blast
  then show ?thesis
  proof cases
    case 1
    then show ?thesis
      by (elim insertE) (simp_all add: json_escape_def Let_def n_def [symmetric] simple_escape_def, simp_all add: c)
  next
    case 2
    then show ?thesis by (auto simp: json_escape_def Let_def n_def)
  next
    case 3
    then have e: "json_escape c = u_escape n" by (auto simp: json_escape_def Let_def n_def [symmetric])
    have "simple_escape (CHR ''u'') = None" by (simp add: simple_escape_def)
    moreover have "code_point n r = ([c], r)" using n c by (simp add: code_point_def utf8_def)
    ultimately show ?thesis unfolding e u_escape_def using hex4_u [of n r] n by simp
  qed
qed

lemma parse_str_quote:
  "ascii s \<Longrightarrow> parse_str acc (concat (map json_escape s) @ chr_of 34 # r) = parsed (rev acc @ s) r"
  by (induction s arbitrary: acc) (auto simp: ascii_def parse_str_escape)

subsection \<open>Integers\<close>

lemma show_nat_digits: "show_nat n \<noteq> [] \<and> (\<forall>c \<in> set (show_nat n). is_digit c)"
proof (induction n rule: show_nat.induct)
  case (1 n)
  then show ?case by (subst (1 2) show_nat.simps) (auto simp: is_digit_def Let_def)
qed

lemma show_nat_zero: "hd (show_nat n) = CHR ''0'' \<Longrightarrow> n = 0"
proof (induction n rule: show_nat.induct)
  case (1 n)
  show ?case
  proof (cases "n < 10")
    case True
    then have "chr_of (48 + n) = CHR ''0''" using 1(2) by (simp add: show_nat.simps [of n])
    then have "ord_of (chr_of (48 + n)) = (48::nat)" by simp
    with True show ?thesis by simp
  next
    case False
    then have "show_nat n = show_nat (n div 10) @ [chr_of (48 + n mod 10)]" by (simp add: show_nat.simps [of n])
    with 1 False show_nat_digits [of "n div 10"] have "n div 10 = 0" by simp
    with False show ?thesis by simp
  qed
qed

lemma digits_val_show_nat:
  "digits_val a b (show_nat n @ r) = digits_val (a * 10 ^ length (show_nat n) + n) True r"
proof (induction n arbitrary: r rule: show_nat.induct)
  case (1 n)
  have dig: "is_digit (chr_of (48 + m)) \<and> ord_of (chr_of (48 + m)) - 48 = m" if "m < 10" for m
    using that by (simp add: is_digit_def Let_def)
  show ?case
  proof (cases "n < 10")
    case True
    then show ?thesis using dig [of n] by (simp add: show_nat.simps [of n] algebra_simps)
  next
    case False
    then have s: "show_nat n = show_nat (n div 10) @ [chr_of (48 + n mod 10)]" by (simp add: show_nat.simps [of n])
    show ?thesis using 1(1) [OF False, of "chr_of (48 + n mod 10) # r"] dig [of "n mod 10"]
      unfolding s by (simp add: algebra_simps)
  qed
qed

lemma show_nat_no_space: "c \<in> set (show_nat n) \<Longrightarrow> \<not> is_space c"
  using show_nat_digits [of n] by (auto simp: is_digit_def is_space_def Let_def)

definition delim :: "string \<Rightarrow> bool" where
  "delim r \<longleftrightarrow> (case r of [] \<Rightarrow> True | c # cs \<Rightarrow> c = CHR '','' \<or> c = CHR '']'' \<or> c = CHR ''}'')"

lemma delim_stops:
  assumes "delim r"
  shows "takeWhile is_digit r = []" "dropWhile is_digit r = r" "frac_part r = ([], r)" "exp_part r = ([], r)"
  using assms by (auto simp: delim_def is_digit_def Let_def frac_part_def exp_part_def split: list.splits)

lemma int_part_show_nat:
  assumes "delim r"
  shows "int_part (show_nat n @ r) = Some (show_nat n, r)"
proof -
  have d: "takeWhile is_digit (show_nat n @ r) = show_nat n" "dropWhile is_digit (show_nat n @ r) = r"
    using show_nat_digits [of n] delim_stops [OF assms] by (simp_all add: takeWhile_append2 dropWhile_append2)
  obtain c cs where s: "show_nat n = c # cs" using show_nat_digits [of n] by (cases "show_nat n") auto
  show ?thesis
  proof (cases "c = CHR ''0''")
    case True
    then have "n = 0" using show_nat_zero [of n] s by simp
    then have "cs = []" using s by (simp add: show_nat.simps [of 0])
    with d s True show ?thesis by (simp add: int_part_def)
  next
    case False
    with d s show ?thesis by (simp add: int_part_def)
  qed
qed

lemma int_of_show_int: "int_of_str (show_int i) = Some i"
proof -
  obtain c cs where s: "show_nat (nat i) = c # cs" "is_digit c"
    using show_nat_digits [of "nat i"] by (cases "show_nat (nat i)") auto
  then have c: "c \<noteq> CHR ''-''" "c \<noteq> CHR ''+''" by (auto simp: is_digit_def Let_def)
  have st: "strip (show_nat k) = show_nat k" "strip (CHR ''-'' # show_nat k) = CHR ''-'' # show_nat k" for k
    using show_nat_no_space [of _ k] by (auto intro!: strip_id simp: is_space_def Let_def)
  show ?thesis
  proof (cases "i < 0")
    case True
    then show ?thesis using st digits_val_show_nat [of 0 False "nat (- i)" "[]"]
      by (simp add: show_int_def int_of_str_def)
  next
    case False
    then show ?thesis using s(1) c st(1) [of "nat i"] digits_val_show_nat [of 0 False "nat i" "[]"]
      by (simp add: show_int_def int_of_str_def)
  qed
qed

lemma show_int_parts:
  "\<exists>sgn n. show_int i = sgn @ show_nat n \<and> (sgn = [] \<or> sgn = ''-'')"
proof (cases "i < 0")
  case True
  then have "show_int i = ''-'' @ show_nat (nat (- i))" by (simp add: show_int_def)
  then show ?thesis by blast
next
  case False
  then have "show_int i = [] @ show_nat (nat i)" by (simp add: show_int_def)
  then show ?thesis by blast
qed

lemma pscalar_show_int:
  assumes "delim r"
  shows "pscalar fl (show_int i @ r) = parsed (JInt i) r"
proof -
  obtain sgn n where i: "show_int i = sgn @ show_nat n" and sgn: "sgn = [] \<or> sgn = ''-''" using show_int_parts by blast
  obtain c cs where s: "show_nat n = c # cs" "is_digit c" using show_nat_digits [of n] by (cases "show_nat n") auto
  have "c \<noteq> CHR ''-''" using s(2) by (auto simp: is_digit_def Let_def)
  then have "(case sgn @ show_nat n @ r of [] \<Rightarrow> ([], sgn @ show_nat n @ r)
      | x # xs \<Rightarrow> if x = CHR ''-'' then ([x], xs) else ([], sgn @ show_nat n @ r)) = (sgn, show_nat n @ r)"
    using s(1) sgn by auto
  then have "pnumber fl (sgn @ show_nat n @ r) = parsed (JInt i) r"
    using i int_of_show_int [of i] int_part_show_nat [OF assms, of n] delim_stops [OF assms]
    by (simp add: pnumber_def Let_def)
  then have "pnumber fl (show_int i @ r) = parsed (JInt i) r" using i by simp
  then show ?thesis by (simp add: pscalar_def)
qed

subsection \<open>Values\<close>

fun plain :: "json \<Rightarrow> bool" where
  "plain JNull = True"
| "plain (JBool b) = True"
| "plain (JInt i) = True"
| "plain (JFloat r n) = False"
| "plain (JStr s) = ascii s"
| "plain (JArr vs) = (\<forall>v \<in> set vs. plain v)"
| "plain (JObj kvs) = (distinct (map fst kvs) \<and> (\<forall>kv \<in> set kvs. ascii (fst kv) \<and> plain (snd kv)))"

lemma dict_set_fresh: "k \<notin> fst ` set d \<Longrightarrow> dict_set k v d = d @ [(k, v)]"
  by (induction d) auto

lemma dict_of_distinct: "distinct (map fst kvs) \<Longrightarrow> dict_of kvs = kvs"
proof -
  have "distinct (map fst (acc @ kvs)) \<Longrightarrow> fold (\<lambda>kv d. dict_set (fst kv) (snd kv) d) kvs acc = acc @ kvs" for acc
  proof (induction kvs arbitrary: acc)
    case (Cons kv kvs)
    then have "dict_set (fst kv) (snd kv) acc = acc @ [kv]" by (simp add: dict_set_fresh)
    then show ?case using Cons.IH [of "acc @ [kv]"] Cons.prems by simp
  qed simp
  from this [of "[]"] show "distinct (map fst kvs) \<Longrightarrow> dict_of kvs = kvs" by (simp add: dict_of_def)
qed

text \<open>The first character of a printed value: never a space or a closing bracket.\<close>

definition opens :: "string \<Rightarrow> bool" where
  "opens s \<longleftrightarrow> (case s of [] \<Rightarrow> False | c # cs \<Rightarrow> \<not> is_ws c \<and> c \<noteq> CHR '']'' \<and> c \<noteq> CHR ''}'')"

lemma opens_append: "opens s \<Longrightarrow> opens (s @ r)"
  by (auto simp: opens_def split: list.splits)

lemma quote_char: "chr_of 34 = CHR 0x22"
  by code_simp

lemma opens_quote: "opens (json_quote s)"
  by (simp add: opens_def json_quote_def is_ws_def Let_def quote_char)

lemma opens_dumps: "plain v \<Longrightarrow> opens (json_dumps v)"
proof (cases v)
  case (JInt i)
  obtain sgn n where i: "show_int i = sgn @ show_nat n" "sgn = [] \<or> sgn = ''-''" using show_int_parts by blast
  obtain c cs where s: "show_nat n = c # cs" "is_digit c" using show_nat_digits [of n] by (cases "show_nat n") auto
  then show ?thesis using JInt i by (auto simp: opens_def is_digit_def is_ws_def Let_def)
qed (auto simp: opens_def is_ws_def Let_def json_quote_def quote_char)

lemma opens_skip_ws: "opens s \<Longrightarrow> skip_ws s = s" "opens s \<Longrightarrow> skip_ws (CHR '' '' # s) = s"
  by (auto simp: opens_def skip_ws_def is_ws_def Let_def split: list.splits)

lemma skip_ws_sep [simp]:
  "skip_ws (CHR '']'' # r) = CHR '']'' # r" "skip_ws (CHR ''}'' # r) = CHR ''}'' # r"
  "skip_ws (CHR '','' # r) = CHR '','' # r" "skip_ws (CHR '':'' # r) = CHR '':'' # r" "skip_ws [] = []"
  by (simp_all add: skip_ws_def is_ws_def Let_def)

lemma delim_sep [simp]: "delim (CHR '']'' # r)" "delim (CHR ''}'' # r)" "delim (CHR '','' # r)" "delim []"
  by (simp_all add: delim_def)

text \<open>What the parser of values returns on a printed value, given enough fuel.\<close>

definition reads_back :: "json \<Rightarrow> bool" where
  "reads_back v \<longleftrightarrow>
     (\<forall>fl n r. delim r \<longrightarrow> 2 * length (json_dumps v) + 1 \<le> n \<longrightarrow> pvalue fl n (json_dumps v @ r) = parsed v r)"

lemma reads_backD:
  "reads_back v \<Longrightarrow> delim r \<Longrightarrow> 2 * length (json_dumps v) + 1 \<le> n \<Longrightarrow> pvalue fl n (json_dumps v @ r) = parsed v r"
  by (simp add: reads_back_def)

lemma join_opens: "xs \<noteq> [] \<Longrightarrow> opens (hd xs) \<Longrightarrow> opens (join sep xs)"
  by (cases "(sep, xs)" rule: join.cases) (auto simp: opens_append)

lemma pelements_join:
  assumes "vs \<noteq> []" "\<forall>v \<in> set vs. plain v \<and> reads_back v"
    and "2 * length (join '', '' (map json_dumps vs)) + 2 \<le> n"
  shows "pelements fl n (join '', '' (map json_dumps vs) @ CHR '']'' # r) = parsed vs r"
  using assms
proof (induction vs arbitrary: n)
  case (Cons v vs)
  obtain m where n: "n = Suc m" using Cons.prems(3) by (cases n) auto
  show ?case
  proof (cases vs)
    case Nil
    then show ?thesis using Cons.prems n reads_backD [of v "CHR '']'' # r" m] by simp
  next
    case (Cons u us)
    let ?rest = "join '', '' (map json_dumps vs) @ CHR '']'' # r"
    have "opens (join '', '' (map json_dumps vs))"
      using Cons Cons.prems(2) by (intro join_opens) (simp_all add: opens_dumps)
    then have ws: "skip_ws (CHR '' '' # ?rest) = ?rest" by (intro opens_skip_ws opens_append)
    have "pvalue fl m (json_dumps v @ CHR '','' # CHR '' '' # ?rest) = parsed v (CHR '','' # CHR '' '' # ?rest)"
      using Cons.prems Cons n by (intro reads_backD) simp_all
    moreover have "pelements fl m ?rest = parsed vs r"
      using Cons.prems Cons n by (intro Cons.IH) auto
    ultimately show ?thesis using ws Cons n by simp
  qed
qed simp

definition json_item :: "string \<times> json \<Rightarrow> string" where
  "json_item kv = json_quote (fst kv) @ '': '' @ json_dumps (snd kv)"

lemma json_dumps_obj: "json_dumps (JObj kvs) = ''{'' @ join '', '' (map json_item kvs) @ ''}''"
  by (simp add: json_item_def [abs_def])

lemma opens_item: "opens (json_item kv)"
  by (simp add: json_item_def opens_append opens_quote)

lemma pmembers_join:
  assumes "kvs \<noteq> []" "\<forall>kv \<in> set kvs. ascii (fst kv) \<and> plain (snd kv) \<and> reads_back (snd kv)"
    and "2 * length (join '', '' (map json_item kvs)) + 2 \<le> n"
  shows "pmembers fl n (join '', '' (map json_item kvs) @ CHR ''}'' # r) =
    parsed kvs r"
  using assms
proof (induction kvs arbitrary: n)
  case (Cons kv kvs)
  obtain m where n: "n = Suc m" using Cons.prems(3) by (cases n) auto
  have q: "parse_str [] (concat (map json_escape (fst kv)) @ CHR 0x22 # x) = parsed (fst kv) x" for x
    using parse_str_quote [of "fst kv" "[]" x] Cons.prems(2) by (simp add: quote_char)
  have ws: "skip_ws (CHR '' '' # json_dumps (snd kv) @ x) = json_dumps (snd kv) @ x" for x
    using Cons.prems(2) by (simp add: opens_skip_ws opens_append opens_dumps)
  have first: "pvalue fl m (json_dumps (snd kv) @ x) = parsed (snd kv) x" if "delim x" for x
  proof (rule reads_backD [OF _ that])
    have "length (json_dumps (snd kv)) \<le> length (join '', '' (map json_item (kv # kvs)))"
      by (cases kvs) (simp_all add: json_item_def)
    then show "2 * length (json_dumps (snd kv)) + 1 \<le> m" using Cons.prems(3) n by simp
  qed (use Cons.prems(2) in simp)
  show ?case
  proof (cases kvs)
    case Nil
    then show ?thesis using q ws first n by (simp add: json_item_def json_quote_def quote_char)
  next
    case (Cons u us)
    let ?rest = "join '', '' (map json_item kvs) @ CHR ''}'' # r"
    have "opens (join '', '' (map json_item kvs))"
      using Cons by (intro join_opens) (simp_all add: opens_item)
    then have ws': "skip_ws (CHR '' '' # ?rest) = ?rest" by (intro opens_skip_ws opens_append)
    have "pmembers fl m ?rest = parsed kvs r"
      using Cons.prems Cons n by (intro Cons.IH) auto
    then show ?thesis using q ws first ws' n Cons by (simp add: json_item_def [of kv] json_quote_def quote_char)
  qed
qed simp

lemma reads_back_scalar:
  assumes "json_dumps v = c # cs" "ord_of c \<noteq> (34::nat)" "c \<noteq> CHR ''{''" "c \<noteq> CHR ''[''"
    and "\<And>fl r. delim r \<Longrightarrow> pscalar fl (json_dumps v @ r) = parsed v r"
  shows "reads_back v"
  unfolding reads_back_def
proof (intro allI impI)
  fix fl n r assume "delim r" "2 * length (json_dumps v) + 1 \<le> n"
  moreover from this obtain m where "n = Suc m" by (cases n) auto
  ultimately show "pvalue fl n (json_dumps v @ r) = parsed v r" using assms(5) [of r fl] assms(1-4) by simp
qed

lemma pscalar_literal:
  assumes "(w, v) \<in> {(''null'', JNull), (''true'', JBool True), (''false'', JBool False)}"
  shows "pscalar fl (w @ r) = parsed v r"
  using assms
  by (auto simp: pscalar_def pnumber_def int_part_def literals_def is_digit_def Let_def)

lemma plain_reads_back: "plain v \<Longrightarrow> reads_back v"
proof (induction v)
  case (JStr s)
  show ?case unfolding reads_back_def
  proof (intro allI impI)
    fix fl n r assume "2 * length (json_dumps (JStr s)) + 1 \<le> n"
    then obtain m where "n = Suc m" by (cases n) auto
    then show "pvalue fl n (json_dumps (JStr s) @ r) = parsed (JStr s) r"
      using parse_str_quote [of s "[]" r] JStr by (simp add: json_quote_def quote_char)
  qed
next
  case (JArr vs)
  show ?case unfolding reads_back_def
  proof (intro allI impI)
    fix fl n r assume len: "2 * length (json_dumps (JArr vs)) + 1 \<le> n"
    then obtain m where n: "n = Suc m" by (cases n) auto
    show "pvalue fl n (json_dumps (JArr vs) @ r) = parsed (JArr vs) r"
    proof (cases "vs = []")
      case False
      let ?body = "join '', '' (map json_dumps vs)"
      have body: "opens (?body @ CHR '']'' # r)"
        using False JArr by (intro opens_append join_opens) (simp_all add: hd_map opens_dumps)
      then obtain d ds where d: "?body @ CHR '']'' # r = d # ds" "d \<noteq> CHR '']''"
        by (cases "?body @ CHR '']'' # r") (auto simp: opens_def)
      have "pelements fl m (?body @ CHR '']'' # r) = parsed vs r"
        using False JArr len n by (intro pelements_join) auto
      then show ?thesis using opens_skip_ws(1) [OF body] d n by simp
    qed (use n in simp)
  qed
next
  case (JObj kvs)
  show ?case unfolding reads_back_def
  proof (intro allI impI)
    fix fl n r assume len: "2 * length (json_dumps (JObj kvs)) + 1 \<le> n"
    then obtain m where n: "n = Suc m" by (cases n) auto
    show "pvalue fl n (json_dumps (JObj kvs) @ r) = parsed (JObj kvs) r"
    proof (cases "kvs = []")
      case False
      let ?body = "join '', '' (map json_item kvs)"
      have body: "opens (?body @ CHR ''}'' # r)"
        using False by (intro opens_append join_opens) (simp_all add: hd_map opens_item)
      then obtain d ds where d: "?body @ CHR ''}'' # r = d # ds" "d \<noteq> CHR ''}''"
        by (cases "?body @ CHR ''}'' # r") (auto simp: opens_def)
      have "pmembers fl m (?body @ CHR ''}'' # r) = parsed kvs r"
        using False JObj len n unfolding json_dumps_obj by (intro pmembers_join) (auto simp: snds.simps)
      then show ?thesis using opens_skip_ws(1) [OF body] d n JObj.prems unfolding json_dumps_obj by (simp add: dict_of_distinct)
    qed (use n in simp)
  qed
next
  case JNull
  show ?case
    by (rule reads_back_scalar [of JNull "CHR ''n''" "''ull''"]) (use pscalar_literal [of "''null''" JNull] in simp_all)
next
  case (JBool b)
  have "reads_back (JBool True)"
    by (rule reads_back_scalar [of _ "CHR ''t''" "''rue''"]) (use pscalar_literal [of "''true''" "JBool True"] in simp_all)
  moreover have "reads_back (JBool False)"
    by (rule reads_back_scalar [of _ "CHR ''f''" "''alse''"]) (use pscalar_literal [of "''false''" "JBool False"] in simp_all)
  ultimately show ?case by (cases b) simp_all
next
  case (JInt i)
  obtain c cs where s: "json_dumps (JInt i) = c # cs" "is_digit c \<or> c = CHR ''-''"
    using show_int_parts [of i] show_nat_digits by (metis append.left_neutral append_Cons json_dumps.simps(3) list.exhaust list.set_intros(1))
  show ?case
    by (rule reads_back_scalar [OF s(1)]) (use s(2) pscalar_show_int in \<open>auto simp: is_digit_def Let_def\<close>)
qed simp

text \<open>Reading what was printed gives the value back: for every JSON value without floats whose strings
  are ASCII and whose objects repeat no key, \<open>json.loads(json.dumps(v))\<close> is \<open>v\<close>.\<close>

lemma json_roundtrip:
  assumes "plain v"
  shows "json_loads fl (json_dumps v) = Some v"
proof -
  have "pvalue fl (2 * length (json_dumps v) + 1) (json_dumps v @ []) = parsed v []"
    by (rule reads_backD [OF plain_reads_back [OF assms]]) simp_all
  then show ?thesis using opens_skip_ws(1) [OF opens_dumps [OF assms]] by (simp add: json_loads_def)
qed

end
