(* ===== verification/Queue_Pool.thy ===== *)
theory Queue_Pool
  imports Worker Json_Roundtrip Guid
begin

text \<open>
  The worker process of \<open>app/cli.py\<close>: which queues it serves, how it reads the task id out of a
  message, what it does with the message, and how many messages one pool has in hand. A pool runs
  on one event loop: its states and steps are the relation \<open>pool_step\<close>.
\<close>

subsection \<open>Choosing the queues\<close>

definition max_concurrent_per_queue :: nat where
  "max_concurrent_per_queue = 2"

definition queue_factories :: "(string \<times> queue_path) list" where
  "queue_factories = [(''normal'', normal_path), (''scheduled'', scheduled_path), (''retry'', retry_path)]"

text \<open>The pools \<open>run_worker(queue)\<close> starts; \<open>None\<close> stands for \<open>SystemExit\<close>.\<close>

definition worker_pools :: "string option \<Rightarrow> (string \<times> queue_path) list option" where
  "worker_pools queue =
     (case queue of
        None \<Rightarrow> Some queue_factories
      | Some q \<Rightarrow> (case map_of queue_factories q of None \<Rightarrow> None | Some p \<Rightarrow> Some [(q, p)]))"

definition total_concurrency :: "(string \<times> queue_path) list \<Rightarrow> nat" where
  "total_concurrency pools = max_concurrent_per_queue * length pools"

subsection \<open>Reading a message\<close>

text \<open>\<open>_extract_task_id(body)\<close>; \<open>JNull\<close> is Python's \<open>None\<close>.\<close>

definition extract_task_id :: "(string \<Rightarrow> string \<times> int option) \<Rightarrow> string \<Rightarrow> json" where
  "extract_task_id fl message_body =
     (case json_loads fl message_body of
        None \<Rightarrow> if message_body = [] then JNull else JStr message_body
      | Some (JStr s) \<Rightarrow> JStr s
      | Some (JObj kvs) \<Rightarrow> (case jget ''task_id'' kvs of None \<Rightarrow> JNull | Some v \<Rightarrow> v)
      | Some v \<Rightarrow> JNull)"

subsection \<open>Handling a message\<close>

definition pool_queue :: "queue_path \<Rightarrow> 'q world \<Rightarrow> 'q" where
  "pool_queue p w = (case p of normal_path \<Rightarrow> normal_queue w | scheduled_path \<Rightarrow> scheduled_queue w | retry_path \<Rightarrow> retry_queue w)"

definition set_pool_queue :: "queue_path \<Rightarrow> 'q \<Rightarrow> 'q world \<Rightarrow> 'q world" where
  "set_pool_queue p q w =
     (case p of normal_path \<Rightarrow> w\<lparr>normal_queue := q\<rparr> | scheduled_path \<Rightarrow> w\<lparr>scheduled_queue := q\<rparr> | retry_path \<Rightarrow> w\<lparr>retry_queue := q\<rparr>)"

text \<open>\<open>queue.delete_message(...)\<close>; an exception is logged and the message stays.\<close>

definition drop_message :: "'q queue_client \<Rightarrow> queue_path \<Rightarrow> queue_message \<Rightarrow> 'q world \<Rightarrow> 'q world" where
  "drop_message qc p m w =
     (case delete_message qc (receipt_handle m) (pool_queue p w) of Inl e \<Rightarrow> w | Inr q \<Rightarrow> set_pool_queue p q w)"

text \<open>An id that is no UUID makes the first statement of the claim raise, after its two readings of
  the clock.\<close>

definition handle_message ::
    "'q queue_client \<Rightarrow> queue_path \<Rightarrow> 'q environment \<Rightarrow> worker \<Rightarrow> (container_spec \<Rightarrow> execution_result result) \<Rightarrow>
     (error \<Rightarrow> string) \<Rightarrow> (string \<Rightarrow> string \<times> int option) \<Rightarrow> queue_message \<Rightarrow> 'q world \<Rightarrow> 'q world" where
  "handle_message qc p env wk executor exc_str fl m w =
     (let task_id = extract_task_id fl (body m) in
      if \<not> truthy task_id then drop_message qc p m w
      else case process_bind_param (bind_other (py_str task_id)) of
             Inl e \<Rightarrow> snd (utcnow (snd (utcnow w)))
           | Inr None \<Rightarrow> w
           | Inr (Some t) \<Rightarrow>
               (case process_task_id qc env wk executor exc_str t w of
                  (Inl e, w') \<Rightarrow> w'
                | (Inr done, w') \<Rightarrow> if done then drop_message qc p m w' else w'))"

subsection \<open>One pool on its event loop\<close>

text \<open>The loop is about to compute its free slots, waits for a receive of at most \<open>n\<close> messages, or
  sleeps. A handler exists from its creation; it counts itself only when it first runs.\<close>

datatype loop_phase = at_top | receiving nat | sleeping

record pool =
  in_flight :: nat
  created :: nat
  phase :: loop_phase

definition new_pool :: pool where
  "new_pool = \<lparr>in_flight = 0, created = 0, phase = at_top\<rparr>"

text \<open>The event loop runs its callbacks in the order they were scheduled, so the handlers created before
  a wait have all begun when the loop coroutine is resumed: a receive or a sleep ends with
  \<open>created = 0\<close>.\<close>

inductive pool_step :: "pool \<Rightarrow> pool \<Rightarrow> bool" where
  full: "phase p = at_top \<Longrightarrow> max_concurrent_per_queue \<le> in_flight p \<Longrightarrow> pool_step p (p\<lparr>phase := sleeping\<rparr>)"
| poll: "phase p = at_top \<Longrightarrow> in_flight p < max_concurrent_per_queue \<Longrightarrow>
    pool_step p (p\<lparr>phase := receiving (max_concurrent_per_queue - in_flight p)\<rparr>)"
| begin_handler: "phase p \<noteq> at_top \<Longrightarrow> 0 < created p \<Longrightarrow>
    pool_step p (p\<lparr>created := created p - 1, in_flight := Suc (in_flight p)\<rparr>)"
| end_handler: "phase p \<noteq> at_top \<Longrightarrow> 0 < in_flight p \<Longrightarrow> pool_step p (p\<lparr>in_flight := in_flight p - 1\<rparr>)"
| received: "phase p = receiving n \<Longrightarrow> created p = 0 \<Longrightarrow> k \<le> n \<Longrightarrow> pool_step p (p\<lparr>created := k, phase := at_top\<rparr>)"
| receive_fails: "phase p = receiving n \<Longrightarrow> created p = 0 \<Longrightarrow> pool_step p (p\<lparr>phase := sleeping\<rparr>)"
| wake: "phase p = sleeping \<Longrightarrow> created p = 0 \<Longrightarrow> pool_step p (p\<lparr>phase := at_top\<rparr>)"

inductive pool_reachable :: "pool \<Rightarrow> bool" where
  pool_start: "pool_reachable new_pool"
| pool_next: "pool_reachable p \<Longrightarrow> pool_step p p' \<Longrightarrow> pool_reachable p'"

definition pool_inv :: "pool \<Rightarrow> bool" where
  "pool_inv p \<longleftrightarrow>
     created p \<le> max_concurrent_per_queue \<and>
     in_flight p + created p \<le>
       2 * max_concurrent_per_queue - (case phase p of receiving n \<Rightarrow> n | _ \<Rightarrow> 0) \<and>
     (case phase p of receiving n \<Rightarrow> n \<le> max_concurrent_per_queue | _ \<Rightarrow> True)"

lemma pool_step_inv: "pool_step p p' \<Longrightarrow> pool_inv p \<Longrightarrow> pool_inv p'"
  by (induction rule: pool_step.induct) (auto simp: pool_inv_def max_concurrent_per_queue_def split: loop_phase.splits)

lemma pool_reachable_inv: "pool_reachable p \<Longrightarrow> pool_inv p"
proof (induction rule: pool_reachable.induct)
  case pool_start
  then show ?case by (simp add: pool_inv_def new_pool_def)
next
  case (pool_next p p')
  then show ?case by (blast intro: pool_step_inv)
qed

text \<open>(C28) A pool never has more than twice its budget of messages in hand, counting the handlers that were
  created and have not begun, and it never asks the queue for more than its budget.\<close>

theorem pool_holds_at_most_twice:
  assumes "pool_reachable p"
  shows "in_flight p + created p \<le> 2 * max_concurrent_per_queue \<and>
    (\<forall>n. phase p = receiving n \<longrightarrow> 0 < n \<and> n \<le> max_concurrent_per_queue)"
proof -
  have pos: "0 < n" if "pool_reachable q" "phase q = receiving n" for q n
    using that by (induction rule: pool_reachable.induct) (auto simp: new_pool_def elim!: pool_step.cases)
  show ?thesis using pool_reachable_inv [OF assms] pos [OF assms] by (auto simp: pool_inv_def split: loop_phase.splits)
qed

text \<open>The bound is reached: the loop computes its free slots again before the handlers it has just created
  count themselves, so twice the documented budget runs at once.\<close>

lemma pool_exceeds_budget: "pool_reachable \<lparr>in_flight = 4, created = 0, phase = sleeping\<rparr>"
proof -
  have "pool_reachable \<lparr>in_flight = 0, created = 0, phase = receiving 2\<rparr>"
    using pool_next [OF pool_start poll [of new_pool]] by (simp add: new_pool_def max_concurrent_per_queue_def)
  from pool_next [OF this received [of _ 2 2]] have "pool_reachable \<lparr>in_flight = 0, created = 2, phase = at_top\<rparr>" by simp
  from pool_next [OF this poll] have "pool_reachable \<lparr>in_flight = 0, created = 2, phase = receiving 2\<rparr>"
    by (simp add: max_concurrent_per_queue_def)
  from pool_next [OF this begin_handler] have "pool_reachable \<lparr>in_flight = 1, created = 1, phase = receiving 2\<rparr>" by simp
  from pool_next [OF this begin_handler] have "pool_reachable \<lparr>in_flight = 2, created = 0, phase = receiving 2\<rparr>"
    by (simp add: numeral_2_eq_2)
  from pool_next [OF this received [of _ 2 2]] have "pool_reachable \<lparr>in_flight = 2, created = 2, phase = at_top\<rparr>" by simp
  from pool_next [OF this full] have "pool_reachable \<lparr>in_flight = 2, created = 2, phase = sleeping\<rparr>"
    by (simp add: max_concurrent_per_queue_def)
  from pool_next [OF this begin_handler] have "pool_reachable \<lparr>in_flight = 3, created = 1, phase = sleeping\<rparr>"
    by (simp add: eval_nat_numeral)
  from pool_next [OF this begin_handler] show ?thesis by (simp add: eval_nat_numeral)
qed

theorem pool_holds_at_most_twice_witness: "in_flight \<lparr>in_flight = 4, created = 0, phase = sleeping\<rparr> \<le> 2 * max_concurrent_per_queue"
  using pool_holds_at_most_twice [OF pool_exceeds_budget] by simp

subsection \<open>From a sent message to its task\<close>

lemma ascii_append [simp]: "ascii (xs @ ys) \<longleftrightarrow> ascii xs \<and> ascii ys"
  by (auto simp: ascii_def)

lemma ascii_uuid_str: "ascii (uuid_str u)"
proof -
  have hex: "ord_of c < (128::nat)" if "c \<in> set (hex_fixed 32 (unat u))" for c
    using hex_fixed_lower [of 32 "unat u"] that by (auto simp: hex_lower_def Let_def)
  have "c = CHR ''-'' \<or> c \<in> set (hex_fixed 32 (unat u))" if "c \<in> set (uuid_str u)" for c
    using that by (auto simp: uuid_str_def Let_def dest: in_set_takeD in_set_dropD)
  with hex show ?thesis by (fastforce simp: ascii_def)
qed

lemma extract_task_body: "ascii t \<Longrightarrow> extract_task_id fl (task_body t) = JStr t"
  using json_roundtrip [of "JObj [(''task_id'', JStr t)]" fl]
  by (simp add: extract_task_id_def task_body_def jget_def ascii_def)

text \<open>(C29) What was sent is what is worked on: the ids a worker reads out of the messages it receives from an
  in-memory queue are the ids that were sent, in their order, for all ASCII identifiers.\<close>

theorem sent_ids_arrive:
  assumes "\<forall>t \<in> set ts. ascii t" "mem_receive_tasks n wait (send_all ts (empty_mem_queue src)) = Inr (ms, q)"
  shows "map (\<lambda>m. extract_task_id fl (body m)) ms = map JStr (take n ts)"
proof -
  have "ms = map (\<lambda>x. \<lparr>body = fst x, receipt_handle = snd x\<rparr>) (take n (mq_items (send_all ts (empty_mem_queue src))))"
    using assms(2) by (simp add: mem_receive_eq)
  then have "map body ms = take n (map fst (mq_items (send_all ts (empty_mem_queue src))))"
    by (simp add: o_def take_map)
  then have bodies: "map body ms = map task_body (take n ts)"
    by (simp add: send_all_items empty_mem_queue_def take_map)
  have "map (\<lambda>m. extract_task_id fl (body m)) ms = map (extract_task_id fl) (map body ms)" by simp
  also have "\<dots> = map JStr (take n ts)"
    unfolding bodies using assms(1) by (auto simp: extract_task_body dest: in_set_takeD)
  finally show ?thesis .
qed

theorem sent_ids_arrive_witness:
  "\<exists>ms q. mem_receive_tasks 1 2 (send_all [''0a-\"q\"'', ''b''] (empty_mem_queue (\<lambda>n. []))) = Inr (ms, q) \<and>
     map (\<lambda>m. extract_task_id (\<lambda>s. (s, None)) (body m)) ms = [JStr ''0a-\"q\"'']"
proof -
  obtain ms q where r: "mem_receive_tasks 1 2 (send_all [''0a-\"q\"'', ''b''] (empty_mem_queue (\<lambda>n. []))) = Inr (ms, q)"
    by (simp add: mem_receive_eq)
  have "\<forall>t \<in> set [''0a-\"q\"'', ''b'']. ascii t" by (simp add: ascii_def)
  from sent_ids_arrive [OF this r, of "\<lambda>s. (s, None)"] r show ?thesis by auto
qed

lemma uuid_str_not_Nil: "uuid_str u \<noteq> []"
  using uuid_str_parts [of u] by auto

text \<open>(C22) A message that a queue client sent for a stored identifier makes the worker process exactly that
  task; the message is deleted when processing says it is done with, and stays otherwise, as it does
  when processing raises.\<close>

theorem sent_message_runs_its_task:
  "handle_message qc p env wk executor exc_str fl \<lparr>body = task_body (uuid_str u), receipt_handle = h\<rparr> w =
     (case process_task_id qc env wk executor exc_str (uuid_str u) w of
        (Inr True, w') \<Rightarrow> drop_message qc p \<lparr>body = task_body (uuid_str u), receipt_handle = h\<rparr> w'
      | (r, w') \<Rightarrow> w')"
proof -
  have "extract_task_id fl (task_body (uuid_str u)) = JStr (uuid_str u)" by (rule extract_task_body [OF ascii_uuid_str])
  then show ?thesis
    by (auto simp: handle_message_def truthy_def py_str_def uuid_of_uuid_str uuid_str_not_Nil Let_def
        split: prod.splits sum.splits bool.splits)
qed

lemma drop_message_db [simp]: "db (drop_message qc p m w) = db w"
  by (simp add: drop_message_def set_pool_queue_def split: sum.splits queue_path.splits)

text \<open>A message that names no task never touches the database: without an id it is deleted, and with an
  id that is no UUID nothing at all happens to it.\<close>

lemma bad_message_harmless:
  assumes "\<not> truthy (extract_task_id fl (body m)) \<or> uuid_of_str (py_str (extract_task_id fl (body m))) = None"
  shows "db (handle_message qc p env wk executor exc_str fl m w) = db w \<and>
    (if truthy (extract_task_id fl (body m))
     then \<forall>p'. pool_queue p' (handle_message qc p env wk executor exc_str fl m w) = pool_queue p' w
     else handle_message qc p env wk executor exc_str fl m w = drop_message qc p m w)"
  using assms by (auto simp: handle_message_def Let_def pool_queue_def split: queue_path.splits)

lemma not_a_uuid: "extract_task_id (\<lambda>s. (s, None)) ''hello'' = JStr ''hello'' \<and> uuid_of_str ''hello'' = None"
  by (intro conjI; code_simp)

lemma bad_message_harmless_example:
  "normal_queue (handle_message MemoryQueueClient normal_path idle sample_worker always_fails (\<lambda>e. []) (\<lambda>s. (s, None))
     \<lparr>body = ''hello'', receipt_handle = []\<rparr> pending_world) = normal_queue pending_world"
proof -
  have "truthy (extract_task_id (\<lambda>s. (s, None)) ''hello'')" using not_a_uuid by (simp add: truthy_def)
  then show ?thesis
    using bad_message_harmless [of "\<lambda>s. (s, None)" "\<lparr>body = ''hello'', receipt_handle = []\<rparr>" MemoryQueueClient normal_path idle
        sample_worker always_fails "\<lambda>e. []" pending_world] not_a_uuid
    by (simp add: py_str_def pool_queue_def split: queue_path.splits)
qed

end
