(* ===== verification/Leader_Lock.thy ===== *)
theory Leader_Lock
  imports Prelude
begin

text \<open>
  \<open>LeaderLock\<close> of \<open>app/cli.py\<close>: the election of one scheduler among several replicas on a
  session-level advisory lock of PostgreSQL. The server is a parameter; \<open>advisory_lock_laws\<close> states
  what its documentation promises. The replicas and the server together are the step relation
  \<open>cluster_step\<close>.
\<close>

subsection \<open>The server\<close>

text \<open>The calls the class makes, on a server state \<open>'p\<close>: connecting through the engine of a replica, the
  two queries on a session, and giving the connection back. \<open>None\<close> is an exception.\<close>

record 'p pg_api =
  pg_connect :: "nat \<Rightarrow> 'p \<Rightarrow> nat option \<times> 'p"
  pg_select1 :: "nat \<Rightarrow> 'p \<Rightarrow> unit option \<times> 'p"
  pg_try_lock :: "int \<Rightarrow> nat \<Rightarrow> 'p \<Rightarrow> bool option \<times> 'p"
  pg_close :: "nat \<Rightarrow> 'p \<Rightarrow> 'p"

subsection \<open>The class\<close>

definition leader_lock_key :: int where
  "leader_lock_key = 114514"

record leader_lock =
  ll_engine :: nat
  ll_key :: int
  ll_conn :: "nat option"
  ll_is_leader :: bool

definition LeaderLock :: "nat \<Rightarrow> int \<Rightarrow> leader_lock" where
  "LeaderLock engine key = \<lparr>ll_engine = engine, ll_key = key, ll_conn = None, ll_is_leader = False\<rparr>"

definition reset :: "'p pg_api \<Rightarrow> leader_lock \<Rightarrow> 'p \<Rightarrow> leader_lock \<times> 'p" where
  "reset api l p =
     (l\<lparr>ll_conn := None, ll_is_leader := False\<rparr>, case ll_conn l of None \<Rightarrow> p | Some s \<Rightarrow> pg_close api s p)"

definition ensure_connection :: "'p pg_api \<Rightarrow> leader_lock \<Rightarrow> 'p \<Rightarrow> nat option \<times> leader_lock \<times> 'p" where
  "ensure_connection api l p =
     (case ll_conn l of
        Some s \<Rightarrow> (Some s, l, p)
      | None \<Rightarrow>
          (case pg_connect api (ll_engine l) p of
             (None, p1) \<Rightarrow> (None, l, p1)
           | (Some s, p1) \<Rightarrow> (Some s, l\<lparr>ll_conn := Some s, ll_is_leader := False\<rparr>, p1)))"

definition is_leader :: "'p pg_api \<Rightarrow> leader_lock \<Rightarrow> 'p \<Rightarrow> bool \<times> leader_lock \<times> 'p" where
  "is_leader api l p =
     (case ensure_connection api l p of
        (None, l1, p1) \<Rightarrow> (False, reset api l1 p1)
      | (Some s, l1, p1) \<Rightarrow>
          if ll_is_leader l1 then
            (case pg_select1 api s p1 of
               (Some u, p2) \<Rightarrow> (True, l1, p2)
             | (None, p2) \<Rightarrow> (False, reset api l1 p2))
          else
            (case pg_try_lock api (ll_key l1) s p1 of
               (Some b, p2) \<Rightarrow> (b, l1\<lparr>ll_is_leader := b\<rparr>, p2)
             | (None, p2) \<Rightarrow> (False, reset api l1 p2)))"

subsection \<open>What the server promises\<close>

text \<open>The view of a server state: which replica's engine opened a session, which sessions are alive, and
  which session holds the lock.\<close>

record 'p pg_view =
  owner :: "'p \<Rightarrow> nat \<Rightarrow> nat option"
  alive :: "'p \<Rightarrow> nat \<Rightarrow> bool"
  holder :: "'p \<Rightarrow> nat option"

text \<open>However the server moves on: a session keeps its owner, one that has ended stays ended, and a session
  that is still alive keeps its lock.\<close>

definition moves_on :: "'p pg_view \<Rightarrow> 'p \<Rightarrow> 'p \<Rightarrow> bool" where
  "moves_on v p p' \<longleftrightarrow>
     (\<forall>s e. owner v p s = Some e \<longrightarrow> owner v p' s = Some e) \<and>
     (\<forall>s. owner v p s \<noteq> None \<and> alive v p' s \<longrightarrow> alive v p s) \<and>
     (\<forall>s. holder v p = Some s \<and> alive v p' s \<longrightarrow> holder v p' = Some s)"

definition advisory_lock_laws :: "'p pg_api \<Rightarrow> 'p pg_view \<Rightarrow> bool" where
  "advisory_lock_laws api v \<longleftrightarrow>
     (\<forall>e p r p'. pg_connect api e p = (r, p') \<longrightarrow> moves_on v p p' \<and> (\<forall>s. r = Some s \<longrightarrow> owner v p' s = Some e)) \<and>
     (\<forall>s p r p'. pg_select1 api s p = (r, p') \<longrightarrow> moves_on v p p' \<and> (r \<noteq> None \<longrightarrow> alive v p' s)) \<and>
     (\<forall>s p r p'. pg_try_lock api leader_lock_key s p = (r, p') \<longrightarrow>
        moves_on v p p' \<and> (r = Some True \<longrightarrow> holder v p' = Some s \<and> alive v p' s)) \<and>
     (\<forall>s p. moves_on v p (pg_close api s p))"

lemma advisory_lock_lawsD:
  assumes "advisory_lock_laws api v"
  shows "pg_connect api e p = (r1, p') \<Longrightarrow> moves_on v p p' \<and> (\<forall>s. r1 = Some s \<longrightarrow> owner v p' s = Some e)"
    and "pg_select1 api s p = (r2, p') \<Longrightarrow> moves_on v p p' \<and> (r2 \<noteq> None \<longrightarrow> alive v p' s)"
    and "pg_try_lock api leader_lock_key s p = (r3, p') \<Longrightarrow>
      moves_on v p p' \<and> (r3 = Some True \<longrightarrow> holder v p' = Some s \<and> alive v p' s)"
    and "moves_on v p (pg_close api s p)"
  using assms unfolding advisory_lock_laws_def by blast+

subsection \<open>The replicas\<close>

record 'p cluster =
  server :: 'p
  replicas :: "nat \<Rightarrow> leader_lock"

definition start_cluster :: "'p \<Rightarrow> 'p cluster" where
  "start_cluster p = \<lparr>server = p, replicas = (\<lambda>i. LeaderLock i leader_lock_key)\<rparr>"

text \<open>A replica asks, the server changes on its own (a session ends, another client works), or a replica
  starts afresh.\<close>

inductive cluster_step :: "'p pg_api \<Rightarrow> 'p pg_view \<Rightarrow> 'p cluster \<Rightarrow> 'p cluster \<Rightarrow> bool" for api v where
  asks: "is_leader api (replicas c i) (server c) = (b, l, p) \<Longrightarrow>
    cluster_step api v c (c\<lparr>server := p, replicas := (replicas c)(i := l)\<rparr>)"
| server_moves: "moves_on v (server c) p \<Longrightarrow> cluster_step api v c (c\<lparr>server := p\<rparr>)"
| restarts: "cluster_step api v c (c\<lparr>replicas := (replicas c)(i := LeaderLock i leader_lock_key)\<rparr>)"

inductive cluster_reachable :: "'p pg_api \<Rightarrow> 'p pg_view \<Rightarrow> 'p cluster \<Rightarrow> bool" for api v where
  cluster_start: "cluster_reachable api v (start_cluster p)"
| cluster_next: "cluster_reachable api v c \<Longrightarrow> cluster_step api v c c' \<Longrightarrow> cluster_reachable api v c'"

text \<open>A replica that counts itself leader holds the lock as long as its session is alive.\<close>

definition lock_ok :: "'p pg_view \<Rightarrow> nat \<Rightarrow> leader_lock \<Rightarrow> 'p \<Rightarrow> bool" where
  "lock_ok v i l p \<longleftrightarrow>
     ll_engine l = i \<and> ll_key l = leader_lock_key \<and>
     (case ll_conn l of
        None \<Rightarrow> \<not> ll_is_leader l
      | Some s \<Rightarrow> owner v p s = Some i \<and> (ll_is_leader l \<and> alive v p s \<longrightarrow> holder v p = Some s))"

lemma lock_ok_moves: "lock_ok v i l p \<Longrightarrow> moves_on v p p' \<Longrightarrow> lock_ok v i l p'"
  unfolding lock_ok_def moves_on_def by (cases "ll_conn l") auto

lemma lock_ok_new [simp]: "lock_ok v i (LeaderLock i leader_lock_key) p"
  by (simp add: lock_ok_def LeaderLock_def)

lemma moves_on_refl [simp]: "moves_on v p p"
  by (simp add: moves_on_def)

lemma reset_moves: "advisory_lock_laws api v \<Longrightarrow> reset api l p = (l', p') \<Longrightarrow> moves_on v p p'"
  by (auto simp: reset_def advisory_lock_lawsD(4) split: option.splits)

text \<open>Every other replica sees a call as a few moves of the server.\<close>

definition moves_star :: "'p pg_view \<Rightarrow> 'p \<Rightarrow> 'p \<Rightarrow> bool" where
  "moves_star v = (moves_on v)\<^sup>*\<^sup>*"

lemma lock_ok_moves_star: "moves_star v p p' \<Longrightarrow> lock_ok v i l p \<Longrightarrow> lock_ok v i l p'"
  unfolding moves_star_def by (induction rule: rtranclp_induct) (auto intro: lock_ok_moves)

lemma ensure_connection_ok:
  assumes laws: "advisory_lock_laws api v" and ok: "lock_ok v i l p" and e: "ensure_connection api l p = (r, l1, p1)"
  shows "moves_on v p p1 \<and> lock_ok v i l1 p1 \<and> (\<forall>s. r = Some s \<longrightarrow> ll_conn l1 = Some s)"
proof (cases "ll_conn l")
  case None
  obtain r0 p0 where c: "pg_connect api (ll_engine l) p = (r0, p0)" by fastforce
  note law = advisory_lock_lawsD(1) [OF laws c]
  show ?thesis
  proof (cases r0)
    case r0: None
    with None c e have "r = None" "l1 = l" "p1 = p0" by (simp_all add: ensure_connection_def)
    then show ?thesis using law ok lock_ok_moves by fastforce
  next
    case (Some s)
    with None c e have "r = Some s" "l1 = l\<lparr>ll_conn := Some s, ll_is_leader := False\<rparr>" "p1 = p0"
      by (auto simp: ensure_connection_def)
    then show ?thesis using law ok Some by (simp add: lock_ok_def)
  qed
qed (use ok e in \<open>auto simp: ensure_connection_def\<close>)

lemma reset_ok:
  assumes "advisory_lock_laws api v" "lock_ok v i l p" "reset api l p = (l', p')"
  shows "moves_on v p p' \<and> lock_ok v i l' p'"
  using assms reset_moves [OF assms(1,3)] by (auto simp: reset_def lock_ok_def)

lemma is_leader_ok:
  assumes laws: "advisory_lock_laws api v" and ok: "lock_ok v i l p" and call: "is_leader api l p = (b, l', p')"
  shows "moves_star v p p' \<and> lock_ok v i l' p' \<and>
    (b \<longrightarrow> (\<exists>s. ll_conn l' = Some s \<and> ll_is_leader l' \<and> alive v p' s))"
proof -
  obtain r l1 p1 where e: "ensure_connection api l p = (r, l1, p1)" by (metis prod_cases3)
  note e_ok = ensure_connection_ok [OF laws ok e]
  have down: ?thesis if "moves_on v p1 p2" "lock_ok v i l1 p2" "(b, l', p') = (False, reset api l1 p2)" for p2
  proof -
    have "reset api l1 p2 = (l', p')" using that(3) by simp
    from reset_ok [OF laws that(2) this] have "moves_on v p2 p'" "lock_ok v i l' p'" by simp_all
    then show ?thesis using e_ok that(1,3) unfolding moves_star_def by (auto intro: converse_rtranclp_into_rtranclp)
  qed
  show ?thesis
  proof (cases r)
    case None
    with call e down [of p1] e_ok show ?thesis by (simp add: is_leader_def)
  next
    case (Some s)
    obtain r2 p2 where q: "pg_select1 api s p1 = (r2, p2)" by fastforce
    obtain r3 p3 where t: "pg_try_lock api (ll_key l1) s p1 = (r3, p3)" by fastforce
    have key: "ll_key l1 = leader_lock_key" and conn: "ll_conn l1 = Some s" using e_ok Some by (auto simp: lock_ok_def)
    note sel = advisory_lock_lawsD(2) [OF laws q] and tr = advisory_lock_lawsD(3) [OF laws t [unfolded key]]
    have up: "moves_star v p x" if "moves_on v p1 x" for x
      using e_ok that unfolding moves_star_def by (auto intro: converse_rtranclp_into_rtranclp)
    show ?thesis
    proof (cases "ll_is_leader l1")
      case True
      show ?thesis
      proof (cases r2)
        case None
        with call e Some True q have "(b, l', p') = (False, reset api l1 p2)" by (simp add: is_leader_def)
        then show ?thesis using down [of p2] sel e_ok lock_ok_moves [of v i l1 p1 p2] by simp
      next
        case (Some u)
        with call e \<open>r = Some s\<close> True q have "b" "l' = l1" "p' = p2" by (simp_all add: is_leader_def)
        then show ?thesis using sel Some e_ok up True conn lock_ok_moves by auto
      qed
    next
      case False
      show ?thesis
      proof (cases r3)
        case None
        with call e Some False t have "(b, l', p') = (False, reset api l1 p3)" by (simp add: is_leader_def)
        then show ?thesis using down [of p3] tr e_ok lock_ok_moves [of v i l1 p1 p3] by simp
      next
        case (Some b')
        with call e \<open>r = Some s\<close> False t have "b = b'" "l' = l1\<lparr>ll_is_leader := b'\<rparr>" "p' = p3" by (auto simp: is_leader_def)
        moreover have "lock_ok v i l1 p3" using tr e_ok lock_ok_moves [of v i l1 p1 p3] by simp
        ultimately show ?thesis using tr Some up conn by (auto simp: lock_ok_def)
      qed
    qed
  qed
qed

definition cluster_inv :: "'p pg_view \<Rightarrow> 'p cluster \<Rightarrow> bool" where
  "cluster_inv v c \<longleftrightarrow> (\<forall>i. lock_ok v i (replicas c i) (server c))"

lemma cluster_step_inv:
  assumes "advisory_lock_laws api v" "cluster_step api v c c'" "cluster_inv v c"
  shows "cluster_inv v c'"
  using assms(2)
proof cases
  case (asks i b l p)
  have ok: "lock_ok v i (replicas c i) (server c)" using assms(3) by (simp add: cluster_inv_def)
  have "lock_ok v j (replicas c j) p" for j
    by (rule lock_ok_moves_star [of v "server c"]) (use is_leader_ok [OF assms(1) ok asks(2)] assms(3) in \<open>simp_all add: cluster_inv_def\<close>)
  then show ?thesis using is_leader_ok [OF assms(1) ok asks(2)] asks(1) by (simp add: cluster_inv_def)
next
  case (server_moves p)
  then show ?thesis using assms(3) by (auto simp: cluster_inv_def intro: lock_ok_moves)
next
  case (restarts i)
  then show ?thesis using assms(3) by (simp add: cluster_inv_def)
qed

lemma cluster_reachable_inv:
  assumes laws: "advisory_lock_laws api v" and "cluster_reachable api v c"
  shows "cluster_inv v c"
  using assms(2)
proof (induction rule: cluster_reachable.induct)
  case (cluster_start p)
  then show ?case by (simp add: cluster_inv_def start_cluster_def)
next
  case (cluster_next c c')
  then show ?case by (blast intro: cluster_step_inv [OF laws])
qed

lemma asked_leader_holds:
  assumes laws: "advisory_lock_laws api v" and inv: "cluster_inv v c"
    and call: "is_leader api (replicas c i) (server c) = (True, l, p)"
  obtains s where "ll_conn l = Some s" "ll_is_leader l" "alive v p s" "holder v p = Some s" "owner v p s = Some i"
    "cluster_inv v (c\<lparr>server := p, replicas := (replicas c)(i := l)\<rparr>)"
proof -
  have ok: "lock_ok v i (replicas c i) (server c)" using inv by (simp add: cluster_inv_def)
  from is_leader_ok [OF laws ok call] obtain s where s: "ll_conn l = Some s" "ll_is_leader l" "alive v p s" "lock_ok v i l p"
    by blast
  moreover have "cluster_inv v (c\<lparr>server := p, replicas := (replicas c)(i := l)\<rparr>)"
    by (rule cluster_step_inv [OF laws asks [OF call] inv])
  ultimately show ?thesis using that [of s] by (simp add: lock_ok_def)
qed

text \<open>(C21) A replica that is told it leads holds the advisory lock on its own session at that moment, and
  another replica can be told so afterwards only when that session has ended.\<close>

theorem one_leader:
  assumes laws: "advisory_lock_laws api v" and reach: "cluster_reachable api v c"
    and first: "is_leader api (replicas c i) (server c) = (True, l, p)"
  shows "\<exists>s. ll_conn l = Some s \<and> holder v p = Some s \<and> owner v p s = Some i \<and>
    (\<forall>j l' p'. j \<noteq> i \<and> is_leader api (replicas c j) p = (True, l', p') \<longrightarrow> \<not> alive v p' s)"
proof -
  obtain s where s: "ll_conn l = Some s" "ll_is_leader l" "holder v p = Some s" "owner v p s = Some i"
    and inv: "cluster_inv v (c\<lparr>server := p, replicas := (replicas c)(i := l)\<rparr>)"
    using asked_leader_holds [OF laws cluster_reachable_inv [OF laws reach] first] by metis
  let ?c = "c\<lparr>server := p, replicas := (replicas c)(i := l)\<rparr>"
  have "\<not> alive v p' s" if j: "j \<noteq> i" "is_leader api (replicas c j) p = (True, l', p')" for j l' p'
  proof
    assume alive: "alive v p' s"
    have "is_leader api (replicas ?c j) (server ?c) = (True, l', p')" using j by simp
    from asked_leader_holds [OF laws inv this] obtain s' where s': "holder v p' = Some s'" "owner v p' s' = Some j"
      and inv': "cluster_inv v (?c\<lparr>server := p', replicas := (replicas ?c)(j := l')\<rparr>)" by metis
    have "lock_ok v i l p'" using inv' j(1) by (auto simp: cluster_inv_def dest!: spec [of _ i])
    with s alive have "holder v p' = Some s \<and> owner v p' s = Some i" by (simp add: lock_ok_def)
    with s' j(1) show False by simp
  qed
  with s show ?thesis by blast
qed

subsection \<open>A small server\<close>

record small_pg =
  next_session :: nat
  owners :: "nat \<Rightarrow> nat option"
  lock_holder :: "nat option"

definition small_api :: "small_pg pg_api" where
  "small_api =
     \<lparr>pg_connect = (\<lambda>e p. (Some (next_session p),
        p\<lparr>next_session := Suc (next_session p), owners := (owners p)(next_session p := Some e)\<rparr>)),
      pg_select1 = (\<lambda>s p. (Some (), p)),
      pg_try_lock = (\<lambda>key s p.
        if lock_holder p = None \<or> lock_holder p = Some s then (Some True, p\<lparr>lock_holder := Some s\<rparr>) else (Some False, p)),
      pg_close = (\<lambda>s p. p)\<rparr>"

text \<open>Sessions numbered below \<open>next_session\<close> are the ones opened so far, all of them alive.\<close>

definition small_view :: "small_pg pg_view" where
  "small_view =
     \<lparr>owner = (\<lambda>p s. if s < next_session p then owners p s else None), alive = (\<lambda>p s. True), holder = lock_holder\<rparr>"

lemma small_laws: "advisory_lock_laws small_api small_view"
  unfolding advisory_lock_laws_def
  by (auto simp: moves_on_def small_api_def small_view_def less_Suc_eq split: if_splits)

theorem one_leader_witness:
  "\<exists>s. holder small_view (snd (snd (is_leader small_api (LeaderLock 0 leader_lock_key) \<lparr>next_session = 7, owners = Map.empty, lock_holder = None\<rparr>))) = Some s"
proof -
  let ?p = "\<lparr>next_session = 7, owners = Map.empty, lock_holder = None\<rparr>"
  obtain l p where call: "is_leader small_api (LeaderLock 0 leader_lock_key) ?p = (True, l, p)"
    by (simp add: is_leader_def ensure_connection_def LeaderLock_def small_api_def)
  then have "is_leader small_api (replicas (start_cluster ?p) 0) (server (start_cluster ?p)) = (True, l, p)"
    by (simp add: start_cluster_def)
  from one_leader [OF small_laws cluster_start this] call show ?thesis by auto
qed

end
