(* ===== verification/Task_Lifecycle.thy ===== *)
theory Task_Lifecycle
  imports Worker Cron_Scheduler Dependency_Scheduler Queue_Pool
begin

text \<open>
  What each operation of the system can do to the tasks table: move rows along the life cycle of a
  task and append pending rows. The facts here are one per operation; the system theory composes
  them over all processes.
\<close>

subsection \<open>The life cycle\<close>

text \<open>Any process may write an outcome; apart from that a task is claimed when pending and released when
  running. Its job, attempt number, trigger and creation time never change.\<close>

definition legal_status :: "status \<Rightarrow> status \<Rightarrow> bool" where
  "legal_status s s' \<longleftrightarrow> s' = s \<or> terminal s' \<or> (s = pending \<and> s' = running) \<or> (s = running \<and> s' = pending)"

definition task_moves :: "task \<Rightarrow> task \<Rightarrow> bool" where
  "task_moves t t' \<longleftrightarrow>
     tid t' = tid t \<and> task_job_id t' = task_job_id t \<and> retry_count t' = retry_count t \<and>
     trigger_type t' = trigger_type t \<and> tcreated_at t' = tcreated_at t \<and> legal_status (status t) (status t') \<and>
     (processed_for_chaining t \<longrightarrow> processed_for_chaining t')"

definition tasks_step :: "database \<Rightarrow> database \<Rightarrow> bool" where
  "tasks_step d d' \<longleftrightarrow>
     (\<exists>f new. tasks d' = map f (tasks d) @ new \<and> (\<forall>t \<in> set (tasks d). task_moves t (f t)) \<and>
        (\<forall>t \<in> set new. status t = pending \<and> \<not> processed_for_chaining t))"

lemma task_moves_refl [simp]: "task_moves t t"
  by (simp add: task_moves_def legal_status_def)

lemma tasks_stepI:
  assumes "tasks d' = map f (tasks d) @ new" "\<And>t. t \<in> set (tasks d) \<Longrightarrow> task_moves t (f t)"
    and "\<And>t. t \<in> set new \<Longrightarrow> status t = pending \<and> \<not> processed_for_chaining t"
  shows "tasks_step d d'"
  using assms unfolding tasks_step_def by blast

lemma tasks_step_same: "tasks d' = tasks d \<Longrightarrow> tasks_step d d'"
  by (rule tasks_stepI [where f = "\<lambda>t. t" and new = "[]"]) auto

lemma tasks_step_added: "tasks d' = tasks d @ new \<Longrightarrow> \<forall>t \<in> set new. status t = pending \<and> \<not> processed_for_chaining t \<Longrightarrow> tasks_step d d'"
  by (rule tasks_stepI [where f = "\<lambda>t. t" and new = new]) auto

lemma tasks_step_then_added:
  assumes "tasks_step d d'" "tasks d'' = tasks d' @ new" "\<forall>t \<in> set new. status t = pending \<and> \<not> processed_for_chaining t"
  shows "tasks_step d d''"
proof -
  obtain f n where s: "tasks d' = map f (tasks d) @ n" "\<forall>t \<in> set (tasks d). task_moves t (f t)"
    "\<forall>t \<in> set n. status t = pending \<and> \<not> processed_for_chaining t" using assms(1) unfolding tasks_step_def by blast
  show ?thesis by (rule tasks_stepI [where f = f and new = "n @ new"]) (use s assms(2,3) in auto)
qed

lemma tasks_step_write:
  assumes "task_write t f d = Inr d'" "\<And>r. r \<in> set (tasks d) \<Longrightarrow> tid r = t \<Longrightarrow> task_moves r (f r)"
  shows "tasks_step d d'"
  by (rule tasks_stepI [where f = "\<lambda>r. if tid r = t then f r else r" and new = "[]"])
    (use assms in \<open>auto simp: task_write_def update_row_def split: if_splits\<close>)

lemma tasks_step_finish: "finish_task t st out err now d = Inr d' \<Longrightarrow> terminal st \<Longrightarrow> tasks_step d d'"
  unfolding finish_task_def
  by (erule tasks_step_write) (simp add: task_moves_def finish_columns_def legal_status_def)

subsection \<open>What an operation sends\<close>

text \<open>The identifiers drawn so far.\<close>

definition drawn_ids :: "'q world \<Rightarrow> uuid set" where
  "drawn_ids w = uuid_source w ` {..<uuids_drawn w}"

lemma drawn_ids_mono: "draws w w' \<Longrightarrow> drawn_ids w \<subseteq> drawn_ids w'"
  by (auto simp: drawn_ids_def draws_def)

lemma uuid4_drawn: "uuid4 w = (i, w1) \<Longrightarrow> draws w1 w' \<Longrightarrow> i \<in> drawn_ids w'"
  by (auto simp: uuid4_def drawn_ids_def draws_def)

text \<open>The identifiers an operation draws; the queues change by sends of those alone, whether the client's sends
  succeed or not, and every new row has one of them.\<close>

definition new_ids :: "'q world \<Rightarrow> 'q world \<Rightarrow> uuid set" where
  "new_ids w w' = uuid_source w ` {uuids_drawn w..<uuids_drawn w'}"

definition sends :: "'q queue_client \<Rightarrow> uuid set \<Rightarrow> 'q \<Rightarrow> 'q \<Rightarrow> bool" where
  "sends qc A q q' \<longleftrightarrow> (\<exists>i \<in> A. send_task qc i q = Inr q')"

definition sent_new :: "'q queue_client \<Rightarrow> 'q world \<Rightarrow> 'q world \<Rightarrow> bool" where
  "sent_new qc w w' \<longleftrightarrow>
     draws w w' \<and> task_ids (db w') \<subseteq> task_ids (db w) \<union> new_ids w w' \<and>
     (\<forall>p. (sends qc (new_ids w w'))\<^sup>*\<^sup>* (pool_queue p w) (pool_queue p w'))"

lemma new_ids_trans:
  assumes "draws w w1" "draws w1 w'"
  shows "new_ids w w1 \<subseteq> new_ids w w'" "new_ids w1 w' \<subseteq> new_ids w w'"
  using assms by (auto simp: new_ids_def draws_def)

lemma new_ids_drawn: "draws w w' \<Longrightarrow> new_ids w w' \<subseteq> drawn_ids w'"
  by (auto simp: new_ids_def drawn_ids_def draws_def)

lemma uuid4_new_id: "uuid4 w = (i, w1) \<Longrightarrow> draws w1 w' \<Longrightarrow> i \<in> new_ids w w'"
  by (auto simp: uuid4_def new_ids_def draws_def)

lemma sends_mono: "A \<subseteq> B \<Longrightarrow> (sends qc A)\<^sup>*\<^sup>* q q' \<Longrightarrow> (sends qc B)\<^sup>*\<^sup>* q q'"
proof (erule rtranclp_mono [THEN predicate2D, rotated])
  assume "A \<subseteq> B"
  then show "sends qc A \<le> sends qc B" by (intro predicate2I) (auto simp: sends_def)
qed

lemma pool_queue_sel:
  "pool_queue normal_path w = normal_queue w" "pool_queue scheduled_path w = scheduled_queue w"
  "pool_queue retry_path w = retry_queue w"
  by (simp_all add: pool_queue_def)

lemma quiet_pool_queue: "quiet w w' \<Longrightarrow> pool_queue p w' = pool_queue p w"
  by (cases p) (simp_all add: pool_queue_sel quiet_def)

lemma pool_queue_db [simp]: "pool_queue p (w\<lparr>db := d\<rparr>) = pool_queue p w"
  by (cases p) (simp_all add: pool_queue_sel)

lemma sent_new_same:
  assumes "draws w w'" "task_ids (db w') \<subseteq> task_ids (db w)" "\<And>p. pool_queue p w' = pool_queue p w"
  shows "sent_new qc w w'"
  using assms by (auto simp: sent_new_def)

lemma sent_new_quiet: "quiet w w' \<Longrightarrow> sent_new qc w w'"
  by (rule sent_new_same) (simp_all add: quiet_draws quietD quiet_pool_queue)

lemma sent_new_refl [simp]: "sent_new qc w w"
  by (rule sent_new_quiet) simp

lemma sent_new_trans:
  assumes "sent_new qc w w1" "sent_new qc w1 w'"
  shows "sent_new qc w w'"
proof -
  have d: "draws w w1" "draws w1 w'" using assms by (simp_all add: sent_new_def)
  note sub = new_ids_trans [OF d]
  have "(sends qc (new_ids w w'))\<^sup>*\<^sup>* (pool_queue p w) (pool_queue p w')" for p
    using assms sends_mono [OF sub(1)] sends_mono [OF sub(2)] unfolding sent_new_def by (meson rtranclp_trans)
  moreover have "task_ids (db w') \<subseteq> task_ids (db w) \<union> new_ids w w'" using assms sub unfolding sent_new_def by blast
  ultimately show ?thesis using draws_trans [OF d] by (simp add: sent_new_def)
qed

lemma sent_new_stored: "quiet w w1 \<Longrightarrow> task_ids d \<subseteq> task_ids (db w) \<Longrightarrow> sent_new qc w (w1\<lparr>db := d\<rparr>)"
  by (rule sent_new_same) (simp_all add: quiet_pool_queue draws_def quiet_def)

lemma sent_new_created:
  assumes "task_create t d = Inr d'" "tasks d = tasks (db w)" "tasks (db w') = tasks d'" "draws w w'" "tid t \<in> new_ids w w'"
    and q: "\<And>p. pool_queue p w' = pool_queue p w \<or> send_task qc (tid t) (pool_queue p w) = Inr (pool_queue p w')"
  shows "sent_new qc w w'"
proof -
  have "(sends qc (new_ids w w'))\<^sup>*\<^sup>* (pool_queue p w) (pool_queue p w')" for p
    using q [of p] assms(5) r_into_rtranclp [of "sends qc (new_ids w w')"] by (auto simp: sends_def)
  then show ?thesis using task_create_SomeD [OF assms(1)] assms(2-5) by (auto simp: sent_new_def task_ids_def)
qed

subsection \<open>The commands of the API\<close>

text \<open>A command that adds pending rows and draws identifiers in order.\<close>

definition adds :: "'q queue_client \<Rightarrow> 'q world \<Rightarrow> 'q world \<Rightarrow> bool" where
  "adds qc w w' \<longleftrightarrow>
     sent_new qc w w' \<and> (\<exists>new. tasks (db w') = tasks (db w) @ new \<and> (\<forall>t \<in> set new. status t = pending \<and> \<not> processed_for_chaining t))"

lemma adds_refl [simp]: "adds qc w w"
  by (simp add: adds_def)

lemma adds_quiet: "quiet w w' \<Longrightarrow> adds qc w w'"
  by (simp add: adds_def sent_new_quiet quietD)

lemma adds_trans: "adds qc w w' \<Longrightarrow> adds qc w' w'' \<Longrightarrow> adds qc w w''"
  unfolding adds_def by (auto intro: sent_new_trans)

lemma adds_step: "adds qc w w' \<Longrightarrow> tasks_step (db w) (db w')"
  unfolding adds_def by (auto intro: tasks_step_added)

lemma adds_stored: "quiet w w1 \<Longrightarrow> tasks d = tasks (db w) \<Longrightarrow> adds qc w (w1\<lparr>db := d\<rparr>)"
  by (auto simp: adds_def task_ids_def intro: sent_new_stored)

lemma adds_created:
  assumes "task_create t d = Inr d'" "status t = pending" "\<not> processed_for_chaining t"
    and "tasks d = tasks (db w)" "tasks (db w') = tasks d'" "draws w w'" "tid t \<in> new_ids w w'"
    and "\<And>p. pool_queue p w' = pool_queue p w \<or> send_task qc (tid t) (pool_queue p w) = Inr (pool_queue p w')"
  shows "adds qc w w'"
  using task_create_SomeD [OF assms(1)] assms(2-5) sent_new_created [OF assms(1,4-8)] by (auto simp: adds_def)

lemma enqueue_task_adds: "enqueue_task qc i w = (r, w') \<Longrightarrow> adds qc w w'"
proof (erule enqueue_task_cases, goal_cases)
  case (1 e)
  then show ?case by (simp add: adds_quiet)
next
  case (2 e t_id now w1 w2 d)
  have "quiet w w2" using quiet_trans [OF quiet_uuid4 [OF 2(2)] quiet_utcnow [OF 2(3)]] .
  moreover have "draws w1 w'" using 2(3,5) quiet_draws [OF quiet_utcnow [OF 2(3)]] by (simp add: draws_def)
  ultimately show ?case using uuid4_new_id [OF 2(2)] 2(5)
    by (intro adds_created [OF 2(4)]) (simp_all add: quiet_pool_queue, simp_all add: draws_def quiet_def)
next
  case (3 t_id now w1 w2 d q)
  have "quiet w w2" using quiet_trans [OF quiet_uuid4 [OF 3(2)] quiet_utcnow [OF 3(3)]] .
  moreover have "draws w1 w'" using 3(3,6) quiet_draws [OF quiet_utcnow [OF 3(3)]] by (simp add: draws_def)
  ultimately show ?case using uuid4_new_id [OF 3(2)] 3(5,6)
    by (intro adds_created [OF 3(4)]) (auto simp: draws_def quiet_def pool_queue_def split: queue_path.split)
qed

lemma dispatch_if_one_time_adds: "dispatch_if_one_time qc j w = (r, w') \<Longrightarrow> adds qc w w'"
  by (auto simp: dispatch_if_one_time_def split: if_splits prod.splits sum.splits dest: enqueue_task_adds)

lemma create_job_adds: "create_job cfg cr qc p w = (r, w') \<Longrightarrow> adds qc w w'"
proof (erule create_job_cases, goal_cases)
  case (1 e)
  then show ?case by (simp add: adds_quiet)
next
  case (2 s spec i now w1 w2 w3 d r4 j)
  have "quiet w w3"
    using quiet_trans [OF resolve_schedule_quiet [OF 2(1)] quiet_trans [OF quiet_uuid4 [OF 2(3)] quiet_utcnow [OF 2(4)]]] .
  moreover have "tasks d = tasks (db w)" using job_create_SomeD [OF 2(6)] by simp
  ultimately have "adds qc w (w3\<lparr>db := d\<rparr>)" by (rule adds_stored)
  then show ?case using dispatch_if_one_time_adds [OF 2(8)] adds_trans by blast
qed

lemma store_update_tasks: "store_update p now j d = Inr d' \<Longrightarrow> tasks d' = tasks d"
  by (auto simp: store_update_def dest!: job_update_frame split: if_splits sum.splits)

lemma update_job_adds: "update_job cfg cr li qc i p w = (r, w') \<Longrightarrow> adds qc w w'"
proof (erule update_job_cases, goal_cases)
  case (1 e)
  then show ?case by (simp add: adds_quiet)
next
  case (2 j0 s spec now w1 w2 d j2 j4)
  have "quiet w w2" using quiet_trans [OF new_schedule_quiet [OF 2(2)] quiet_utcnow [OF 2(5)]] .
  then have stored: "adds qc w (w2\<lparr>db := d\<rparr>)" using store_update_tasks [OF 2(6)] by (rule adds_stored)
  obtain r4 w4 where d4: "dispatch_if_one_time qc j4 (w2\<lparr>db := d\<rparr>) = (r4, w4)" by fastforce
  then have "w' = w4 \<or> w' = w2\<lparr>db := d\<rparr>" using 2(8) by (cases r4) (auto split: if_splits)
  then show ?case using stored adds_trans [OF stored dispatch_if_one_time_adds [OF d4]] by blast
qed

lemma trigger_job_adds: "trigger_job qc i w = (r, w') \<Longrightarrow> adds qc w w'"
  by (auto simp: trigger_job_def split: option.splits dest: enqueue_task_adds)

lemma retry_task_adds: "retry_task qc t_id w = (r, w') \<Longrightarrow> adds qc w w'"
proof (erule retry_task_cases, goal_cases)
  case (3 t e i now w1 w2)
  then show ?case using adds_quiet [OF quiet_trans [OF quiet_uuid4 [OF 3(4)] quiet_utcnow [OF 3(5)]]] by simp
next
  case (4 t i now w1 w2 d)
  have q: "quiet w w2" using quiet_trans [OF quiet_uuid4 [OF 4(3)] quiet_utcnow [OF 4(4)]] .
  have "draws w1 w'" using 4(6) quiet_draws [OF quiet_utcnow [OF 4(4)]] by (auto simp: draws_def split: sum.splits)
  note i = uuid4_new_id [OF 4(3) this]
  show ?case
    by (rule adds_created [OF 4(5)])
      (use 4(6) q i in \<open>auto simp: draws_def quiet_def pool_queue_def split: sum.splits queue_path.split\<close>)
qed simp_all

subsection \<open>The schedulers\<close>

lemma advanced_adds: "advanced cr job now w w1 d j \<Longrightarrow> adds qc w (w1\<lparr>db := d\<rparr>)"
  by (auto simp: advanced_def dest!: merge_commit_frame quiet_utcnow intro: adds_stored)

lemma dispatch_job_adds: "dispatch_job cr qc job now w = (r, w') \<Longrightarrow> adds qc w w'"
proof (erule dispatch_job_cases, goal_cases)
  case (1 err)
  then show ?case by (simp add: adds_quiet)
next
  case (2 w1 d j2)
  then show ?case using advanced_adds by blast
next
  case (3 w1 d j2 i w3 created w4 err)
  have "adds qc (w1\<lparr>db := d\<rparr>) w4" using adds_quiet [OF quiet_trans [OF quiet_uuid4 [OF 3(3)] quiet_utcnow [OF 3(4)]]] .
  then show ?case using adds_trans [OF advanced_adds [OF 3(1)]] 3(7) by simp
next
  case (4 w1 d j2 i w3 created w4 d' err)
  have q: "quiet (w1\<lparr>db := d\<rparr>) w4" using quiet_trans [OF quiet_uuid4 [OF 4(3)] quiet_utcnow [OF 4(4)]] .
  have "draws w3 w'" using 4(8) quiet_draws [OF quiet_utcnow [OF 4(4)]] by (simp add: draws_def)
  note i = uuid4_new_id [OF 4(3) this]
  have "adds qc (w1\<lparr>db := d\<rparr>) w'"
    by (rule adds_created [OF 4(5)])
      (use 4(8) q i in \<open>auto simp: draws_def quiet_def pool_queue_def split: queue_path.split\<close>)
  then show ?case by (rule adds_trans [OF advanced_adds [OF 4(1)]])
next
  case (5 w1 d j2 i w3 created w4 d' q)
  have q: "quiet (w1\<lparr>db := d\<rparr>) w4" using quiet_trans [OF quiet_uuid4 [OF 5(3)] quiet_utcnow [OF 5(4)]] .
  have q1: "quiet w w1" using 5(1) by (auto simp: advanced_def quiet_utcnow)
  have "draws w3 w'" using 5(8) quiet_draws [OF quiet_utcnow [OF 5(4)]] by (simp add: draws_def)
  note i = uuid4_new_id [OF 5(3) this]
  have "adds qc (w1\<lparr>db := d\<rparr>) w'"
    by (rule adds_created [OF 5(5)])
      (use 5(6,8) q q1 i in \<open>auto simp: draws_def quiet_def pool_queue_def split: queue_path.split\<close>)
  then show ?case by (rule adds_trans [OF advanced_adds [OF 5(1)]])
qed

lemma dispatch_due_jobs_adds:
  fixes w :: "'q world"
  assumes adv: "croniter_advances cr" and hi: "heap_inv (heap s)" and d: "dispatch_due_jobs cr qc s w = Some (r, s', w')"
  shows "adds qc w w'"
proof -
  obtain now w0 where n: "utcnow w = (now, w0)" by fastforce
  have "\<exists>r s' w'. dispatch_loop cr qc now 0 s w0 = Some (r, s', w') \<and>
    (case r of Inl err \<Rightarrow> adds qc w w' | Inr m \<Rightarrow> adds qc w w' \<and> heap_inv (heap s') \<and> (\<forall>e \<in> set (heap s'). now < fst e))"
  proof (rule dispatch_loop_rule [where P = "\<lambda>n s w'. adds qc w w'" and Q = "\<lambda>s w'. adds qc w w'", OF adv hi])
    show "adds qc w w0" by (rule adds_quiet [OF quiet_utcnow [OF n]])
  qed (auto dest: dispatch_job_adds intro: adds_trans)
  then show ?thesis using d n by (auto simp: dispatch_due_jobs_def split: sum.splits)
qed

lemma sync_jobs_frame:
  assumes "sync_jobs s w = (s', w')"
  shows "quiet w w' \<and> (heap_inv (heap s) \<longrightarrow> heap_inv (heap s'))"
proof -
  obtain start w1 where n: "utcnow w = (start, w1)" by fastforce
  have one: "heap_inv (heap u) \<Longrightarrow> heap_inv (heap (sync_one j u))" for j u
    by (auto simp: sync_one_def Let_def heappush_heap split: option.splits)
  have "heap_inv (heap u) \<Longrightarrow> heap_inv (heap (fold sync_one js u))" for js u
    by (induction js arbitrary: u) (simp_all add: one)
  then show ?thesis using assms n quiet_utcnow [OF n] by (auto simp: sync_jobs_def)
qed

lemma recover_orphans_moves:
  assumes "store_inv cfg w" "recover_orphans w = (r, w')"
  shows "tasks_step (db w) (db w') \<and> sent_new qc w w'"
proof -
  let ?f = "\<lambda>t. if expired (clock w (ticks w)) t
      then t\<lparr>status := pending, locked_by := None, locked_until := None, started_at := None\<rparr> else t"
  note R = recover_orphans_run [OF assms]
  have ts: "tasks (db w') = map ?f (tasks (db w))" using R by simp
  moreover have "task_moves t (?f t)" for t by (simp add: task_moves_def legal_status_def expired_def)
  ultimately have "tasks_step (db w) (db w')" by (intro tasks_stepI [where new = "[]" and f = ?f]) simp_all
  moreover have "task_ids (db w') = task_ids (db w)"
    unfolding task_ids_def ts set_map image_image by (rule image_cong) simp_all
  then have "sent_new qc w w'" by (intro sent_new_same) (use R in \<open>auto simp: pool_queue_def split: queue_path.split\<close>)
  ultimately show ?thesis ..
qed

lemma dispatch_if_ready_adds:
  assumes "dispatch_if_ready qc latest ups j w = (r, w')"
  shows "adds qc w w'"
proof (cases "ready latest ups (jid j)")
  case True
  obtain i w1 now w2 where u: "uuid4 w = (i, w1)" "utcnow w1 = (now, w2)" by fastforce
  have q: "quiet w w2" using quiet_trans [OF quiet_uuid4 [OF u(1)] quiet_utcnow [OF u(2)]] .
  show ?thesis
  proof (cases "task_create (new_task i (jid j) dependency 0 now) (db w)")
    case (Inl e)
    then show ?thesis using assms True u q by (simp add: dispatch_if_ready_def quietD adds_quiet)
  next
    case (Inr d)
    have c: "task_create (new_task i (jid j) dependency 0 now) (db w2) = Inr d" using Inr by (simp only: quietD(1) [OF q])
    have w': "w' = w2\<lparr>db := d\<rparr> \<or> (\<exists>q'. send_task qc i (normal_queue w2) = Inr q' \<and> w' = w2\<lparr>db := d, normal_queue := q'\<rparr>)"
      using assms True u c by (auto simp: dispatch_if_ready_def Let_def split: sum.splits)
    then have "draws w1 w'" using quiet_draws [OF quiet_utcnow [OF u(2)]] by (auto simp: draws_def)
    note i = uuid4_new_id [OF u(1) this]
    show ?thesis
      by (rule adds_created [OF Inr])
        (use w' q i in \<open>auto simp: draws_def quiet_def pool_queue_def split: queue_path.split\<close>)
  qed
qed (use assms in \<open>simp add: dispatch_if_ready_def\<close>)

lemma dispatch_ready_jobs_adds: "dispatch_ready_jobs qc latest ups js n w = (r, w') \<Longrightarrow> adds qc w w'"
proof (induction js arbitrary: n w)
  case (Cons j js)
  obtain r1 w1 where d: "dispatch_if_ready qc latest (ups (jid j)) j w = (r1, w1)" by fastforce
  show ?case
  proof (cases r1)
    case (Inl e)
    with d Cons.prems dispatch_if_ready_adds [OF d] show ?thesis by simp
  next
    case (Inr b)
    with d Cons.prems have "dispatch_ready_jobs qc latest ups js (if b then Suc n else n) w1 = (r, w')" by simp
    from adds_trans [OF dispatch_if_ready_adds [OF d] Cons.IH [OF this]] show ?thesis .
  qed
qed simp

lemma trigger_dependent_jobs_moves:
  assumes t: "trigger_dependent_jobs qc w = (r, w')"
  shows "tasks_step (db w) (db w')"
proof -
  define ob where "ob = get_unprocessed_successful_tasks chaining_limit (db w)"
  have "tid ` set ob \<subseteq> task_ids (db w)" by (auto simp: ob_def task_ids_def dest: unprocessed_in)
  then have mark: "mark_all_processed ob (db w) = (Inr (), (db w)\<lparr>tasks := flagged ob (tasks (db w))\<rparr>)"
    using mark_all_eq by (simp add: flagged_def)
  let ?w1 = "w\<lparr>db := (db w)\<lparr>tasks := flagged ob (tasks (db w))\<rparr>\<rparr>"
  have flag: "tasks_step (db w) (db ?w1)"
    by (rule tasks_stepI [where new = "[]" and f = "\<lambda>t. if tid t \<in> tid ` set ob then t\<lparr>processed_for_chaining := True\<rparr> else t"])
      (auto simp: flagged_def task_moves_def legal_status_def)
  have "w' = w \<or> w' = ?w1 \<or> (\<exists>l c. dispatch_ready_jobs qc l (upstream_job_ids (db w)) c 0 ?w1 = (r, w'))"
    using t mark by (auto simp: trigger_dependent_jobs_def Let_def ob_def [symmetric] split: if_splits)
  then show ?thesis
  proof (elim disjE exE)
    fix l c assume "dispatch_ready_jobs qc l (upstream_job_ids (db w)) c 0 ?w1 = (r, w')"
    from dispatch_ready_jobs_adds [OF this] show ?thesis
      using tasks_step_then_added [OF flag] unfolding adds_def by blast
  qed (use flag in \<open>auto intro: tasks_step_same\<close>)
qed

subsection \<open>The workers\<close>

lemma claim_task_moves:
  assumes inv: "store_inv cfg w" and c: "claim_task wk t w = (r, w')"
  shows "tasks_step (db w) (db w') \<and> sent_new qc w w'"
  using c
proof (cases rule: claim_task_cases)
  case lost
  then show ?thesis by (simp add: quietD sent_new_quiet tasks_step_same)
next
  case (won row until start d w2)
  have "tasks_step (db w) d"
  proof (rule tasks_step_write [OF won(7)])
    fix x assume "x \<in> set (tasks (db w))" "tid x = t"
    moreover have "distinct (map tid (tasks (db w)))" using inv by (simp add: store_inv_def db_wf_def keys_ok_def)
    ultimately have "x = row" using won(1) by (simp add: get_task_row_def find_row_Some_iff) (metis distinct_map inj_onD)
    then show "task_moves x (claim_columns (w_id wk) until start x)"
      using won(2) by (simp add: task_moves_def legal_status_def claim_columns_def)
  qed
  moreover have "sent_new qc w w'"
    unfolding won(5) by (rule sent_new_stored [OF won(4)]) (use task_write_frame [OF won(7) keeps_identity_claim] in simp)
  ultimately show ?thesis using won(5) by simp
qed

lemma heartbeat_moves: "tasks_step (db w) (db (heartbeat_beat wk t w)) \<and> sent_new qc w (heartbeat_beat wk t w)"
proof -
  obtain now w1 where n: "utcnow w = (now, w1)" by fastforce
  note q = quiet_utcnow [OF n]
  have "tasks_step (db w) (db (heartbeat_beat wk t w))"
    by (rule tasks_stepI [where new = "[]" and f = "\<lambda>r. if tid r = t \<and> locked_by r = Some (w_id wk)
        then r\<lparr>locked_until := Some (now + seconds (claim_seconds wk))\<rparr> else r"])
      (use n quietD [OF q] in \<open>auto simp: heartbeat_beat_def update_row_def task_moves_def legal_status_def\<close>)
  moreover have "sent_new qc w (heartbeat_beat wk t w)"
    unfolding heartbeat_beat_def n Let_def prod.case
    by (rule sent_new_stored [OF q]) (auto simp: quietD(1) [OF q] task_ids_def update_row_def)
  ultimately show ?thesis ..
qed

lemma sent_new_finish:
  assumes "quiet w w1" "finish_task i st out err now (db w) = Inr d"
  shows "sent_new qc w (w1\<lparr>db := d\<rparr>)"
proof (rule sent_new_stored [OF assms(1)])
  show "task_ids d \<subseteq> task_ids (db w)"
    using task_write_frame [OF assms(2) [unfolded finish_task_def]] by simp
qed

lemma handle_failure_moves:
  assumes "handle_failure qc t j out err w = (r, w')"
  shows "tasks_step (db w) (db w') \<and> sent_new qc w w'"
  using assms
proof (cases rule: handle_failure_cases)
  case (stale now)
  then show ?thesis using quiet_utcnow [OF stale(2)] by (simp add: quietD sent_new_quiet tasks_step_same)
next
  case (final now w1 d)
  then show ?thesis using sent_new_finish [OF quiet_utcnow [OF final(3)] final(4)] tasks_step_finish [OF final(4)]
    by (simp add: terminal_def)
next
  case (rejected now w1 d i w3 now' w4 e)
  have q: "quiet (w1\<lparr>db := d\<rparr>) w4" using quiet_trans [OF quiet_uuid4 [OF rejected(5)] quiet_utcnow [OF rejected(6)]] .
  then have "sent_new qc w w4" using sent_new_trans [OF sent_new_finish [OF quiet_utcnow [OF rejected(3)] rejected(4)] sent_new_quiet] by blast
  then show ?thesis using rejected(8) q tasks_step_finish [OF rejected(4)] by (simp add: terminal_def quietD)
next
  case (retried now w1 d i w3 now' w4 d')
  have q: "quiet (w1\<lparr>db := d\<rparr>) w4" using quiet_trans [OF quiet_uuid4 [OF retried(4)] quiet_utcnow [OF retried(5)]] .
  have w': "db w' = d'" "draws w3 w'" "draws w4 w'"
    using retried(7) quiet_draws [OF quiet_utcnow [OF retried(5)]] by (auto simp: draws_def split: sum.splits)
  have "sent_new qc (w1\<lparr>db := d\<rparr>) w'"
    by (rule sent_new_created [OF retried(6)])
      (use retried(7) q quiet_utcnow [OF retried(2)] w' uuid4_new_id [OF retried(4) w'(2)] in
        \<open>auto simp: draws_def quiet_def pool_queue_def split: sum.splits queue_path.split\<close>)
  then have "sent_new qc w w'" by (rule sent_new_trans [OF sent_new_finish [OF quiet_utcnow [OF retried(2)] retried(3)]])
  have "tasks_step (db w) d" using tasks_step_finish [OF retried(3)] by (simp add: terminal_def)
  moreover have "tasks d' = tasks d @ [new_task i (jid j) (trigger_type t) (retry_count t + 1) now']"
    using task_create_SomeD [OF retried(6)] by simp
  ultimately have "tasks_step (db w) d'" by (rule tasks_step_then_added) simp
  then show ?thesis using w'(1) \<open>sent_new qc w w'\<close> by simp
qed

lemma record_result_moves:
  assumes h: "record_result qc t j res w = (r, w')"
  shows "tasks_step (db w) (db w') \<and> sent_new qc w w'"
proof (cases "er_success res")
  case False
  then show ?thesis using h handle_failure_moves by (simp add: record_result_def)
next
  case True
  obtain now w1 where n: "utcnow w = (now, w1)" by fastforce
  note q = quiet_utcnow [OF n]
  show ?thesis
  proof (cases "mark_success (tid t) (truncate_output (er_stdout res)) (truncate_output (er_stderr res)) now (db w)")
    case (Inl e)
    then have "w' = w1" using h True n by (simp add: record_result_def quietD(1) [OF q])
    then show ?thesis using q by (simp add: quietD sent_new_quiet tasks_step_same)
  next
    case (Inr d)
    then have "w' = w1\<lparr>db := d\<rparr>" using h True n by (simp add: record_result_def quietD(1) [OF q])
    then show ?thesis using sent_new_finish [OF q] tasks_step_finish Inr unfolding mark_success_def by (fastforce simp: terminal_def)
  qed
qed

subsection \<open>Rows before and after a step\<close>

lemma tasks_step_rows:
  assumes "tasks_step d d'" "distinct (map tid (tasks d'))"
  shows "(\<forall>t \<in> set (tasks d). \<exists>t' \<in> set (tasks d'). task_moves t t') \<and>
    (\<forall>t' \<in> set (tasks d'). (\<exists>t \<in> set (tasks d). task_moves t t') \<or> (status t' = pending \<and> tid t' \<notin> task_ids d))"
proof -
  obtain f new where s: "tasks d' = map f (tasks d) @ new" "\<forall>t \<in> set (tasks d). task_moves t (f t)"
    "\<forall>t \<in> set new. status t = pending \<and> \<not> processed_for_chaining t" using assms(1) unfolding tasks_step_def by blast
  have "tid ` set (map f (tasks d)) = task_ids d"
    using s(2) by (auto simp: task_ids_def task_moves_def image_image intro!: image_cong)
  moreover have "tid ` set (map f (tasks d)) \<inter> tid ` set new = {}" using assms(2) unfolding s(1) by auto
  ultimately have "tid t \<notin> task_ids d" if "t \<in> set new" for t using that by blast
  then show ?thesis using s by auto
qed

end
