(* ===== verification/Scheduler_Process.thy ===== *)
theory Scheduler_Process
  imports Task_Lifecycle Leader_Lock Autoscaler Queue_Pool
begin

text \<open>
  The scheduler and autoscaler processes of \<open>app/cli.py\<close>, with the facade
  \<open>app/services/scheduler_service.py\<close>: one iteration of each loop. A scheduler iteration asks for
  the leadership and, when it has it, runs the four passes in order; an exception ends the cycle and
  is logged.
\<close>

subsection \<open>The facade\<close>

text \<open>\<open>SchedulerService\<close>: the cron scheduler with its state, and the two queues; the dependency scheduler
  keeps no state.\<close>

record scheduler_service =
  cron_scheduler :: scheduler
  orphan_timeout :: int

definition SchedulerService :: "int \<Rightarrow> scheduler_service" where
  "SchedulerService timeout = \<lparr>cron_scheduler = new_scheduler, orphan_timeout = timeout\<rparr>"

text \<open>The methods of the facade, named after the ones they delegate to.\<close>

definition service_sync_jobs :: "scheduler_service \<Rightarrow> 'q world \<Rightarrow> scheduler_service \<times> 'q world" where
  "service_sync_jobs sv w = (let (s, w') = sync_jobs (cron_scheduler sv) w in (sv\<lparr>cron_scheduler := s\<rparr>, w'))"

definition service_recover_orphans :: "scheduler_service \<Rightarrow> 'q world \<Rightarrow> nat result \<times> 'q world" where
  "service_recover_orphans sv w = recover_orphans w"

definition service_dispatch_due_jobs ::
    "croniter \<Rightarrow> 'q queue_client \<Rightarrow> scheduler_service \<Rightarrow> 'q world \<Rightarrow> (nat result \<times> scheduler_service \<times> 'q world) option" where
  "service_dispatch_due_jobs cr qc sv w =
     map_option (\<lambda>(r, s, w'). (r, sv\<lparr>cron_scheduler := s\<rparr>, w')) (dispatch_due_jobs cr qc (cron_scheduler sv) w)"

definition service_trigger_dependent_jobs ::
    "'q queue_client \<Rightarrow> scheduler_service \<Rightarrow> 'q world \<Rightarrow> nat result \<times> 'q world" where
  "service_trigger_dependent_jobs qc sv w = trigger_dependent_jobs qc w"

subsection \<open>A cycle\<close>

text \<open>The body of the \<open>try\<close> in \<open>run_scheduler\<close>. \<open>None\<close> would be a pass that never returns.\<close>

definition scheduler_cycle ::
    "croniter \<Rightarrow> 'q queue_client \<Rightarrow> scheduler_service \<Rightarrow> 'q world \<Rightarrow> (scheduler_service \<times> 'q world) option" where
  "scheduler_cycle cr qc sv w =
     (let (sv1, w1) = service_sync_jobs sv w in
      case service_recover_orphans sv1 w1 of
        (Inl e, w2) \<Rightarrow> Some (sv1, w2)
      | (Inr n, w2) \<Rightarrow>
          (case service_dispatch_due_jobs cr qc sv1 w2 of
             None \<Rightarrow> None
           | Some (Inl e, sv3, w3) \<Rightarrow> Some (sv3, w3)
           | Some (Inr k, sv3, w3) \<Rightarrow>
               (case service_trigger_dependent_jobs qc sv3 w3 of (r, w4) \<Rightarrow> Some (sv3, w4))))"

lemmas facade_defs = service_sync_jobs_def service_recover_orphans_def service_dispatch_due_jobs_def
  service_trigger_dependent_jobs_def

definition scheduler_iteration ::
    "'p pg_api \<Rightarrow> croniter \<Rightarrow> 'q queue_client \<Rightarrow> leader_lock \<Rightarrow> scheduler_service \<Rightarrow> 'p \<Rightarrow> 'q world \<Rightarrow>
     (leader_lock \<times> scheduler_service \<times> 'p \<times> 'q world) option" where
  "scheduler_iteration api cr qc l sv p w =
     (case is_leader api l p of
        (b, l', p') \<Rightarrow>
          if b then (case scheduler_cycle cr qc sv w of None \<Rightarrow> None | Some (sv', w') \<Rightarrow> Some (l', sv', p', w'))
          else Some (l', sv, p', w))"

subsection \<open>The autoscaler process\<close>

definition autoscaler_runs :: "settings \<Rightarrow> bool" where
  "autoscaler_runs cfg \<longleftrightarrow> execution_backend cfg \<noteq> kubernetes_backend \<and> autoscaler_enabled cfg"

text \<open>One turn of the loop; an exception of the pass is logged.\<close>

definition autoscaler_iteration ::
    "sqs_depth_api \<Rightarrow> settings \<Rightarrow> string \<Rightarrow> 's vm_service \<Rightarrow> 's vm_service" where
  "autoscaler_iteration api cfg template_name v =
     (if autoscaler_runs cfg then snd (apply_scaling api cfg template_name v) else v)"

subsection \<open>The command line\<close>

datatype command = run_scheduler | run_autoscaler | run_worker "string option"

text \<open>\<open>main()\<close> on the arguments after the program name; \<open>None\<close> is the exit of \<open>argparse\<close> with an error. Of its
  leniency, unambiguous abbreviations of option names are left out.\<close>

definition main_command :: "string list \<Rightarrow> command option" where
  "main_command args =
     (case args of
        [c] \<Rightarrow>
          if c = ''scheduler'' then Some run_scheduler
          else if c = ''autoscaler'' then Some run_autoscaler
          else if c = ''worker'' then Some (run_worker None)
          else None
      | [c, opt, q] \<Rightarrow>
          if c = ''worker'' \<and> opt = ''--queue'' \<and> q \<in> fst ` set queue_factories then Some (run_worker (Some q)) else None
      | [c, x] \<Rightarrow>
          (case filter (\<lambda>q. x = ''--queue='' @ q) (map fst queue_factories) of
             [] \<Rightarrow> None
           | q # qs \<Rightarrow> if c = ''worker'' then Some (run_worker (Some q)) else None)
      | _ \<Rightarrow> None)"

subsection \<open>A cycle returns and keeps the store\<close>

definition service_inv :: "settings \<Rightarrow> scheduler_service \<Rightarrow> 'q world \<Rightarrow> bool" where
  "service_inv cfg sv w \<longleftrightarrow>
     store_inv cfg w \<and> cache_ok cfg (cron_scheduler sv) w \<and> heap_inv (heap (cron_scheduler sv))"

lemma cache_ok_draws: "cache_ok cfg s w \<Longrightarrow> draws w w' \<Longrightarrow> cache_ok cfg s w'"
  by (rule cache_ok_mono [of cfg s w]) (simp_all add: draws_def)

lemma scheduler_cycle_inv:
  assumes adv: "croniter_advances cr" and inv: "service_inv cfg sv w"
  shows "\<exists>sv' w'. scheduler_cycle cr qc sv w = Some (sv', w') \<and> service_inv cfg sv' w'"
proof -
  note I = inv [unfolded service_inv_def]
  obtain s1 w1 where sync: "sync_jobs (cron_scheduler sv) w = (s1, w1)" by fastforce
  have q: "quiet w w1" "heap_inv (heap s1)" using sync_jobs_frame [OF sync] I by simp_all
  have inv1: "store_inv cfg w1" "cache_ok cfg s1 w1" using sync_cache_ok [OF _ _ sync] I q(1) store_inv_quiet by blast+
  obtain r w2 where rec: "recover_orphans w1 = (r, w2)" by fastforce
  note R = recover_orphans_run [OF inv1(1) rec]
  obtain n where r: "r = Inr n" using R by blast
  have inv2: "store_inv cfg w2" "cache_ok cfg s1 w2" using R inv1(2) cache_ok_draws by blast+
  obtain r3 s3 w3 where disp: "dispatch_due_jobs cr qc s1 w2 = Some (r3, s3, w3)" and
    inv3: "store_inv cfg w3" "cache_ok cfg s3 w3" "heap_inv (heap s3)"
    using dispatch_due_jobs_store [OF adv q(2) inv2] by blast
  show ?thesis
  proof (cases r3)
    case (Inl e)
    then show ?thesis using sync rec r disp inv3 by (simp add: scheduler_cycle_def facade_defs service_inv_def)
  next
    case (Inr k)
    obtain r4 w4 where trig: "trigger_dependent_jobs qc w3 = (r4, w4)" by fastforce
    have "store_inv cfg w4" "cache_ok cfg s3 w4"
      using trigger_dependent_jobs_store [OF inv3(1) trig] inv3(2) cache_ok_draws by blast+
    then show ?thesis using sync rec r disp trig Inr inv3(3) by (simp add: scheduler_cycle_def facade_defs service_inv_def)
  qed
qed

text \<open>An iteration of the scheduler process always returns, whatever the queues and the database server
  answer, and keeps the store and the scheduler's cache consistent; a replica that is not the leader
  changes neither the store nor its schedule.\<close>

lemma scheduler_iteration_safe:
  assumes "croniter_advances cr" "service_inv cfg sv w"
  shows "\<exists>l' sv' p' w'. scheduler_iteration api cr qc l sv p w = Some (l', sv', p', w') \<and> service_inv cfg sv' w' \<and>
    (\<not> fst (is_leader api l p) \<longrightarrow> sv' = sv \<and> w' = w)"
proof -
  obtain b l' p' where lead: "is_leader api l p = (b, l', p')" by (metis prod_cases3)
  obtain sv' w' where "scheduler_cycle cr qc sv w = Some (sv', w')" "service_inv cfg sv' w'"
    using scheduler_cycle_inv [OF assms] by blast
  then show ?thesis using lead assms(2) by (cases b) (simp_all add: scheduler_iteration_def)
qed

lemma new_service_inv: "store_inv cfg w \<Longrightarrow> service_inv cfg (SchedulerService t) w"
  by (simp add: service_inv_def SchedulerService_def new_scheduler_def cache_ok_def heap_inv_def)

lemma scheduler_iteration_safe_example:
  "\<exists>l' sv' p' w'. scheduler_iteration small_api minutely MemoryQueueClient (LeaderLock 0 leader_lock_key) (SchedulerService 30)
     \<lparr>next_session = 0, owners = Map.empty, lock_holder = None\<rparr> pending_world = Some (l', sv', p', w') \<and>
     service_inv default_settings sv' w'"
  using scheduler_iteration_safe [OF minutely_advances new_service_inv [OF pending_store_inv], of small_api MemoryQueueClient
      "LeaderLock 0 leader_lock_key" 30 "\<lparr>next_session = 0, owners = Map.empty, lock_holder = None\<rparr>"]
  by blast

end
