(* ===== verification/Exporter.thy ===== *)
theory Exporter
  imports Autoscaler
begin

text \<open>
  \<open>infra/observability/sqs-exporter/app.py\<close>: the metrics of the queues and of the worker fleet.
  A gauge with a label is a map from label values, a counter counts from zero. The SQS and Docker
  clients are the parameters of the autoscaler's theory.
\<close>

record metrics =
  g_visible :: "string \<Rightarrow> int option"
  g_not_visible :: "string \<Rightarrow> int option"
  g_delayed :: "string \<Rightarrow> int option"
  sqs_errors :: "string \<Rightarrow> nat"
  workers_total :: int
  workers_autoscaled :: int
  worker_errors :: nat

definition new_metrics :: metrics where
  "new_metrics =
     \<lparr>g_visible = Map.empty, g_not_visible = Map.empty, g_delayed = Map.empty, sqs_errors = (\<lambda>q. 0),
      workers_total = 0, workers_autoscaled = 0, worker_errors = 0\<rparr>"

text \<open>The environment variable of a queue name, with the default of the code.\<close>

definition exporter_queues :: "(string \<Rightarrow> string option) \<Rightarrow> string list" where
  "exporter_queues environ =
     map (\<lambda>(k, dflt). case environ k of None \<Rightarrow> dflt | Some v \<Rightarrow> v)
       [(''DASS_QUEUE_NAME_NORMAL'', ''dass-tasks-normal''),
        (''DASS_QUEUE_NAME_SCHEDULED'', ''dass-tasks-scheduled''),
        (''DASS_QUEUE_NAME_RETRY'', ''dass-tasks-retry'')]"

definition count_error :: "string \<Rightarrow> metrics \<Rightarrow> metrics" where
  "count_error q m = m\<lparr>sqs_errors := (sqs_errors m)(q := Suc (sqs_errors m q))\<rparr>"

text \<open>The body of the loop over the queues: the gauges are set one after the other, so an attribute that is
  no number leaves the later ones as they were.\<close>

definition collect_queue :: "sqs_depth_api \<Rightarrow> string \<Rightarrow> metrics \<Rightarrow> metrics" where
  "collect_queue api q m =
     (case depth_queue_url api q of
        Inl e \<Rightarrow> count_error q m
      | Inr url \<Rightarrow>
          (case depth_attributes api url of
             Inl e \<Rightarrow> count_error q m
           | Inr attrs \<Rightarrow>
               (case attribute_int ''ApproximateNumberOfMessages'' attrs of
                  None \<Rightarrow> count_error q m
                | Some a \<Rightarrow>
                    (let m1 = m\<lparr>g_visible := (g_visible m)(q \<mapsto> a)\<rparr> in
                     case attribute_int ''ApproximateNumberOfMessagesNotVisible'' attrs of
                       None \<Rightarrow> count_error q m1
                     | Some b \<Rightarrow>
                         (let m2 = m1\<lparr>g_not_visible := (g_not_visible m1)(q \<mapsto> b)\<rparr> in
                          case attribute_int ''ApproximateNumberOfMessagesDelayed'' attrs of
                            None \<Rightarrow> count_error q m2
                          | Some c \<Rightarrow> m2\<lparr>g_delayed := (g_delayed m2)(q \<mapsto> c)\<rparr>)))))"

definition collect_sqs :: "sqs_depth_api \<Rightarrow> string list \<Rightarrow> metrics \<Rightarrow> metrics" where
  "collect_sqs api queues m = fold (collect_queue api) queues m"

text \<open>\<open>docker.from_env()\<close> and \<open>ping()\<close>; any exception means no client.\<close>

definition make_docker_client :: "'s docker_client docker_result \<Rightarrow> 's \<Rightarrow> 's docker_client option" where
  "make_docker_client from_env s =
     (case from_env of
        Inl e \<Rightarrow> None
      | Inr client \<Rightarrow> (case docker_ping client s of Inl e \<Rightarrow> None | Inr u \<Rightarrow> Some client))"

text \<open>An exception that is no \<open>DockerException\<close> leaves the function.\<close>

definition collect_workers :: "'s docker_client option \<Rightarrow> 's \<Rightarrow> metrics \<Rightarrow> docker_error option \<times> metrics" where
  "collect_workers client s m =
     (case client of
        None \<Rightarrow> (None, m\<lparr>workers_total := 0, workers_autoscaled := 0\<rparr>)
      | Some cl \<Rightarrow>
          (case containers_list cl [''com.dass.project=dass'', ''com.dass.service=worker''] s of
             Inr cs \<Rightarrow>
               (None, m\<lparr>workers_total := int (length cs),
                        workers_autoscaled :=
                          int (length (filter (\<lambda>c. map_of (c_labels c) ''com.dass.autoscaled'' = Some ''true'') cs))\<rparr>)
           | Inl e \<Rightarrow>
               if is_docker_exception e then (None, m\<lparr>worker_errors := Suc (worker_errors m)\<rparr>) else (Some e, m)))"

text \<open>One turn of the loop of \<open>main()\<close>: the Docker client is rebuilt after an exception. \<open>collect_sqs\<close> raises
  nothing.\<close>

definition exporter_iteration ::
    "sqs_depth_api \<Rightarrow> 's docker_client docker_result \<Rightarrow> string list \<Rightarrow> 's \<Rightarrow> 's docker_client option \<Rightarrow> metrics \<Rightarrow>
     's docker_client option \<times> metrics" where
  "exporter_iteration api from_env queues s client m =
     (case collect_workers client s (collect_sqs api queues m) of
        (None, m') \<Rightarrow> (client, m')
      | (Some e, m') \<Rightarrow> (make_docker_client from_env s, m'))"

subsection \<open>Properties\<close>

text \<open>What a read of one queue gives: its three numbers, if all can be read.\<close>

definition queue_reading :: "sqs_depth_api \<Rightarrow> string \<Rightarrow> (int \<times> int \<times> int) option" where
  "queue_reading api q =
     (case depth_queue_url api q of
        Inl e \<Rightarrow> None
      | Inr url \<Rightarrow>
          (case depth_attributes api url of
             Inl e \<Rightarrow> None
           | Inr attrs \<Rightarrow>
               (case (attribute_int ''ApproximateNumberOfMessages'' attrs,
                      attribute_int ''ApproximateNumberOfMessagesNotVisible'' attrs,
                      attribute_int ''ApproximateNumberOfMessagesDelayed'' attrs) of
                  (Some a, Some b, Some c) \<Rightarrow> Some (a, b, c) | _ \<Rightarrow> None)))"

lemma collect_queue_other:
  assumes "q' \<noteq> q"
  shows "g_visible (collect_queue api q m) q' = g_visible m q'" "g_not_visible (collect_queue api q m) q' = g_not_visible m q'"
    "g_delayed (collect_queue api q m) q' = g_delayed m q'" "sqs_errors (collect_queue api q m) q' = sqs_errors m q'"
  using assms by (auto simp: collect_queue_def count_error_def Let_def split: sum.splits option.splits)

lemma collect_queue_same:
  "case queue_reading api q of
     Some (a, b, c) \<Rightarrow> g_visible (collect_queue api q m) q = Some a \<and> g_not_visible (collect_queue api q m) q = Some b \<and>
       g_delayed (collect_queue api q m) q = Some c \<and> sqs_errors (collect_queue api q m) q = sqs_errors m q
   | None \<Rightarrow> g_delayed (collect_queue api q m) q = g_delayed m q \<and> sqs_errors (collect_queue api q m) q = Suc (sqs_errors m q)"
  by (auto simp: queue_reading_def collect_queue_def count_error_def Let_def split: sum.splits option.splits prod.splits)

lemma collect_sqs_frame:
  "q \<notin> set queues \<Longrightarrow>
     g_visible (collect_sqs api queues m) q = g_visible m q \<and> g_not_visible (collect_sqs api queues m) q = g_not_visible m q \<and>
     g_delayed (collect_sqs api queues m) q = g_delayed m q \<and> sqs_errors (collect_sqs api queues m) q = sqs_errors m q"
  by (induction queues arbitrary: m) (simp_all add: collect_sqs_def collect_queue_other)

lemma queue_reading_depth: "queue_reading api q = Some (a, b, c) \<Longrightarrow> depth api q = a + b"
  by (auto simp: queue_reading_def depth_def split: sum.splits option.splits)

text \<open>(C33) Collecting treats the queues one by one: a queue that can be read shows exactly its three numbers,
  of which the first two add up to the depth the autoscaler computes, and counts no error; a queue that
  cannot be read counts exactly one error and disturbs no other.\<close>

theorem collect_sqs_per_queue:
  assumes "distinct queues" "q \<in> set queues"
  shows "case queue_reading api q of
     Some (a, b, c) \<Rightarrow> g_visible (collect_sqs api queues m) q = Some a \<and> g_not_visible (collect_sqs api queues m) q = Some b \<and>
       g_delayed (collect_sqs api queues m) q = Some c \<and> depth api q = a + b \<and>
       sqs_errors (collect_sqs api queues m) q = sqs_errors m q
   | None \<Rightarrow> g_delayed (collect_sqs api queues m) q = g_delayed m q \<and>
       sqs_errors (collect_sqs api queues m) q = Suc (sqs_errors m q)"
  using assms
proof (induction queues arbitrary: m)
  case (Cons x queues)
  have run: "collect_sqs api (x # queues) m = collect_sqs api queues (collect_queue api x m)" by (simp add: collect_sqs_def)
  show ?case
  proof (cases "q = x")
    case True
    then have "q \<notin> set queues" using Cons.prems by simp
    then show ?thesis using collect_queue_same [of api q m] True
      unfolding run by (auto simp: collect_sqs_frame queue_reading_depth split: option.splits)
  next
    case False
    then show ?thesis using Cons.IH [of "collect_queue api x m"] Cons.prems
      unfolding run by (auto simp: collect_queue_other split: option.splits)
  qed
qed simp

theorem collect_sqs_per_queue_witness:
  "g_visible (collect_sqs busy_api (exporter_queues Map.empty) new_metrics) ''dass-tasks-retry'' = Some 15"
proof -
  have "queue_reading busy_api ''dass-tasks-retry'' = Some (15, 6, 0)" by code_simp
  moreover have "distinct (exporter_queues Map.empty)" "''dass-tasks-retry'' \<in> set (exporter_queues Map.empty)"
    by (simp_all add: exporter_queues_def)
  ultimately show ?thesis using collect_sqs_per_queue [of "exporter_queues Map.empty" "''dass-tasks-retry''" busy_api new_metrics] by simp
qed

end
