(* ===== verification/Migrations.thy ===== *)
theory Migrations
  imports Prelude
begin

text \<open>
  The schema migrations of \<open>backend/alembic\<close>: the four revisions as lists of operations, what the
  operations do to a schema with rows in it, and the transactional run of \<open>env.py\<close>. Beside them the
  tables that \<open>app/models\<close> declare. A cell holds the text of its value; \<open>None\<close> is NULL.
\<close>

subsection \<open>Schemas\<close>

datatype sql_type = VARCHAR nat | JSONB | BOOLEAN | INTEGER | TIMESTAMPTZ | TEXT

record column =
  col_name :: string
  col_type :: sql_type
  col_nullable :: bool
  col_default :: "string option"

record foreign_key =
  fk_columns :: "string list"
  fk_table :: string
  fk_ref :: "string list"
  fk_ondelete :: string

record index =
  ix_name :: string
  ix_columns :: "string list"
  ix_where :: "string option"

type_synonym table_row = "string \<Rightarrow> string option"

record table =
  t_columns :: "column list"
  t_primary_key :: "string list"
  t_unique :: "(string \<times> string list) list"
  t_foreign_keys :: "(string \<times> foreign_key) list"
  t_indexes :: "index list"
  t_rows :: "table_row list"

type_synonym schema = "(string \<times> table) list"

definition column :: "string \<Rightarrow> sql_type \<Rightarrow> bool \<Rightarrow> column" where
  "column n ty null = \<lparr>col_name = n, col_type = ty, col_nullable = null, col_default = None\<rparr>"

definition with_default :: "column \<Rightarrow> string \<Rightarrow> column" where
  "with_default c dflt = c\<lparr>col_default := Some dflt\<rparr>"

definition references :: "string \<Rightarrow> string \<Rightarrow> string \<Rightarrow> foreign_key" where
  "references c t action = \<lparr>fk_columns = [c], fk_table = t, fk_ref = [''id''], fk_ondelete = action\<rparr>"

definition plain_index :: "string \<Rightarrow> string \<Rightarrow> index" where
  "plain_index n c = \<lparr>ix_name = n, ix_columns = [c], ix_where = None\<rparr>"

text \<open>The condition \<open>status = 'running'\<close>.\<close>

definition running_only :: string where
  "running_only = ''status = '' @ [CHR 0x27] @ ''running'' @ [CHR 0x27]"

subsection \<open>Operations\<close>

datatype operation =
    create_table string "column list" "string list" "(string \<times> string list) list" "foreign_key list"
  | drop_table string
  | add_column string column
  | drop_column string string
  | create_index string index
  | drop_index string
  | create_foreign_key "string option" string foreign_key
  | drop_constraint "string option" string
  | alter_nullable string string bool

datatype migration_error =
    DuplicateTable | UndefinedTable | DuplicateColumn | UndefinedColumn | DuplicateObject | UndefinedObject
  | NotNullViolation | ForeignKeyViolation | DependentObjects | CompileError | CommandError

text \<open>The name PostgreSQL gives to a foreign key that has none is a parameter.\<close>

type_synonym fk_naming = "string \<Rightarrow> string list \<Rightarrow> string"

definition update_table :: "string \<Rightarrow> (table \<Rightarrow> migration_error + table) \<Rightarrow> schema \<Rightarrow> migration_error + schema" where
  "update_table t f s =
     (case map_of s t of
        None \<Rightarrow> Inl UndefinedTable
      | Some tb \<Rightarrow> (case f tb of Inl e \<Rightarrow> Inl e | Inr tb' \<Rightarrow> Inr (map (\<lambda>(n, x). if n = t then (n, tb') else (n, x)) s)))"

definition fk_satisfied :: "schema \<Rightarrow> foreign_key \<Rightarrow> table_row \<Rightarrow> bool" where
  "fk_satisfied s fk r \<longleftrightarrow>
     (\<exists>c \<in> set (fk_columns fk). r c = None) \<or>
     (case map_of s (fk_table fk) of
        None \<Rightarrow> False
      | Some tb \<Rightarrow> \<exists>r' \<in> set (t_rows tb). map r (fk_columns fk) = map r' (fk_ref fk))"

text \<open>Whether a foreign key other than those that go away with the column \<open>c\<close> of \<open>t\<close> refers to it.\<close>

definition column_referenced :: "string \<Rightarrow> string \<Rightarrow> schema \<Rightarrow> bool" where
  "column_referenced t c s \<longleftrightarrow>
     (\<exists>(n, tb) \<in> set s. \<exists>(k, fk) \<in> set (t_foreign_keys tb).
        fk_table fk = t \<and> c \<in> set (fk_ref fk) \<and> \<not> (n = t \<and> c \<in> set (fk_columns fk)))"

definition index_names :: "schema \<Rightarrow> string list" where
  "index_names s = concat (map (\<lambda>(n, tb). map ix_name (t_indexes tb)) s)"

definition columns_exist :: "table \<Rightarrow> string list \<Rightarrow> bool" where
  "columns_exist tb cs \<longleftrightarrow> set cs \<subseteq> col_name ` set (t_columns tb)"

fun run_operation :: "fk_naming \<Rightarrow> operation \<Rightarrow> schema \<Rightarrow> migration_error + schema" where
  "run_operation nm (create_table t cols pk uqs fks) s =
     (if t \<in> fst ` set s then Inl DuplicateTable
      else if \<exists>fk \<in> set fks. fk_table fk \<notin> fst ` set s then Inl UndefinedTable
      else Inr (s @ [(t, \<lparr>t_columns = cols, t_primary_key = pk, t_unique = uqs,
                          t_foreign_keys = map (\<lambda>fk. (nm t (fk_columns fk), fk)) fks, t_indexes = [], t_rows = []\<rparr>)]))"
| "run_operation nm (drop_table t) s =
     (if t \<notin> fst ` set s then Inl UndefinedTable
      else if \<exists>(n, tb) \<in> set s. n \<noteq> t \<and> (\<exists>(k, fk) \<in> set (t_foreign_keys tb). fk_table fk = t) then Inl DependentObjects
      else Inr (filter (\<lambda>(n, tb). n \<noteq> t) s))"
| "run_operation nm (add_column t c) s =
     update_table t (\<lambda>tb.
       if columns_exist tb [col_name c] then Inl DuplicateColumn
       else if \<not> col_nullable c \<and> col_default c = None \<and> t_rows tb \<noteq> [] then Inl NotNullViolation
       else Inr (tb\<lparr>t_columns := t_columns tb @ [c], t_rows := map (\<lambda>r. r(col_name c := col_default c)) (t_rows tb)\<rparr>)) s"
| "run_operation nm (drop_column t c) s =
     (if column_referenced t c s then Inl DependentObjects
      else update_table t (\<lambda>tb.
        if \<not> columns_exist tb [c] then Inl UndefinedColumn
        else Inr (tb\<lparr>t_columns := filter (\<lambda>x. col_name x \<noteq> c) (t_columns tb),
                     t_primary_key := (if c \<in> set (t_primary_key tb) then [] else t_primary_key tb),
                     t_unique := filter (\<lambda>(k, cs). c \<notin> set cs) (t_unique tb),
                     t_foreign_keys := filter (\<lambda>(k, fk). c \<notin> set (fk_columns fk)) (t_foreign_keys tb),
                     t_indexes := filter (\<lambda>ix. c \<notin> set (ix_columns ix)) (t_indexes tb),
                     t_rows := map (\<lambda>r. r(c := None)) (t_rows tb)\<rparr>)) s)"
| "run_operation nm (create_index t ix) s =
     (if ix_name ix \<in> set (index_names s) then Inl DuplicateObject
      else update_table t (\<lambda>tb.
        if \<not> columns_exist tb (ix_columns ix) then Inl UndefinedColumn
        else Inr (tb\<lparr>t_indexes := t_indexes tb @ [ix]\<rparr>)) s)"
| "run_operation nm (drop_index n) s =
     (if n \<notin> set (index_names s) then Inl UndefinedObject
      else Inr (map (\<lambda>(t, tb). (t, tb\<lparr>t_indexes := filter (\<lambda>ix. ix_name ix \<noteq> n) (t_indexes tb)\<rparr>)) s))"
| "run_operation nm (create_foreign_key k t fk) s =
     (if fk_table fk \<notin> fst ` set s then Inl UndefinedTable
      else update_table t (\<lambda>tb.
        let n = (case k of None \<Rightarrow> nm t (fk_columns fk) | Some n \<Rightarrow> n) in
        if \<not> columns_exist tb (fk_columns fk) then Inl UndefinedColumn
        else if k \<noteq> None \<and> n \<in> set (map fst (t_unique tb) @ map fst (t_foreign_keys tb)) then Inl DuplicateObject
        else if \<exists>r \<in> set (t_rows tb). \<not> fk_satisfied s fk r then Inl ForeignKeyViolation
        else Inr (tb\<lparr>t_foreign_keys := t_foreign_keys tb @ [(n, fk)]\<rparr>)) s)"
| "run_operation nm (drop_constraint k t) s =
     (case k of
        None \<Rightarrow> Inl CompileError
      | Some n \<Rightarrow>
          update_table t (\<lambda>tb.
            if n \<notin> set (map fst (t_unique tb) @ map fst (t_foreign_keys tb)) then Inl UndefinedObject
            else Inr (tb\<lparr>t_unique := filter (\<lambda>(x, cs). x \<noteq> n) (t_unique tb),
                         t_foreign_keys := filter (\<lambda>(x, fk). x \<noteq> n) (t_foreign_keys tb)\<rparr>)) s)"
| "run_operation nm (alter_nullable t c null) s =
     update_table t (\<lambda>tb.
       if \<not> columns_exist tb [c] then Inl UndefinedColumn
       else if \<not> null \<and> (\<exists>r \<in> set (t_rows tb). r c = None) then Inl NotNullViolation
       else Inr (tb\<lparr>t_columns := map (\<lambda>x. if col_name x = c then x\<lparr>col_nullable := null\<rparr> else x) (t_columns tb)\<rparr>)) s"

fun run_operations :: "fk_naming \<Rightarrow> operation list \<Rightarrow> schema \<Rightarrow> migration_error + schema" where
  "run_operations nm [] s = Inr s"
| "run_operations nm (x # xs) s = (case run_operation nm x s of Inl e \<Rightarrow> Inl e | Inr s' \<Rightarrow> run_operations nm xs s')"

subsection \<open>The revisions\<close>

definition upgrade_0001 :: "operation list" where
  "upgrade_0001 =
     [create_table ''jobs''
        [column ''id'' (VARCHAR 36) False,
         column ''name'' (VARCHAR 255) False,
         column ''cron_expression'' (VARCHAR 255) False,
         column ''action_type'' (VARCHAR 32) False,
         column ''action_config'' JSONB False,
         with_default (column ''enabled'' BOOLEAN False) ''true'',
         column ''concurrency_policy'' (VARCHAR 32) False,
         with_default (column ''max_retries'' INTEGER False) ''0'',
         column ''next_fire_at'' TIMESTAMPTZ False,
         with_default (column ''created_at'' TIMESTAMPTZ False) ''now()'',
         with_default (column ''updated_at'' TIMESTAMPTZ False) ''now()'']
        [''id''] [(''uq_jobs_name'', [''name''])] [],
      create_table ''tasks''
        [column ''id'' (VARCHAR 36) False,
         column ''job_id'' (VARCHAR 36) False,
         column ''status'' (VARCHAR 32) False,
         column ''trigger_type'' (VARCHAR 32) False,
         with_default (column ''retry_count'' INTEGER False) ''0'',
         column ''locked_by'' (VARCHAR 255) True,
         column ''locked_until'' TIMESTAMPTZ True,
         column ''started_at'' TIMESTAMPTZ True,
         column ''finished_at'' TIMESTAMPTZ True,
         column ''stdout'' TEXT True,
         column ''stderr'' TEXT True,
         with_default (column ''created_at'' TIMESTAMPTZ False) ''now()'']
        [''id''] [] [references ''job_id'' ''jobs'' ''CASCADE''],
      create_index ''jobs'' (plain_index ''ix_jobs_next_fire_at'' ''next_fire_at''),
      create_index ''jobs'' (plain_index ''ix_jobs_enabled'' ''enabled''),
      create_index ''tasks'' (plain_index ''ix_tasks_job_id'' ''job_id''),
      create_index ''tasks'' (plain_index ''ix_tasks_status'' ''status''),
      create_index ''tasks'' \<lparr>ix_name = ''ix_tasks_locked_until_running'', ix_columns = [''locked_until''],
                             ix_where = Some running_only\<rparr>,
      add_column ''jobs'' (column ''job_type'' (VARCHAR 32) False),
      alter_nullable ''jobs'' ''cron_expression'' True,
      alter_nullable ''jobs'' ''next_fire_at'' True,
      create_index ''jobs'' (plain_index ''ix_jobs_job_type'' ''job_type'')]"

definition downgrade_0001 :: "operation list" where
  "downgrade_0001 =
     [drop_index ''ix_tasks_locked_until_running'',
      drop_index ''ix_tasks_status'',
      drop_index ''ix_tasks_job_id'',
      drop_index ''ix_jobs_enabled'',
      drop_index ''ix_jobs_next_fire_at'',
      drop_table ''tasks'',
      drop_table ''jobs'',
      drop_index ''ix_jobs_job_type'',
      alter_nullable ''jobs'' ''next_fire_at'' False,
      alter_nullable ''jobs'' ''cron_expression'' False,
      drop_column ''jobs'' ''job_type'']"

definition upgrade_0002 :: "operation list" where
  "upgrade_0002 = [add_column ''jobs'' (column ''runtime_spec'' JSONB True)]"

definition downgrade_0002 :: "operation list" where
  "downgrade_0002 = [drop_column ''jobs'' ''runtime_spec'']"

definition upgrade_0003 :: "operation list" where
  "upgrade_0003 =
     [add_column ''jobs'' (column ''next_job_id'' (VARCHAR 36) True),
      drop_index ''ix_jobs_enabled'',
      create_foreign_key None ''jobs'' (references ''next_job_id'' ''jobs'' ''SET NULL''),
      add_column ''tasks'' (column ''processed_for_chaining'' BOOLEAN False)]"

definition downgrade_0003 :: "operation list" where
  "downgrade_0003 =
     [drop_column ''tasks'' ''processed_for_chaining'',
      drop_constraint None ''jobs'',
      create_index ''jobs'' (plain_index ''ix_jobs_enabled'' ''enabled''),
      drop_column ''jobs'' ''next_job_id'']"

definition upgrade_0004 :: "operation list" where
  "upgrade_0004 =
     [create_table ''job_dependencies''
        [column ''upstream_job_id'' (VARCHAR 36) False, column ''downstream_job_id'' (VARCHAR 36) False]
        [''upstream_job_id'', ''downstream_job_id''] []
        [references ''downstream_job_id'' ''jobs'' ''CASCADE'', references ''upstream_job_id'' ''jobs'' ''CASCADE''],
      drop_constraint (Some ''jobs_next_job_id_fkey'') ''jobs'',
      drop_column ''jobs'' ''next_job_id'']"

definition downgrade_0004 :: "operation list" where
  "downgrade_0004 =
     [add_column ''jobs'' (column ''next_job_id'' (VARCHAR 36) True),
      create_foreign_key (Some ''jobs_next_job_id_fkey'') ''jobs'' (references ''next_job_id'' ''jobs'' ''SET NULL''),
      drop_table ''job_dependencies'']"

record revision =
  revision_id :: string
  down_revision :: "string option"
  upgrade_ops :: "operation list"
  downgrade_ops :: "operation list"

definition revisions :: "revision list" where
  "revisions =
     [\<lparr>revision_id = ''0001_initial'', down_revision = None,
       upgrade_ops = upgrade_0001, downgrade_ops = downgrade_0001\<rparr>,
      \<lparr>revision_id = ''0002_job_runtime_spec'', down_revision = Some ''0001_initial'',
       upgrade_ops = upgrade_0002, downgrade_ops = downgrade_0002\<rparr>,
      \<lparr>revision_id = ''abbdadda1485'', down_revision = Some ''0002_job_runtime_spec'',
       upgrade_ops = upgrade_0003, downgrade_ops = downgrade_0003\<rparr>,
      \<lparr>revision_id = ''447fbff8c51d'', down_revision = Some ''abbdadda1485'',
       upgrade_ops = upgrade_0004, downgrade_ops = downgrade_0004\<rparr>]"

subsection \<open>Runs\<close>

record migrated =
  version :: "string option"
  schema :: schema

text \<open>The revisions \<open>alembic upgrade head\<close> has to run; a version that no file declares is an error.\<close>

definition upgrade_path :: "string option \<Rightarrow> revision list option" where
  "upgrade_path v =
     (case v of
        None \<Rightarrow> Some revisions
      | Some r \<Rightarrow>
          (case dropWhile (\<lambda>x. revision_id x \<noteq> r) revisions of [] \<Rightarrow> None | x # xs \<Rightarrow> Some xs))"

text \<open>\<open>run_migrations_online\<close>: all revisions run inside one transaction, which an error rolls back. The advisory
  lock, held until the end of the transaction, makes concurrent runs follow one another.\<close>

definition upgrade_head :: "fk_naming \<Rightarrow> migrated \<Rightarrow> (migration_error + unit) \<times> migrated" where
  "upgrade_head nm m =
     (case upgrade_path (version m) of
        None \<Rightarrow> (Inl CommandError, m)
      | Some revs \<Rightarrow>
          (case run_operations nm (concat (map upgrade_ops revs)) (schema m) of
             Inl e \<Rightarrow> (Inl e, m)
           | Inr s \<Rightarrow> (Inr (), \<lparr>version = last (version m # map (Some \<circ> revision_id) revs), schema = s\<rparr>)))"

text \<open>\<open>alembic downgrade -k\<close>; more steps than revisions are an error of the command.\<close>

definition downgrade :: "fk_naming \<Rightarrow> nat \<Rightarrow> migrated \<Rightarrow> (migration_error + unit) \<times> migrated" where
  "downgrade nm k m =
     (let applied = rev (filter (\<lambda>x. x \<notin> set (case upgrade_path (version m) of None \<Rightarrow> revisions | Some xs \<Rightarrow> xs)) revisions) in
      if length applied < k then (Inl CommandError, m)
      else case run_operations nm (concat (map downgrade_ops (take k applied))) (schema m) of
             Inl e \<Rightarrow> (Inl e, m)
           | Inr s \<Rightarrow> (Inr (), \<lparr>version = last (version m # map down_revision (take k applied)), schema = s\<rparr>))"

subsection \<open>The tables of the models\<close>

definition jobs_table :: table where
  "jobs_table =
     \<lparr>t_columns =
        [column ''id'' (VARCHAR 36) False,
         column ''name'' (VARCHAR 255) False,
         column ''job_type'' (VARCHAR 32) False,
         column ''cron_expression'' (VARCHAR 255) True,
         column ''action_type'' (VARCHAR 32) False,
         column ''action_config'' JSONB False,
         column ''runtime_spec'' JSONB True,
         column ''enabled'' BOOLEAN False,
         column ''concurrency_policy'' (VARCHAR 32) False,
         column ''max_retries'' INTEGER False,
         column ''next_fire_at'' TIMESTAMPTZ True,
         with_default (column ''created_at'' TIMESTAMPTZ False) ''now()'',
         with_default (column ''updated_at'' TIMESTAMPTZ False) ''now()''],
      t_primary_key = [''id''], t_unique = [(''uq_jobs_name'', [''name''])], t_foreign_keys = [],
      t_indexes = [plain_index ''ix_jobs_job_type'' ''job_type'', plain_index ''ix_jobs_next_fire_at'' ''next_fire_at''],
      t_rows = []\<rparr>"

definition tasks_table :: "fk_naming \<Rightarrow> table" where
  "tasks_table nm =
     \<lparr>t_columns =
        [column ''id'' (VARCHAR 36) False,
         column ''job_id'' (VARCHAR 36) False,
         column ''status'' (VARCHAR 32) False,
         column ''trigger_type'' (VARCHAR 32) False,
         column ''retry_count'' INTEGER False,
         column ''locked_by'' (VARCHAR 255) True,
         column ''locked_until'' TIMESTAMPTZ True,
         column ''started_at'' TIMESTAMPTZ True,
         column ''finished_at'' TIMESTAMPTZ True,
         column ''stdout'' TEXT True,
         column ''stderr'' TEXT True,
         with_default (column ''created_at'' TIMESTAMPTZ False) ''now()'',
         column ''processed_for_chaining'' BOOLEAN False],
      t_primary_key = [''id''], t_unique = [],
      t_foreign_keys = [(nm ''tasks'' [''job_id''], references ''job_id'' ''jobs'' ''CASCADE'')],
      t_indexes = [plain_index ''ix_tasks_job_id'' ''job_id'', plain_index ''ix_tasks_status'' ''status'',
                   \<lparr>ix_name = ''ix_tasks_locked_until_running'', ix_columns = [''locked_until''],
                    ix_where = Some running_only\<rparr>],
      t_rows = []\<rparr>"

definition job_dependencies_table :: "fk_naming \<Rightarrow> table" where
  "job_dependencies_table nm =
     \<lparr>t_columns = [column ''upstream_job_id'' (VARCHAR 36) False, column ''downstream_job_id'' (VARCHAR 36) False],
      t_primary_key = [''upstream_job_id'', ''downstream_job_id''], t_unique = [],
      t_foreign_keys =
        [(nm ''job_dependencies'' [''upstream_job_id''], references ''upstream_job_id'' ''jobs'' ''CASCADE''),
         (nm ''job_dependencies'' [''downstream_job_id''], references ''downstream_job_id'' ''jobs'' ''CASCADE'')],
      t_indexes = [], t_rows = []\<rparr>"

definition metadata :: "fk_naming \<Rightarrow> schema" where
  "metadata nm = [(''job_dependencies'', job_dependencies_table nm), (''jobs'', jobs_table), (''tasks'', tasks_table nm)]"

subsection \<open>Comparing schemas\<close>

text \<open>Tables agree up to the order of their parts, with the columns compared by a function; defaults the
  models leave to Python are defaults of the server in the migrations, so \<open>typed\<close> ignores them.\<close>

definition typed :: "column \<Rightarrow> string \<times> sql_type \<times> bool" where
  "typed c = (col_name c, col_type c, col_nullable c)"

definition same_table :: "table \<Rightarrow> table \<Rightarrow> bool" where
  "same_table a b \<longleftrightarrow>
     typed ` set (t_columns a) = typed ` set (t_columns b) \<and>
     t_primary_key a = t_primary_key b \<and> set (t_unique a) = set (t_unique b) \<and>
     set (t_foreign_keys a) = set (t_foreign_keys b) \<and> set (t_indexes a) = set (t_indexes b)"

definition same_schema :: "schema \<Rightarrow> schema \<Rightarrow> bool" where
  "same_schema s s' \<longleftrightarrow>
     fst ` set s = fst ` set s' \<and>
     list_all (\<lambda>(n, a). case map_of s' n of None \<Rightarrow> False | Some b \<Rightarrow> same_table a b) s"

lemmas table_defs = column_def with_default_def references_def plain_index_def update_table_def columns_exist_def
  index_names_def column_referenced_def fk_satisfied_def

text \<open>The schema of the second revision, with rows in its tables.\<close>

definition schema_0002 :: "fk_naming \<Rightarrow> table_row list \<Rightarrow> table_row list \<Rightarrow> schema" where
  "schema_0002 nm js ts =
     (case run_operations nm (upgrade_0001 @ upgrade_0002) [] of
        Inl e \<Rightarrow> []
      | Inr s \<Rightarrow> map (\<lambda>(n, tb). (n, tb\<lparr>t_rows := if n = ''jobs'' then js else ts\<rparr>)) s)"

lemmas revision_defs = upgrade_0001_def upgrade_0002_def upgrade_0003_def upgrade_0004_def

lemma run_operations_append:
  "run_operations nm (xs @ ys) s = (case run_operations nm xs s of Inl e \<Rightarrow> Inl e | Inr s' \<Rightarrow> run_operations nm ys s')"
  by (induction xs arbitrary: s) (simp_all split: sum.splits)

lemma upgrade_path_simps:
  "upgrade_path None = Some revisions"
  "map upgrade_ops revisions = [upgrade_0001, upgrade_0002, upgrade_0003, upgrade_0004]"
  "\<exists>xs. upgrade_path (Some ''0002_job_runtime_spec'') = Some xs \<and> map upgrade_ops xs = [upgrade_0003, upgrade_0004] \<and>
     map revision_id xs = [''abbdadda1485'', ''447fbff8c51d'']"
  by (simp_all add: upgrade_path_def revisions_def)

lemma schema_0002_eq:
  "run_operations nm (upgrade_0001 @ upgrade_0002) [] = Inr (schema_0002 nm [] [])"
  by (simp add: schema_0002_def upgrade_0001_def upgrade_0002_def table_defs)

text \<open>The schema of the last revision, with rows for the jobs.\<close>

definition head_job_columns :: "column list" where
  "head_job_columns =
     [column ''id'' (VARCHAR 36) False,
      column ''name'' (VARCHAR 255) False,
      column ''cron_expression'' (VARCHAR 255) True,
      column ''action_type'' (VARCHAR 32) False,
      column ''action_config'' JSONB False,
      with_default (column ''enabled'' BOOLEAN False) ''true'',
      column ''concurrency_policy'' (VARCHAR 32) False,
      with_default (column ''max_retries'' INTEGER False) ''0'',
      column ''next_fire_at'' TIMESTAMPTZ True,
      with_default (column ''created_at'' TIMESTAMPTZ False) ''now()'',
      with_default (column ''updated_at'' TIMESTAMPTZ False) ''now()'',
      column ''job_type'' (VARCHAR 32) False,
      column ''runtime_spec'' JSONB True]"

definition schema_head :: "fk_naming \<Rightarrow> table_row list \<Rightarrow> schema" where
  "schema_head nm js =
     [(''jobs'',
       \<lparr>t_columns = head_job_columns,
        t_primary_key = [''id''], t_unique = [(''uq_jobs_name'', [''name''])], t_foreign_keys = [],
        t_indexes = [plain_index ''ix_jobs_next_fire_at'' ''next_fire_at'', plain_index ''ix_jobs_job_type'' ''job_type''],
        t_rows = map (\<lambda>r. r(''next_job_id'' := None)) js\<rparr>),
      (''tasks'', (tasks_table nm)\<lparr>t_columns := map (\<lambda>c. if col_name c = ''retry_count'' then with_default c ''0'' else c)
                                              (t_columns (tasks_table nm))\<rparr>),
      (''job_dependencies'', (job_dependencies_table nm)\<lparr>t_foreign_keys := rev (t_foreign_keys (job_dependencies_table nm))\<rparr>)]"

lemma to_head_without_tasks:
  assumes "nm ''jobs'' [''next_job_id''] = ''jobs_next_job_id_fkey''"
  shows "run_operations nm (upgrade_0003 @ upgrade_0004) (schema_0002 nm js []) = Inr (schema_head nm js)"
  using assms
  by (simp add: schema_0002_def schema_head_def head_job_columns_def tasks_table_def job_dependencies_table_def revision_defs table_defs)

lemma jobs_columns_same: "typed ` set head_job_columns = typed ` set (t_columns jobs_table)"
  by code_simp

lemma tasks_columns_same:
  "typed ` set (map (\<lambda>c. if col_name c = ''retry_count'' then with_default c ''0'' else c) cs) = typed ` set cs"
proof -
  have eq: "typed (if col_name c = ''retry_count'' then with_default c ''0'' else c) = typed c" for c
    by (simp add: typed_def with_default_def)
  show ?thesis by (simp only: set_map image_image eq)
qed

lemma schema_head_same: "same_schema (schema_head nm js) (metadata nm)"
proof -
  have "same_table (snd (schema_head nm js ! 0)) jobs_table"
    using jobs_columns_same by (simp add: same_table_def schema_head_def) (simp add: jobs_table_def insert_commute)
  moreover have "same_table (snd (schema_head nm js ! 1)) (tasks_table nm)"
    by (simp add: same_table_def schema_head_def tasks_columns_same del: set_map)
  moreover have "same_table (snd (schema_head nm js ! 2)) (job_dependencies_table nm)"
    by (simp add: same_table_def schema_head_def)
  ultimately show ?thesis
    by (simp add: same_schema_def schema_head_def metadata_def) (simp add: insert_commute)
qed

lemma to_head_with_tasks:
  assumes "ts \<noteq> []"
  shows "run_operations nm (upgrade_0003 @ upgrade_0004) (schema_0002 nm js ts) = Inl NotNullViolation"
  using assms by (simp add: schema_0002_def revision_defs table_defs)

subsection \<open>Properties\<close>

text \<open>(C34) Migrating an empty database reaches the last revision and gives the schema the models declare: the
  same tables, columns with their types and nullability, keys, foreign keys and indexes.\<close>

theorem upgrade_reaches_models:
  assumes "nm ''jobs'' [''next_job_id''] = ''jobs_next_job_id_fkey''"
  shows "\<exists>s. upgrade_head nm \<lparr>version = None, schema = []\<rparr> = (Inr (), \<lparr>version = Some ''447fbff8c51d'', schema = s\<rparr>) \<and>
    same_schema s (metadata nm)"
proof -
  have "run_operations nm (concat (map upgrade_ops revisions)) [] = Inr (schema_head nm [])"
    using run_operations_append [of nm "upgrade_0001 @ upgrade_0002" "upgrade_0003 @ upgrade_0004" "[]"]
      to_head_without_tasks [where nm = nm and js = "[]", OF assms]
    by (simp add: upgrade_path_simps schema_0002_eq)
  moreover have "last (None # map (Some \<circ> revision_id) revisions) = Some ''447fbff8c51d''" by (simp add: revisions_def)
  ultimately show ?thesis using schema_head_same by (simp add: upgrade_head_def upgrade_path_simps)
qed

text \<open>PostgreSQL's own naming.\<close>

definition server_naming :: fk_naming where
  "server_naming t cs = t @ ''_'' @ concat (map (\<lambda>c. c @ ''_'') cs) @ ''fkey''"

theorem upgrade_reaches_models_witness:
  "fst (upgrade_head server_naming \<lparr>version = None, schema = []\<rparr>) = Inr ()"
proof -
  have "server_naming ''jobs'' [''next_job_id''] = ''jobs_next_job_id_fkey''" by (simp add: server_naming_def)
  from upgrade_reaches_models [where nm = server_naming, OF this] show ?thesis by auto
qed

text \<open>(C32) Migrating a deployment of the second revision: without tasks it reaches the schema of the models and
  keeps every job, and with any task at all it fails on the new column of the tasks and changes nothing.\<close>

theorem upgrade_with_data:
  assumes "nm ''jobs'' [''next_job_id''] = ''jobs_next_job_id_fkey''"
    and m: "m = \<lparr>version = Some ''0002_job_runtime_spec'', schema = schema_0002 nm js ts\<rparr>"
  shows "if ts = []
    then \<exists>s. upgrade_head nm m = (Inr (), \<lparr>version = Some ''447fbff8c51d'', schema = s\<rparr>) \<and> same_schema s (metadata nm) \<and>
      map_option t_rows (map_of s ''jobs'') = Some (map (\<lambda>r. r(''next_job_id'' := None)) js)
    else upgrade_head nm m = (Inl NotNullViolation, m)"
proof -
  obtain xs where xs: "upgrade_path (Some ''0002_job_runtime_spec'') = Some xs" "map upgrade_ops xs = [upgrade_0003, upgrade_0004]"
    "map revision_id xs = [''abbdadda1485'', ''447fbff8c51d'']" by (rule exE [OF upgrade_path_simps(3)]) (elim conjE)
  have head: "last (Some ''0002_job_runtime_spec'' # map (Some \<circ> revision_id) xs) = Some ''447fbff8c51d''"
  proof -
    have "map (Some \<circ> revision_id) xs = map Some (map revision_id xs)" by simp
    then show ?thesis unfolding xs(3) by simp
  qed
  have ops: "concat (map upgrade_ops xs) = upgrade_0003 @ upgrade_0004" by (simp add: xs(2))
  have run: "upgrade_head nm m = (case run_operations nm (upgrade_0003 @ upgrade_0004) (schema_0002 nm js ts) of
      Inl e \<Rightarrow> (Inl e, m) | Inr s \<Rightarrow> (Inr (), \<lparr>version = Some ''447fbff8c51d'', schema = s\<rparr>))"
    by (simp only: m upgrade_head_def migrated.select_convs xs(1) option.case ops head)
  show ?thesis
  proof (cases "ts = []")
    case True
    then have "upgrade_head nm m = (Inr (), \<lparr>version = Some ''447fbff8c51d'', schema = schema_head nm js\<rparr>)"
      using run to_head_without_tasks [where nm = nm and js = js, OF assms(1)] by simp
    moreover have "map_option t_rows (map_of (schema_head nm js) ''jobs'') = Some (map (\<lambda>r. r(''next_job_id'' := None)) js)"
      by (simp add: schema_head_def)
    ultimately show ?thesis using schema_head_same True by simp
  next
    case False
    then show ?thesis using run to_head_with_tasks [where nm = nm and js = js, OF False] by simp
  qed
qed

definition old_job :: table_row where
  "old_job = [''id'' \<mapsto> ''a'', ''name'' \<mapsto> ''nightly'']"

theorem upgrade_with_data_witness:
  "upgrade_head server_naming \<lparr>version = Some ''0002_job_runtime_spec'', schema = schema_0002 server_naming [old_job] [old_job]\<rparr> =
     (Inl NotNullViolation, \<lparr>version = Some ''0002_job_runtime_spec'', schema = schema_0002 server_naming [old_job] [old_job]\<rparr>)"
proof -
  have "server_naming ''jobs'' [''next_job_id''] = ''jobs_next_job_id_fkey''" by (simp add: server_naming_def)
  from upgrade_with_data [where nm = server_naming and js = "[old_job]" and ts = "[old_job]", OF this refl] show ?thesis by simp
qed

text \<open>However many processes start at once, the first run that succeeds is the only one with an effect: the
  runs follow one another on the lock, and a run at the last revision changes nothing.\<close>

lemma upgrade_path_last:
  "upgrade_path v = Some xs \<Longrightarrow> upgrade_path (last (v # map (Some \<circ> revision_id) xs)) = Some []"
proof (cases v)
  case (Some r)
  assume path: "upgrade_path v = Some xs"
  have "r \<in> revision_id ` set revisions"
  proof (rule ccontr)
    assume "r \<notin> revision_id ` set revisions"
    then have "dropWhile (\<lambda>x. revision_id x \<noteq> r) revisions = []" by (auto simp: dropWhile_eq_Nil_conv)
    with path Some show False by (simp add: upgrade_path_def)
  qed
  then consider "r = ''0001_initial''" | "r = ''0002_job_runtime_spec''" | "r = ''abbdadda1485''" | "r = ''447fbff8c51d''"
    by (auto simp: revisions_def)
  then show ?thesis using path Some by cases (auto simp: upgrade_path_def revisions_def)
qed (auto simp: upgrade_path_def revisions_def)

lemma upgrade_once:
  assumes "upgrade_head nm m = (Inr (), m')"
  shows "((snd \<circ> upgrade_head nm) ^^ Suc k) m = m'"
proof -
  obtain xs s where u: "upgrade_path (version m) = Some xs"
    "m' = \<lparr>version = last (version m # map (Some \<circ> revision_id) xs), schema = s\<rparr>"
    using assms by (auto simp: upgrade_head_def split: option.splits sum.splits)
  have "upgrade_head nm m' = (Inr (), m')"
    using upgrade_path_last [OF u(1)] by (simp add: upgrade_head_def u(2))
  then have "((snd \<circ> upgrade_head nm) ^^ k) m' = m'" by (induction k) simp_all
  with assms show ?thesis by (simp add: funpow_swap1)
qed

text \<open>Of the ways back only the last revision can be left: the downgrade of the third names no constraint to
  drop, and that of the first drops the table before its index.\<close>

definition at_head :: migrated where
  "at_head = snd (upgrade_head server_naming \<lparr>version = None, schema = []\<rparr>)"

definition at_0001 :: migrated where
  "at_0001 =
     \<lparr>version = Some ''0001_initial'',
      schema = (case run_operations server_naming upgrade_0001 [] of Inl e \<Rightarrow> [] | Inr s \<Rightarrow> s)\<rparr>"

lemma downgrades_fail:
  "fst (downgrade server_naming 1 at_head) = Inr ()"
  "fst (downgrade server_naming 2 at_head) = Inl CompileError"
  "fst (downgrade server_naming 1 at_0001) = Inl UndefinedObject"
  by code_simp+

end
