(* ===== verification/System.thy ===== *)
theory System
  imports Api Scheduler_Process
begin

text \<open>
  The processes together. One world is shared by the API, the workers and any number of scheduler
  replicas; \<open>system_step\<close> interleaves their operations and \<open>system_inv\<close> is what every step keeps.
\<close>

section \<open>The system\<close>

text \<open>The shared world and the state of every scheduler replica.\<close>

record 'q system =
  world :: "'q world"
  schedulers :: "nat \<Rightarrow> scheduler"

definition initial_system :: "'q world \<Rightarrow> 'q system" where
  "initial_system w = \<lparr>world = w, schedulers = (\<lambda>i. new_scheduler)\<rparr>"

text \<open>The processes interleave: each rule is one operation of one of them, with the guard its caller
  establishes. First the steps of the API and of the schedulers.\<close>

inductive service_step ::
    "settings \<Rightarrow> croniter \<Rightarrow> (json \<Rightarrow> int option) \<Rightarrow> 'q queue_client \<Rightarrow> 'q system \<Rightarrow> 'q system \<Rightarrow> bool"
  for cfg cr lax_int qc
where
acts_create: "JobCreate_valid lax_int p \<Longrightarrow> create_job cfg cr qc p (world S) = (r, w') \<Longrightarrow>
    service_step cfg cr lax_int qc S (S\<lparr>world := w'\<rparr>)"
| acts_update: "JobUpdate_valid p \<Longrightarrow> update_job cfg cr lax_int qc i p (world S) = (r, w') \<Longrightarrow>
    service_step cfg cr lax_int qc S (S\<lparr>world := w'\<rparr>)"
| acts_delete: "delete_job i (world S) = (r, w') \<Longrightarrow> service_step cfg cr lax_int qc S (S\<lparr>world := w'\<rparr>)"
| acts_trigger: "trigger_job qc i (world S) = (r, w') \<Longrightarrow> service_step cfg cr lax_int qc S (S\<lparr>world := w'\<rparr>)"
| acts_retry: "retry_task qc t (world S) = (r, w') \<Longrightarrow> service_step cfg cr lax_int qc S (S\<lparr>world := w'\<rparr>)"
| acts_sync: "sync_jobs (schedulers S i) (world S) = (s', w') \<Longrightarrow>
    service_step cfg cr lax_int qc S (S\<lparr>world := w', schedulers := (schedulers S)(i := s')\<rparr>)"
| acts_recover: "recover_orphans (world S) = (r, w') \<Longrightarrow> service_step cfg cr lax_int qc S (S\<lparr>world := w'\<rparr>)"
| acts_pop: "heap (schedulers S i) \<noteq> [] \<Longrightarrow>
    service_step cfg cr lax_int qc S (S\<lparr>schedulers := (schedulers S)(i := popped (schedulers S i))\<rparr>)"
| acts_fire: "job_cache (schedulers S i) k = Some job \<Longrightarrow>
    dispatch_job cr qc job now (world S) = (Inr (n, job'), w') \<Longrightarrow>
    service_step cfg cr lax_int qc S
      (S\<lparr>world := w', schedulers := (schedulers S)(i := rescheduled k job' (schedulers S i))\<rparr>)"
| acts_misfire: "job_cache (schedulers S i) k = Some job \<Longrightarrow>
    dispatch_job cr qc job now (world S) = (Inl e, w') \<Longrightarrow> service_step cfg cr lax_int qc S (S\<lparr>world := w'\<rparr>)"
| acts_mark: "mark_processed_for_chaining t (db (world S)) = Inr d \<Longrightarrow>
    service_step cfg cr lax_int qc S (S\<lparr>world := (world S)\<lparr>db := d\<rparr>\<rparr>)"
| acts_chain: "dispatch_if_ready qc latest ups j (world S) = (r, w') \<Longrightarrow>
    service_step cfg cr lax_int qc S (S\<lparr>world := w'\<rparr>)"
| acts_restart: "service_step cfg cr lax_int qc S (S\<lparr>schedulers := (schedulers S)(i := new_scheduler)\<rparr>)"
| acts_tick: "utcnow (world S) = (now, w') \<Longrightarrow> service_step cfg cr lax_int qc S (S\<lparr>world := w'\<rparr>)"

text \<open>A worker claims a task, beats while it runs and records its outcome in separate steps, so anything can happen
  in between, a claim that expired included. Any task may be recorded by any worker: what a handler really
  does is \<open>Handler_Protocol\<close>.\<close>

inductive process_step ::
    "settings \<Rightarrow> croniter \<Rightarrow> (json \<Rightarrow> int option) \<Rightarrow> 'q queue_client \<Rightarrow> 'q system \<Rightarrow> 'q system \<Rightarrow> bool"
  for cfg cr lax_int qc
where
  service_acts: "service_step cfg cr lax_int qc S S' \<Longrightarrow> process_step cfg cr lax_int qc S S'"
| acts_claim: "claim_task wk t (world S) = (r, w') \<Longrightarrow> process_step cfg cr lax_int qc S (S\<lparr>world := w'\<rparr>)"
| acts_beat: "process_step cfg cr lax_int qc S (S\<lparr>world := heartbeat_beat wk t (world S)\<rparr>)"
| acts_record: "0 \<le> retry_count t \<Longrightarrow> record_result qc t j res (world S) = (r, w') \<Longrightarrow>
    process_step cfg cr lax_int qc S (S\<lparr>world := w'\<rparr>)"
| acts_abandon: "utcnow (world S) = (now, w1) \<Longrightarrow>
    mark_failed t (Some []) (Some ''Job not found'') True now (db (world S)) = Inr d \<Longrightarrow>
    process_step cfg cr lax_int qc S (S\<lparr>world := w1\<lparr>db := d\<rparr>\<rparr>)"

text \<open>A step of the system is one of a process, or whatever the queue service does with a queue.\<close>

inductive system_step ::
    "settings \<Rightarrow> croniter \<Rightarrow> (json \<Rightarrow> int option) \<Rightarrow> 'q queue_client \<Rightarrow> 'q system \<Rightarrow> 'q system \<Rightarrow> bool"
  for cfg cr lax_int qc
where
  processes_act: "process_step cfg cr lax_int qc S S' \<Longrightarrow> system_step cfg cr lax_int qc S S'"
| messages_move: "system_step cfg cr lax_int qc S (S\<lparr>world := set_pool_queue p q (world S)\<rparr>)"

lemmas api_creates = processes_act [OF service_acts [OF acts_create]]
lemmas api_updates = processes_act [OF service_acts [OF acts_update]]
lemmas api_deletes = processes_act [OF service_acts [OF acts_delete]]
lemmas api_triggers = processes_act [OF service_acts [OF acts_trigger]]
lemmas api_retries = processes_act [OF service_acts [OF acts_retry]]
lemmas worker_claims = processes_act [OF acts_claim]
lemmas worker_beats = processes_act [OF acts_beat]
lemmas worker_records = processes_act [OF acts_record]
lemmas worker_abandons = processes_act [OF acts_abandon]
lemmas scheduler_syncs = processes_act [OF service_acts [OF acts_sync]]
lemmas scheduler_recovers = processes_act [OF service_acts [OF acts_recover]]
lemmas scheduler_pops = processes_act [OF service_acts [OF acts_pop]]
lemmas scheduler_fires = processes_act [OF service_acts [OF acts_fire]]
lemmas scheduler_misfires = processes_act [OF service_acts [OF acts_misfire]]
lemmas scheduler_marks = processes_act [OF service_acts [OF acts_mark]]
lemmas scheduler_triggers = processes_act [OF service_acts [OF acts_chain]]
lemmas scheduler_restarts = processes_act [OF service_acts [OF acts_restart]]
lemmas clock_ticks = processes_act [OF service_acts [OF acts_tick]]

inductive system_reachable ::
    "settings \<Rightarrow> croniter \<Rightarrow> (json \<Rightarrow> int option) \<Rightarrow> 'q queue_client \<Rightarrow> 'q world \<Rightarrow> 'q system \<Rightarrow> bool"
  for cfg cr lax_int qc w0
where
  system_start: "system_reachable cfg cr lax_int qc w0 (initial_system w0)"
| system_next: "system_reachable cfg cr lax_int qc w0 S \<Longrightarrow> system_step cfg cr lax_int qc S S' \<Longrightarrow>
    system_reachable cfg cr lax_int qc w0 S'"

subsection \<open>The invariant\<close>

definition system_inv :: "settings \<Rightarrow> 'q system \<Rightarrow> bool" where
  "system_inv cfg S \<longleftrightarrow>
     store_inv cfg (world S) \<and>
     (\<forall>i. cache_ok cfg (schedulers S i) (world S) \<and> heap_inv (heap (schedulers S i)))"

text \<open>How a step may change the tasks table.\<close>

definition tasks_change :: "database \<Rightarrow> database \<Rightarrow> bool" where
  "tasks_change d d' \<longleftrightarrow>
     tasks_step d d' \<or> (\<exists>i. i \<notin> job_ids d' \<and> tasks d' = filter (\<lambda>t. task_job_id t \<noteq> i) (tasks d))"

lemma delete_job_change:
  assumes "delete_job i w = (r, w')"
  shows "tasks_change (db w) (db w') \<and> sent_new qc w w'"
proof (cases "job_get i (db w)")
  case None
  with assms show ?thesis by (auto simp: delete_job_def tasks_change_def tasks_step_same)
next
  case (Some j)
  with assms have "w' = w\<lparr>db := job_delete (jid j) (db w)\<rparr>" by (simp add: delete_job_def)
  then have "jid j \<notin> job_ids (db w')" "tasks (db w') = filter (\<lambda>t. task_job_id t \<noteq> jid j) (tasks (db w))"
    and "sent_new qc w w'"
    by (auto simp: job_delete_def job_ids_def draws_def task_ids_def intro!: sent_new_same)
  then show ?thesis unfolding tasks_change_def by blast
qed

lemma set_pool_queue_frame [simp]: "db (set_pool_queue p q w) = db w" "draws w (set_pool_queue p q w)"
  by (simp_all add: set_pool_queue_def draws_def split: queue_path.splits)

lemma store_inv_queue: "store_inv cfg w \<Longrightarrow> store_inv cfg (set_pool_queue p q w)"
  by (auto simp: set_pool_queue_def store_inv_def uuids_fresh_def split: queue_path.splits)

lemma system_inv_world:
  assumes "system_inv cfg S" "store_inv cfg w'" "draws (world S) w'"
  shows "system_inv cfg (S\<lparr>world := w'\<rparr>)"
  using assms by (auto simp: system_inv_def intro: cache_ok_draws)

lemma system_inv_scheduler:
  assumes "system_inv cfg S" "store_inv cfg w'" "draws (world S) w'" "cache_ok cfg s' w'" "heap_inv (heap s')"
  shows "system_inv cfg (S\<lparr>world := w', schedulers := (schedulers S)(i := s')\<rparr>)"
  using assms by (auto simp: system_inv_def intro: cache_ok_draws)

lemma popped_cache [simp]: "job_cache (popped s) = job_cache s"
  by (simp add: popped_def)

lemma rescheduled_cache: "job_cache (rescheduled k j s) = (job_cache s)(k := Some j)"
  by (simp add: rescheduled_def Let_def split: option.splits)

lemma rescheduled_heap_inv: "heap_inv (heap s) \<Longrightarrow> heap_inv (heap (rescheduled k j s))"
  by (simp add: rescheduled_def Let_def heappush_heap split: option.splits)

lemma rescheduled_cache_ok:
  assumes "cache_ok cfg s w" "jid j = k" "job_ok j" "job_type j = scheduled" "spec_derived cfg j" "id_used w k"
  shows "cache_ok cfg (rescheduled k j s) w"
  using assms by (auto simp: cache_ok_def rescheduled_cache)

lemma cached_job:
  assumes "system_inv cfg S" "job_cache (schedulers S i) k = Some job"
  shows "jid job = k" "job_ok job" "job_type job = scheduled" "spec_derived cfg job" "id_used (world S) (jid job)"
  using assms by (auto simp: system_inv_def cache_ok_def)

lemma mark_processed_store:
  assumes inv: "store_inv cfg w" and m: "mark_processed_for_chaining t (db w) = Inr d"
  shows "store_inv cfg (w\<lparr>db := d\<rparr>)"
proof (rule store_inv_tasks [OF inv quiet_refl])
  have tw: "task_write t (\<lambda>r. r\<lparr>processed_for_chaining := True\<rparr>) (db w) = Inr d"
    using m by (simp add: mark_processed_for_chaining_def)
  show "db_wf (db (w\<lparr>db := d\<rparr>))" using inv mark_processed_wf [OF _ m] by (simp add: store_inv_def)
  show "jobs (db (w\<lparr>db := d\<rparr>)) = jobs (db w)" "job_dependencies (db (w\<lparr>db := d\<rparr>)) = job_dependencies (db w)"
    "task_ids (db (w\<lparr>db := d\<rparr>)) = task_ids (db w)" using task_write_frame [OF tw] by simp_all
qed simp_all

text \<open>What a step of a process does to the rest: the invariant, the tasks table, and the queues.\<close>

definition sound_step :: "settings \<Rightarrow> 'q queue_client \<Rightarrow> 'q system \<Rightarrow> 'q system \<Rightarrow> bool" where
  "sound_step cfg qc S S' \<longleftrightarrow>
     system_inv cfg S' \<and> tasks_change (db (world S)) (db (world S')) \<and> sent_new qc (world S) (world S')"

lemma sound_world:
  assumes "system_inv cfg S" "store_inv cfg w'" "tasks_step (db (world S)) (db w') \<and> sent_new qc (world S) w'"
  shows "sound_step cfg qc S (S\<lparr>world := w'\<rparr>)"
  using assms system_inv_world [OF assms(1,2)] by (simp add: sound_step_def tasks_change_def sent_new_def)

lemma service_step_sound:
  assumes adv: "croniter_advances cr" and step: "service_step cfg cr lax_int qc S S'" and inv: "system_inv cfg S"
  shows "sound_step cfg qc S S'"
proof -
  have st: "store_inv cfg (world S)" using inv by (simp add: system_inv_def)
  have added: "sound_step cfg qc S S'"
    if "S' = S\<lparr>world := w'\<rparr>" "store_inv cfg w'" "adds qc (world S) w'" for w'
    unfolding that(1) by (rule sound_world [OF inv that(2)]) (use adds_step [OF that(3)] that(3) in \<open>simp add: adds_def\<close>)
  show ?thesis
    using step
  proof cases
    case (acts_create p r w')
    then show ?thesis using create_job_store [OF st _ acts_create(3)] create_job_adds [OF acts_create(3)]
      by (intro added) (auto simp: JobCreate_valid_def)
  next
    case (acts_update p i r w')
    then show ?thesis using update_job_store [OF st acts_update(2,3)] update_job_adds [OF acts_update(3)] by (intro added)
  next
    case (acts_delete i r w')
    then show ?thesis
      using system_inv_world [OF inv delete_job_store [OF st acts_delete(2)]] delete_job_change [OF acts_delete(2), of qc]
      by (simp add: sound_step_def sent_new_def)
  next
    case (acts_trigger i r w')
    then show ?thesis using trigger_job_store [OF st acts_trigger(2)] trigger_job_adds [OF acts_trigger(2)] by (intro added)
  next
    case (acts_retry t r w')
    then show ?thesis using retry_task_store [OF st acts_retry(2)] retry_task_adds [OF acts_retry(2)] by (intro added)
  next
    case (acts_sync i s' w')
    have q: "quiet (world S) w'" "heap_inv (heap s')" using sync_jobs_frame [OF acts_sync(2)] inv by (auto simp: system_inv_def)
    have "cache_ok cfg s' w'" using sync_cache_ok [OF st _ acts_sync(2)] inv by (simp add: system_inv_def)
    then show ?thesis
      using system_inv_scheduler [OF inv store_inv_quiet [OF q(1) st] quiet_draws [OF q(1)] _ q(2)] acts_sync(1) quietD [OF q(1)]
      by (simp add: sound_step_def tasks_change_def tasks_step_same sent_new_quiet [OF q(1)])
  next
    case (acts_recover r w')
    note R = recover_orphans_run [OF st acts_recover(2)]
    show ?thesis
      unfolding acts_recover(1) by (rule sound_world [OF inv]) (use R recover_orphans_moves [OF st acts_recover(2)] in simp_all)
  next
    case (acts_pop i)
    then show ?thesis using inv popped_mset
      by (auto simp: sound_step_def system_inv_def tasks_change_def tasks_step_same intro: cache_ok_mono)
  next
    case (acts_fire i k job now n job' w')
    note J = cached_job [OF inv acts_fire(2)]
    note D = dispatch_job_store [OF st J(2-5) acts_fire(3)]
    have a: "adds qc (world S) w'" by (rule dispatch_job_adds [OF acts_fire(3)])
    have "cache_ok cfg (rescheduled k job' (schedulers S i)) w'"
      by (rule rescheduled_cache_ok) (use D J inv in \<open>auto simp: system_inv_def id_used_def intro: cache_ok_mono\<close>)
    then show ?thesis
      using system_inv_scheduler [OF inv] D a adds_step [OF a] rescheduled_heap_inv inv acts_fire(1)
      by (simp add: sound_step_def adds_def sent_new_def tasks_change_def system_inv_def)
  next
    case (acts_misfire i k job now e w')
    note D = dispatch_job_store [OF st cached_job(2-5) [OF inv acts_misfire(2)] acts_misfire(3)]
    then show ?thesis using acts_misfire(1) dispatch_job_adds [OF acts_misfire(3)] by (intro added) auto
  next
    case (acts_mark t d)
    then have tw: "task_write t (\<lambda>r. r\<lparr>processed_for_chaining := True\<rparr>) (db (world S)) = Inr d"
      by (simp add: mark_processed_for_chaining_def)
    then have "tasks_step (db (world S)) d" by (rule tasks_step_write) (simp add: task_moves_def legal_status_def)
    moreover have "sent_new qc (world S) ((world S)\<lparr>db := d\<rparr>)"
      by (rule sent_new_stored [OF quiet_refl]) (use task_write_frame [OF tw] in simp)
    ultimately show ?thesis unfolding acts_mark(1) by (intro sound_world [OF inv mark_processed_store [OF st acts_mark(2)]]) simp
  next
    case (acts_chain latest ups j r w')
    then show ?thesis
      using dispatch_if_ready_store [OF st acts_chain(2)] dispatch_if_ready_adds [OF acts_chain(2)] by (intro added) auto
  next
    case (acts_restart i)
    then show ?thesis using inv
      by (auto simp: sound_step_def system_inv_def new_scheduler_def cache_ok_def heap_inv_def tasks_change_def tasks_step_same)
  next
    case (acts_tick now w')
    note q = quiet_utcnow [OF acts_tick(2)]
    show ?thesis
      unfolding acts_tick(1) by (rule sound_world [OF inv store_inv_quiet [OF q st]]) (simp add: quietD [OF q] tasks_step_same sent_new_quiet [OF q])
  qed
qed

lemma mark_failed_sound:
  assumes st: "store_inv cfg w" and q: "quiet w w1" and m: "mark_failed t out err final now (db w) = Inr d"
  shows "store_inv cfg (w1\<lparr>db := d\<rparr>) \<and> tasks_step (db w) d \<and> sent_new qc w (w1\<lparr>db := d\<rparr>)"
proof -
  have fin: "finish_task t (if final then final_failed else failed) out err now (db w) = Inr d"
    using m by (simp add: mark_failed_def)
  have over: "terminal (if final then final_failed else failed)" by (simp add: terminal_def)
  have "store_inv cfg (w1\<lparr>db := d\<rparr>)"
    by (rule finish_task_store [OF st q _ over]) (use fin in simp_all)
  then show ?thesis using tasks_step_finish [OF fin over] sent_new_finish [OF q fin] by simp
qed

lemma process_step_sound:
  assumes adv: "croniter_advances cr" and step: "process_step cfg cr lax_int qc S S'" and inv: "system_inv cfg S"
  shows "sound_step cfg qc S S'"
proof -
  have st: "store_inv cfg (world S)" using inv by (simp add: system_inv_def)
  show ?thesis
    using step
  proof cases
    case service_acts
    then show ?thesis using service_step_sound [OF adv _ inv] by blast
  next
    case (acts_claim wk t r w')
    show ?thesis unfolding acts_claim(1) by (rule sound_world [OF inv claim_task_store [OF st acts_claim(2)] claim_task_moves [OF st acts_claim(2)]])
  next
    case (acts_beat wk t)
    show ?thesis unfolding acts_beat by (rule sound_world [OF inv heartbeat_store [OF st] heartbeat_moves])
  next
    case (acts_record t j res r w')
    show ?thesis
      unfolding acts_record(1) by (rule sound_world [OF inv record_result_store [OF st acts_record(2,3)] record_result_moves [OF acts_record(3)]])
  next
    case (acts_abandon now w1 t d)
    show ?thesis
      unfolding acts_abandon(1)
      using mark_failed_sound [OF st quiet_utcnow [OF acts_abandon(2)] acts_abandon(3)] by (intro sound_world [OF inv]) simp_all
  qed
qed

lemma process_step_inv:
  assumes "croniter_advances cr" "process_step cfg cr lax_int qc S S'" "system_inv cfg S"
  shows "system_inv cfg S' \<and> tasks_change (db (world S)) (db (world S'))"
  using process_step_sound [OF assms] by (simp add: sound_step_def)

lemma system_step_inv:
  assumes adv: "croniter_advances cr" and step: "system_step cfg cr lax_int qc S S'" and inv: "system_inv cfg S"
  shows "system_inv cfg S' \<and> tasks_change (db (world S)) (db (world S'))"
  using step
proof cases
  case processes_act
  then show ?thesis using process_step_inv [OF adv _ inv] by blast
next
  case (messages_move p q)
  have "store_inv cfg (set_pool_queue p q (world S))" by (rule store_inv_queue) (use inv in \<open>simp add: system_inv_def\<close>)
  from system_inv_world [OF inv this] show ?thesis using messages_move by (simp add: tasks_change_def tasks_step_same)
qed

lemma system_reachable_inv:
  assumes adv: "croniter_advances cr" and start: "store_inv cfg w0" and "system_reachable cfg cr lax_int qc w0 S"
  shows "system_inv cfg S"
  using assms(3)
proof (induction rule: system_reachable.induct)
  case system_start
  then show ?case
    using start by (simp add: system_inv_def initial_system_def new_scheduler_def cache_ok_def heap_inv_def)
next
  case (system_next S S')
  then show ?case using system_step_inv [OF adv] by blast
qed

subsection \<open>A small system\<close>

text \<open>One job that runs once, created in an empty store.\<close>

lemma empty_start: "store_inv default_settings sample_world"
  by simp

definition once_payload :: job_create_payload where
  "once_payload = sample_payload\<lparr>p_cron_expression := None\<rparr>"

lemma once_payload_valid: "JobCreate_valid strict_int once_payload"
  using sample_payload_valid by (simp add: JobCreate_valid_def once_payload_def)

definition one_job_system :: "mem_queue system" where
  "one_job_system =
     (initial_system sample_world)\<lparr>world := snd (create_job default_settings minutely MemoryQueueClient once_payload sample_world)\<rparr>"

lemma one_job_reachable:
  "system_reachable default_settings minutely strict_int MemoryQueueClient sample_world one_job_system"
proof -
  obtain r w' where c: "create_job default_settings minutely MemoryQueueClient once_payload sample_world = (r, w')" by fastforce
  have "system_step default_settings minutely strict_int MemoryQueueClient (initial_system sample_world) one_job_system"
    unfolding one_job_system_def c snd_conv
    by (rule api_creates [where p = once_payload]) (use c once_payload_valid in \<open>simp_all add: initial_system_def\<close>)
  then show ?thesis by (rule system_next [OF system_start])
qed

end
