(* ===== verification/Process_Refinement.thy ===== *)
theory Process_Refinement
  imports System
begin

text \<open>
  The loops of \<open>app/cli.py\<close> run inside the system: an iteration of a scheduler replica and the handling
  of one message by a worker are sequences of system steps, with whatever the other processes do in
  between. So everything proved of reachable systems holds of the processes as they are written.
\<close>

subsection \<open>Runs\<close>

definition system_runs ::
    "settings \<Rightarrow> croniter \<Rightarrow> (json \<Rightarrow> int option) \<Rightarrow> 'q queue_client \<Rightarrow> 'q system \<Rightarrow> 'q system \<Rightarrow> bool" where
  "system_runs cfg cr lax_int qc = (system_step cfg cr lax_int qc)\<^sup>*\<^sup>*"

lemma runs_refl [simp, intro]: "system_runs cfg cr lax_int qc S S"
  by (simp add: system_runs_def)

lemma runs_step: "system_step cfg cr lax_int qc S S' \<Longrightarrow> system_runs cfg cr lax_int qc S S'"
  by (simp add: system_runs_def)

lemma runs_trans: "system_runs cfg cr lax_int qc S S' \<Longrightarrow> system_runs cfg cr lax_int qc S' S'' \<Longrightarrow> system_runs cfg cr lax_int qc S S''"
  by (simp add: system_runs_def)

lemma runs_then: "system_runs cfg cr lax_int qc S S' \<Longrightarrow> system_step cfg cr lax_int qc S' S'' \<Longrightarrow> system_runs cfg cr lax_int qc S S''"
  by (simp add: system_runs_def)

lemma runs_reachable:
  assumes "system_runs cfg cr lax_int qc S S'" "system_reachable cfg cr lax_int qc w0 S"
  shows "system_reachable cfg cr lax_int qc w0 S'"
  using assms unfolding system_runs_def by (induction rule: rtranclp_induct) (auto intro: system_next)

lemma runs_inv:
  assumes "croniter_advances cr" "system_runs cfg cr lax_int qc S S'" "system_inv cfg S"
  shows "system_inv cfg S'"
  using assms(2,3) unfolding system_runs_def
  by (induction rule: rtranclp_induct) (auto dest: system_step_inv [OF assms(1)])

subsection \<open>A scheduler replica\<close>

text \<open>The system with the world and the state of one replica replaced.\<close>

definition with_replica :: "nat \<Rightarrow> 'q system \<Rightarrow> scheduler \<Rightarrow> 'q world \<Rightarrow> 'q system" where
  "with_replica i S s w = S\<lparr>world := w, schedulers := (schedulers S)(i := s)\<rparr>"

lemma with_replica_sel [simp]:
  "world (with_replica i S s w) = w" "schedulers (with_replica i S s w) i = s"
  "with_replica i (with_replica i S s w) s' w' = with_replica i S s' w'"
  "with_replica i S (schedulers S i) (world S) = S"
  by (simp_all add: with_replica_def)

lemma replica_world: "(with_replica i S s w)\<lparr>world := w'\<rparr> = with_replica i S s w'"
  by (simp add: with_replica_def)

lemma replica_pops:
  "heap s \<noteq> [] \<Longrightarrow> system_step cfg cr lax_int qc (with_replica i S s w) (with_replica i S (popped s) w)"
  using scheduler_pops [of "with_replica i S s w" i] by (simp add: with_replica_def)

lemma replica_fires:
  assumes "job_cache s k = Some job" "dispatch_job cr qc job now w = (Inr (n, job'), w')"
  shows "system_step cfg cr lax_int qc (with_replica i S s w) (with_replica i S (rescheduled k job' s) w')"
  using scheduler_fires [of "with_replica i S s w" i k job cr qc now n job' w'] assms by (simp add: with_replica_def)

lemma replica_misfires:
  assumes "job_cache s k = Some job" "dispatch_job cr qc job now w = (Inl e, w')"
  shows "system_step cfg cr lax_int qc (with_replica i S s w) (with_replica i S s w')"
proof -
  have "system_step cfg cr lax_int qc (with_replica i S s w) ((with_replica i S s w)\<lparr>world := w'\<rparr>)"
    by (rule scheduler_misfires [where i = i]) (use assms in simp_all)
  then show ?thesis by (simp add: replica_world)
qed

lemma dispatch_runs:
  fixes S :: "'q system"
  assumes adv: "croniter_advances cr" and hi: "heap_inv (heap (schedulers S i))"
    and d: "dispatch_due_jobs cr qc (schedulers S i) (world S) = Some (r, s', w')"
  shows "system_runs cfg cr lax_int qc S (with_replica i S s' w')"
proof -
  let ?R = "\<lambda>s w. system_runs cfg cr lax_int qc S (with_replica i S s w)"
  obtain now w0 where n: "utcnow (world S) = (now, w0)" by fastforce
  have "\<exists>r s' w'. dispatch_loop cr qc now 0 (schedulers S i) w0 = Some (r, s', w') \<and>
    (case r of Inl err \<Rightarrow> ?R s' w' | Inr m \<Rightarrow> ?R s' w' \<and> heap_inv (heap s') \<and> (\<forall>e \<in> set (heap s'). now < fst e))"
  proof (rule dispatch_loop_rule [where P = "\<lambda>n. ?R" and Q = ?R, OF adv hi])
    have "with_replica i S (schedulers S i) w0 = S\<lparr>world := w0\<rparr>" by (simp add: with_replica_def)
    then show "?R (schedulers S i) w0" using runs_step [OF clock_ticks [OF n]] by simp
  next
    fix s and w :: "'q world"
    assume "?R s w" "heap s \<noteq> []"
    then show "?R (popped s) w" by (blast intro: runs_then replica_pops)
  next
    fix s job job' fired and w w1 :: "'q world"
    assume a: "?R s w" "heap s \<noteq> []" "job_cache s (snd (heap s ! 0)) = Some job"
      "dispatch_job cr qc job now w = (Inr (fired, job'), w1)"
    have "?R (popped s) w" using a(1,2) by (blast intro: runs_then replica_pops)
    then show "?R (rescheduled (snd (heap s ! 0)) job' (popped s)) w1"
      by (rule runs_then [OF _ replica_fires]) (use a in simp_all)
  next
    fix s and w w1 :: "'q world"
    assume a: "?R s w" "heap s \<noteq> []"
      "w1 = w \<or> (\<exists>job err. job_cache s (snd (heap s ! 0)) = Some job \<and> dispatch_job cr qc job now w = (Inl err, w1))"
    have p: "?R (popped s) w" using a(1,2) by (blast intro: runs_then replica_pops)
    from a(3) show "?R (popped s) w1"
    proof (elim disjE exE conjE)
      fix job err assume "job_cache s (snd (heap s ! 0)) = Some job" "dispatch_job cr qc job now w = (Inl err, w1)"
      then show ?thesis by (intro runs_then [OF p replica_misfires]) simp_all
    qed (use p in simp)
  qed
  then show ?thesis using d n by (auto simp: dispatch_due_jobs_def split: sum.splits)
qed

lemma mark_all_runs:
  "mark_all_processed ts (db (world S)) = (r, d) \<Longrightarrow> system_runs cfg cr lax_int qc S (S\<lparr>world := (world S)\<lparr>db := d\<rparr>\<rparr>)"
proof (induction ts arbitrary: S)
  case (Cons t ts)
  show ?case
  proof (cases "mark_processed_for_chaining (tid t) (db (world S))")
    case (Inr d1)
    let ?S = "S\<lparr>world := (world S)\<lparr>db := d1\<rparr>\<rparr>"
    have "system_runs cfg cr lax_int qc ?S (?S\<lparr>world := (world ?S)\<lparr>db := d\<rparr>\<rparr>)" by (rule Cons.IH) (use Cons.prems Inr in simp)
    then show ?thesis using runs_trans [OF runs_step [OF scheduler_marks [OF Inr]]] by simp
  qed (use Cons.prems in auto)
qed auto

lemma dispatch_ready_runs:
  "dispatch_ready_jobs qc latest ups js n (world S) = (r, w') \<Longrightarrow> system_runs cfg cr lax_int qc S (S\<lparr>world := w'\<rparr>)"
proof (induction js arbitrary: n S)
  case (Cons j js)
  obtain r1 w1 where d: "dispatch_if_ready qc latest (ups (jid j)) j (world S) = (r1, w1)" by fastforce
  note one = runs_step [OF scheduler_triggers [OF d], of cfg cr lax_int]
  show ?case
  proof (cases r1)
    case (Inl e)
    with d Cons.prems one show ?thesis by simp
  next
    case (Inr b)
    with d Cons.prems have "dispatch_ready_jobs qc latest ups js (if b then Suc n else n) (world (S\<lparr>world := w1\<rparr>)) = (r, w')" by simp
    from runs_trans [OF one Cons.IH [OF this]] show ?thesis by simp
  qed
qed auto

lemma chaining_runs:
  assumes t: "trigger_dependent_jobs qc (world S) = (r, w')"
  shows "system_runs cfg cr lax_int qc S (S\<lparr>world := w'\<rparr>)"
proof -
  define ob where "ob = get_unprocessed_successful_tasks chaining_limit (db (world S))"
  obtain r1 d where m: "mark_all_processed ob (db (world S)) = (r1, d)" by fastforce
  let ?S = "S\<lparr>world := (world S)\<lparr>db := d\<rparr>\<rparr>"
  note marked = mark_all_runs [OF m, of cfg cr lax_int qc]
  have "w' = world S \<or> w' = world ?S \<or>
      (\<exists>l c. dispatch_ready_jobs qc l (upstream_job_ids (db (world S))) c 0 (world ?S) = (r, w'))"
    using t m by (auto simp: trigger_dependent_jobs_def Let_def ob_def [symmetric] split: if_splits sum.splits)
  then show ?thesis
  proof (elim disjE exE)
    fix l c assume "dispatch_ready_jobs qc l (upstream_job_ids (db (world S))) c 0 (world ?S) = (r, w')"
    from runs_trans [OF marked dispatch_ready_runs [OF this]] show ?thesis by simp
  qed (use marked in auto)
qed

lemma scheduler_cycle_runs:
  assumes adv: "croniter_advances cr" and inv: "system_inv cfg S" and sv: "cron_scheduler sv = schedulers S i"
    and c: "scheduler_cycle cr qc sv (world S) = Some (sv', w')"
  shows "system_runs cfg cr lax_int qc S (with_replica i S (cron_scheduler sv') w')"
proof -
  obtain s1 w1 where sync: "sync_jobs (schedulers S i) (world S) = (s1, w1)" by fastforce
  let ?S1 = "with_replica i S s1 w1"
  have r1: "system_runs cfg cr lax_int qc S ?S1"
    using runs_step [OF scheduler_syncs [OF sync]] by (simp add: with_replica_def)
  obtain r2 w2 where rec: "recover_orphans w1 = (r2, w2)" by fastforce
  let ?S2 = "with_replica i S s1 w2"
  have "system_step cfg cr lax_int qc ?S1 (?S1\<lparr>world := w2\<rparr>)" by (rule scheduler_recovers) (simp add: rec)
  then have r2: "system_runs cfg cr lax_int qc S ?S2" using runs_then [OF r1] by (simp add: replica_world)
  show ?thesis
  proof (cases r2)
    case (Inl e)
    then show ?thesis using c sv sync rec r2 by (auto simp: scheduler_cycle_def facade_defs)
  next
    case (Inr n)
    obtain r3 s3 w3 where disp: "dispatch_due_jobs cr qc s1 w2 = Some (r3, s3, w3)"
      and c3: "sv' = sv\<lparr>cron_scheduler := s3\<rparr>" "w' = (case r3 of Inl e \<Rightarrow> w3 | Inr k \<Rightarrow> snd (trigger_dependent_jobs qc w3))"
      using c sv sync rec Inr
      by (auto simp: scheduler_cycle_def facade_defs split: option.splits sum.splits prod.splits)
    have hi: "heap_inv (heap (schedulers ?S2 i))" using runs_inv [OF adv r2 inv] unfolding system_inv_def by blast
    have r3: "system_runs cfg cr lax_int qc S (with_replica i S s3 w3)"
      using runs_trans [OF r2 dispatch_runs [OF adv hi, of qc r3 s3 w3]] disp by simp
    show ?thesis
    proof (cases r3)
      case (Inl e)
      then show ?thesis using c3 r3 by simp
    next
      case (Inr k)
      obtain r4 where "trigger_dependent_jobs qc (world (with_replica i S s3 w3)) = (r4, w')" using c3(2) Inr by (metis eq_snd_iff sum.simps(6) with_replica_sel(1))
      from runs_trans [OF r3 chaining_runs [OF this]] show ?thesis using c3(1) by (simp add: replica_world)
    qed
  qed
qed

subsection \<open>A worker\<close>

text \<open>What a worker relies on, whatever the steps around it are: it can claim, record, abandon and read the
  clock in one step each. \<open>arrives step world_of S w'\<close>: the steps lead from \<open>S\<close> to a state with
  the world \<open>w'\<close>; \<open>environment_in\<close>: what happens while the worker waits is such a run.\<close>

definition arrives :: "('s \<Rightarrow> 's \<Rightarrow> bool) \<Rightarrow> ('s \<Rightarrow> 'q world) \<Rightarrow> 's \<Rightarrow> 'q world \<Rightarrow> bool" where
  "arrives step world_of S w' \<longleftrightarrow> (\<exists>S'. step\<^sup>*\<^sup>* S S' \<and> world_of S' = w')"

definition environment_in ::
    "('s \<Rightarrow> 's \<Rightarrow> bool) \<Rightarrow> ('s \<Rightarrow> 'q world) \<Rightarrow> ('s \<Rightarrow> bool) \<Rightarrow> 'q environment \<Rightarrow> bool" where
  "environment_in step world_of good env \<longleftrightarrow>
     (\<forall>S. good S \<longrightarrow> (\<forall>n. arrives step world_of S (during_backoff env n (world_of S))) \<and>
        arrives step world_of S (during_run env (world_of S)))"

lemma arrives_self [simp]: "arrives step world_of S (world_of S)"
  unfolding arrives_def by blast

lemma arrives_trans:
  assumes "arrives step world_of S w'"
    and "\<And>S'. step\<^sup>*\<^sup>* S S' \<Longrightarrow> world_of S' = w' \<Longrightarrow> arrives step world_of S' w''"
  shows "arrives step world_of S w''"
  using assms unfolding arrives_def by (blast intro: rtranclp_trans)

lemma arrives_step: "\<exists>S'. step S S' \<and> world_of S' = w' \<Longrightarrow> arrives step world_of S w'"
  unfolding arrives_def by blast

locale worker_host =
  fixes step :: "'s \<Rightarrow> 's \<Rightarrow> bool"
    and world_of :: "'s \<Rightarrow> 'q world"
    and good :: "'s \<Rightarrow> bool"
    and qc :: "'q queue_client"
  assumes good_step: "step S S' \<Longrightarrow> good S \<Longrightarrow> good S'"
    and good_rows: "good S \<Longrightarrow> t \<in> set (tasks (db (world_of S))) \<Longrightarrow> 0 \<le> retry_count t"
    and host_claims: "good S \<Longrightarrow> claim_task wk i (world_of S) = (r, w') \<Longrightarrow> \<exists>S'. step S S' \<and> world_of S' = w'"
    and host_records: "good S \<Longrightarrow> 0 \<le> retry_count t \<Longrightarrow> record_result qc t j res (world_of S) = (u, w') \<Longrightarrow>
      \<exists>S'. step S S' \<and> world_of S' = w'"
    and host_abandons: "good S \<Longrightarrow> utcnow (world_of S) = (now, w') \<Longrightarrow>
      mark_failed i (Some []) (Some ''Job not found'') True now (db (world_of S)) = Inr d \<Longrightarrow>
      \<exists>S'. step S S' \<and> world_of S' = w'\<lparr>db := d\<rparr>"
    and host_ticks: "good S \<Longrightarrow> utcnow (world_of S) = (now, w') \<Longrightarrow> \<exists>S'. step S S' \<and> world_of S' = w'"
begin

lemma good_steps: "step\<^sup>*\<^sup>* S S' \<Longrightarrow> good S \<Longrightarrow> good S'"
  by (induction rule: rtranclp_induct) (auto dest: good_step)

lemma claimed_count:
  assumes "good S" "claim_task wk i (world_of S) = (Some x, w')"
  shows "0 \<le> retry_count x"
  using assms(2)
proof (cases rule: claim_task_cases)
  case (won row until start d w2)
  then show ?thesis using get_task_row_SomeD [OF won(1)] good_rows [OF assms(1)] by simp
qed simp

lemma claim_attempts_arrives:
  assumes env: "environment_in step world_of good env"
  shows "good S \<Longrightarrow> claim_attempts env wk i n (world_of S) = (r, w') \<Longrightarrow>
    arrives step world_of S w' \<and> (\<forall>x. r = Some x \<longrightarrow> 0 \<le> retry_count x)"
proof (induction n arbitrary: S)
  case (Suc n)
  obtain r1 w1 where c: "claim_task wk i (world_of S) = (r1, w1)" by fastforce
  obtain S1 where S1: "step S S1" "world_of S1 = w1" using host_claims [OF Suc.prems(1) c] by blast
  have good1: "good S1" by (rule good_step [OF S1(1) Suc.prems(1)])
  have one: "arrives step world_of S w1" by (rule arrives_step) (use S1 in blast)
  show ?case
  proof (cases "r1 = None \<and> \<not> (case task_get i (db w1) of None \<Rightarrow> False | Some r \<Rightarrow> status r \<noteq> pending)")
    case True
    define w2 where "w2 = (if n = 0 then world_of S1 else during_backoff env n (world_of S1))"
    have "arrives step world_of S1 w2" using env good1 by (simp add: environment_in_def w2_def)
    then obtain S2 where S2: "step\<^sup>*\<^sup>* S1 S2" "world_of S2 = w2" unfolding arrives_def by blast
    have "claim_attempts env wk i n (world_of S2) = (r, w')" using True c Suc.prems(2) by (simp add: S2(2) w2_def S1(2) split: if_splits)
    note IH = Suc.IH [OF good_steps [OF S2(1) good1] this]
    have "step\<^sup>*\<^sup>* S S2" using S1(1) S2(1) by simp
    then show ?thesis using IH unfolding arrives_def by (blast intro: rtranclp_trans)
  next
    case False
    then show ?thesis using c Suc.prems one claimed_count [OF Suc.prems(1)]
      by (cases r1) (auto split: if_splits)
  qed
qed auto

lemma get_job_arrives:
  assumes env: "environment_in step world_of good env"
  shows "good S \<Longrightarrow> get_job_attempts env i n (world_of S) = (r, w') \<Longrightarrow> arrives step world_of S w'"
proof (induction n arbitrary: S)
  case (Suc n)
  show ?case
  proof (cases "job_get i (db (world_of S))")
    case None
    let ?w = "if n = 0 then world_of S else during_backoff env n (world_of S)"
    have "arrives step world_of S ?w" using env Suc.prems(1) by (simp add: environment_in_def)
    then obtain S1 where S1: "step\<^sup>*\<^sup>* S S1" "world_of S1 = ?w" unfolding arrives_def by blast
    have "get_job_attempts env i n (world_of S1) = (r, w')" using Suc.prems(2) None S1(2) by simp
    from Suc.IH [OF good_steps [OF S1(1) Suc.prems(1)] this] show ?thesis
      using S1(1) unfolding arrives_def by (blast intro: rtranclp_trans)
  qed (use Suc.prems in auto)
qed auto

lemma process_task_arrives:
  assumes env: "environment_in step world_of good env" and good: "good S"
    and p: "process_task_id qc env wk executor exc_str i (world_of S) = (r, w')"
  shows "arrives step world_of S w'"
proof -
  obtain c w1 where claim: "claim_with_retry env wk i (world_of S) = (c, w1)" by fastforce
  note C = claim_attempts_arrives [OF env good claim [unfolded claim_with_retry_def]]
  show ?thesis
  proof (cases c)
    case None
    then show ?thesis using p claim C by (auto simp: process_task_id_def)
  next
    case (Some x)
    obtain j w2 where job: "get_job_with_retry env (task_job_id x) w1 = (j, w2)" by fastforce
    have r2: "arrives step world_of S w2"
      by (rule arrives_trans [OF C [THEN conjunct1]])
        (use get_job_arrives [OF env good_steps [OF _ good]] job in \<open>auto simp: get_job_with_retry_def\<close>)
    show ?thesis
    proof (cases j)
      case None
      obtain now w3 where n: "utcnow w2 = (now, w3)" by fastforce
      have db3: "db w3 = db w2" using quietD(1) [OF quiet_utcnow [OF n]] .
      show ?thesis
      proof (rule arrives_trans [OF r2])
        fix S2 assume "step\<^sup>*\<^sup>* S S2" and S2: "world_of S2 = w2"
        then have good2: "good S2" using good_steps good by blast
        show "arrives step world_of S2 w'"
        proof (cases "mark_failed (tid x) (Some []) (Some ''Job not found'') True now (db w2)")
          case (Inl e)
          then have "w' = w3" using p claim Some job None n db3 by (simp add: process_task_id_def)
          then show ?thesis by (intro arrives_step) (use host_ticks [OF good2] n S2 in blast)
        next
          case (Inr d)
          then have "w' = w3\<lparr>db := d\<rparr>" using p claim Some job None n db3 by (simp add: process_task_id_def)
          then show ?thesis by (intro arrives_step) (use host_abandons [OF good2] n S2 Inr in blast)
        qed
      qed
    next
      case (Some y)
      let ?res = "execute_job executor exc_str y"
      obtain r3 w3 where rec: "record_result qc x y ?res (during_run env w2) = (r3, w3)" by fastforce
      have w': "w' = w3" using p claim \<open>c = Some x\<close> job Some rec by (auto simp: process_task_id_def split: sum.splits)
      have r3: "arrives step world_of S (during_run env w2)"
        by (rule arrives_trans [OF r2]) (use env good_steps [OF _ good] in \<open>auto simp: environment_in_def\<close>)
      show ?thesis
      proof (rule arrives_trans [OF r3])
        fix S3 assume "step\<^sup>*\<^sup>* S S3" "world_of S3 = during_run env w2"
        then show "arrives step world_of S3 w'"
          using C \<open>c = Some x\<close> rec w' good_steps [OF _ good]
          by (intro arrives_step host_records [where t = x and j = y and res = ?res]) auto
      qed
    qed
  qed
qed

end

text \<open>The system is such a host. What happens while a worker waits is some run of it.\<close>

definition environment_runs ::
    "settings \<Rightarrow> croniter \<Rightarrow> (json \<Rightarrow> int option) \<Rightarrow> 'q queue_client \<Rightarrow> 'q environment \<Rightarrow> bool" where
  "environment_runs cfg cr lax_int qc env \<longleftrightarrow>
     (\<forall>S n. \<exists>S'. system_runs cfg cr lax_int qc S S' \<and> world S' = during_backoff env n (world S)) \<and>
     (\<forall>S. \<exists>S'. system_runs cfg cr lax_int qc S S' \<and> world S' = during_run env (world S))"

text \<open>The world \<open>w'\<close> can be the world of a system that \<open>S\<close> runs into.\<close>

definition reaches_world ::
    "settings \<Rightarrow> croniter \<Rightarrow> (json \<Rightarrow> int option) \<Rightarrow> 'q queue_client \<Rightarrow> 'q system \<Rightarrow> 'q world \<Rightarrow> bool" where
  "reaches_world cfg cr lax_int qc S w' \<longleftrightarrow> (\<exists>S'. system_runs cfg cr lax_int qc S S' \<and> world S' = w')"

lemma reaches_arrives: "reaches_world cfg cr lax_int qc = arrives (system_step cfg cr lax_int qc) world"
  by (intro ext) (simp add: reaches_world_def arrives_def system_runs_def)

lemma reaches_step: "system_step cfg cr lax_int qc S (S\<lparr>world := w'\<rparr>) \<Longrightarrow> reaches_world cfg cr lax_int qc S w'"
  unfolding reaches_world_def by (intro exI [of _ "S\<lparr>world := w'\<rparr>"]) (simp add: runs_step)

lemma reaches_self [simp]: "reaches_world cfg cr lax_int qc S (world S)"
  unfolding reaches_world_def by blast

lemma reaches_trans:
  assumes "reaches_world cfg cr lax_int qc S w'"
    and "\<And>S'. system_runs cfg cr lax_int qc S S' \<Longrightarrow> world S' = w' \<Longrightarrow> reaches_world cfg cr lax_int qc S' w''"
  shows "reaches_world cfg cr lax_int qc S w''"
  using assms unfolding reaches_world_def by (blast intro: runs_trans)

lemma store_counts: "store_inv cfg w \<Longrightarrow> t \<in> set (tasks (db w)) \<Longrightarrow> 0 \<le> retry_count t"
  by (auto simp: store_inv_def db_wf_def task_ok_def)

lemma system_moves: "system_step cfg cr lax_int qc S (S\<lparr>world := w'\<rparr>) \<Longrightarrow> \<exists>S'. system_step cfg cr lax_int qc S S' \<and> world S' = w'"
  by (intro exI [of _ "S\<lparr>world := w'\<rparr>"]) simp

interpretation system_host: worker_host "system_step cfg cr lax_int qc" world "\<lambda>S. croniter_advances cr \<and> system_inv cfg S" qc
  for cfg cr lax_int qc
proof (unfold_locales, goal_cases)
  case (1 S S')
  then show ?case using system_step_inv by blast
next
  case (2 S t)
  then show ?case using store_counts by (auto simp: system_inv_def)
qed (blast intro: system_moves worker_claims worker_records worker_abandons clock_ticks)+

lemma process_task_reaches:
  assumes adv: "croniter_advances cr" and env: "environment_runs cfg cr lax_int qc env" and inv: "system_inv cfg S"
    and p: "process_task_id qc env wk executor exc_str t (world S) = (r, w')"
  shows "reaches_world cfg cr lax_int qc S w'"
  unfolding reaches_arrives
proof (rule system_host.process_task_arrives [OF _ _ p])
  show "environment_in (system_step cfg cr lax_int qc) world (\<lambda>S. croniter_advances cr \<and> system_inv cfg S) env"
    using env by (simp add: environment_in_def environment_runs_def flip: reaches_arrives reaches_world_def)
qed (use adv inv in blast)

lemma drop_message_reaches: "reaches_world cfg cr lax_int qc S (drop_message qc' p m (world S))"
proof (cases "delete_message qc' (receipt_handle m) (pool_queue p (world S))")
  case (Inr q)
  then show ?thesis using reaches_step [OF messages_move] by (simp add: drop_message_def)
qed (simp add: drop_message_def)

lemma handle_message_reaches:
  assumes adv: "croniter_advances cr" and env: "environment_runs cfg cr lax_int qc env" and inv: "system_inv cfg S"
  shows "reaches_world cfg cr lax_int qc S (handle_message qc p env wk executor exc_str fl m (world S))"
proof (cases "truthy (extract_task_id fl (body m))")
  case False
  then show ?thesis using drop_message_reaches by (simp add: handle_message_def)
next
  case True
  show ?thesis
  proof (cases "uuid_of_str (py_str (extract_task_id fl (body m)))")
    case None
    obtain now w1 where n: "utcnow (world S) = (now, w1)" by fastforce
    have "reaches_world cfg cr lax_int qc S (snd (utcnow w1))"
    proof (rule reaches_trans [OF reaches_step [OF clock_ticks [OF n]]])
      fix S1 assume "system_runs cfg cr lax_int qc S S1" "world S1 = w1"
      then show "reaches_world cfg cr lax_int qc S1 (snd (utcnow w1))" 
        by (intro reaches_step clock_ticks [where now = "fst (utcnow w1)"]) simp
    qed
    then show ?thesis using True None n by (simp add: handle_message_def)
  next
    case (Some u)
    obtain r w' where p': "process_task_id qc env wk executor exc_str (uuid_str u) (world S) = (r, w')" by fastforce
    note R = process_task_reaches [OF adv env inv p']
    have "reaches_world cfg cr lax_int qc S (drop_message qc p m w')"
      by (rule reaches_trans [OF R]) (use drop_message_reaches in blast)
    then show ?thesis using True Some p' R by (auto simp: handle_message_def split: sum.splits)
  qed
qed

lemma scheduler_iteration_runs:
  assumes adv: "croniter_advances cr" and inv: "system_inv cfg S" and sv: "cron_scheduler sv = schedulers S i"
  shows "\<exists>l' sv' p' w'. scheduler_iteration api cr qc l sv p (world S) = Some (l', sv', p', w') \<and>
    system_runs cfg cr lax_int qc S (with_replica i S (cron_scheduler sv') w')"
proof -
  have "service_inv cfg sv (world S)" using inv sv unfolding service_inv_def system_inv_def by simp
  then obtain sv' w' where c: "scheduler_cycle cr qc sv (world S) = Some (sv', w')" using scheduler_cycle_inv [OF adv] by blast
  obtain b l' p' where lead: "is_leader api l p = (b, l', p')" by (metis prod_cases3)
  show ?thesis
  proof (cases b)
    case True
    then show ?thesis using lead c scheduler_cycle_runs [OF adv inv sv c] by (simp add: scheduler_iteration_def)
  next
    case False
    then show ?thesis using lead sv by (simp add: scheduler_iteration_def)
  qed
qed

subsection \<open>Properties\<close>

text \<open>(C8) An iteration of a scheduler replica, leader or not, always returns and is a run of the system that
  changes no other replica: each entry it fires and each downstream job it triggers is a step of its own.\<close>

theorem scheduler_refines_system:
  assumes adv: "croniter_advances cr" and start: "store_inv cfg w0" and reach: "system_reachable cfg cr lax_int qc w0 S"
    and sv: "cron_scheduler sv = schedulers S i"
  shows "\<exists>l' sv' p' w'. scheduler_iteration api cr qc l sv p (world S) = Some (l', sv', p', w') \<and>
    system_runs cfg cr lax_int qc S (S\<lparr>world := w', schedulers := (schedulers S)(i := cron_scheduler sv')\<rparr>)"
  using scheduler_iteration_runs [OF adv system_reachable_inv [OF adv start reach] sv] unfolding with_replica_def .

theorem scheduler_refines_system_witness:
  "\<exists>l' sv' p' w'. scheduler_iteration small_api minutely MemoryQueueClient (LeaderLock 0 leader_lock_key) (SchedulerService 30)
       \<lparr>next_session = 0, owners = Map.empty, lock_holder = None\<rparr> (world one_job_system) = Some (l', sv', p', w') \<and>
     system_runs default_settings minutely strict_int MemoryQueueClient one_job_system
       (one_job_system\<lparr>world := w', schedulers := (schedulers one_job_system)(0 := cron_scheduler sv')\<rparr>)"
proof -
  have "cron_scheduler (SchedulerService 30) = schedulers one_job_system 0"
    by (simp add: SchedulerService_def one_job_system_def initial_system_def)
  then show ?thesis by (rule scheduler_refines_system [OF minutely_advances empty_start one_job_reachable])
qed

end
