(* ===== verification/Handler_Protocol.thy ===== *)
theory Handler_Protocol
  imports Task_Lifecycle
begin

text \<open>
  How a worker handles one message, as a protocol. \<open>hand\<close> is where \<open>_process_message\<close> of
  \<open>app/cli.py\<close> and \<open>process_task_id_async\<close> of \<open>app/services/worker_service.py\<close> stand with it, and
  \<open>hand_step\<close> is one transaction of theirs; the handler as it is written is a run of this protocol.
\<close>

subsection \<open>The protocol\<close>

text \<open>A handler is free, holds a message it has received, tries to claim its task, has claimed it and looks for the
  job, runs the container, or has finished and is about to delete the message. The numbers are the tries that
  are left.\<close>

datatype hand =
    Free
  | Holding queue_path queue_message
  | Claiming queue_path queue_message uuid nat
  | Running queue_path queue_message task nat
  | Executing queue_path queue_message task job
  | Finished queue_path queue_message

text \<open>The identifier a message names, bound to its column; \<open>None\<close> when it names none.\<close>

definition message_id :: "(string \<Rightarrow> string \<times> int option) \<Rightarrow> queue_message \<Rightarrow> string option result option" where
  "message_id fl m =
     (let task_id = extract_task_id fl (body m) in
      if truthy task_id then Some (process_bind_param (bind_other (py_str task_id))) else None)"

text \<open>\<open>process_task_id_async\<close> after a claim that it lost: true when the task is gone or has ended.\<close>

definition task_over :: "uuid \<Rightarrow> database \<Rightarrow> bool" where
  "task_over t d \<longleftrightarrow> (case task_get t d of None \<Rightarrow> True | Some r \<Rightarrow> terminal (status r))"

text \<open>\<open>task is not None and task.status != "pending"\<close>: no use in trying again.\<close>

definition claim_settled :: "uuid \<Rightarrow> database \<Rightarrow> bool" where
  "claim_settled t d \<longleftrightarrow> (case task_get t d of None \<Rightarrow> False | Some r \<Rightarrow> status r \<noteq> pending)"

inductive hand_step ::
    "'q queue_client \<Rightarrow> worker \<Rightarrow> (container_spec \<Rightarrow> execution_result result) \<Rightarrow> (error \<Rightarrow> string) \<Rightarrow>
     (string \<Rightarrow> string \<times> int option) \<Rightarrow> hand \<times> 'q world \<Rightarrow> hand \<times> 'q world \<Rightarrow> bool"
  for qc wk executor exc_str fl
where
  no_id: "message_id fl m = None \<Longrightarrow> hand_step qc wk executor exc_str fl (Holding p m, w) (Finished p m, w)"
| bad_id: "message_id fl m = Some (Inl e) \<Longrightarrow> utcnow w = (now, w1) \<Longrightarrow> utcnow w1 = (now', w2) \<Longrightarrow>
    hand_step qc wk executor exc_str fl (Holding p m, w) (Free, w2)"
| begins: "message_id fl m = Some (Inr (Some i)) \<Longrightarrow>
    hand_step qc wk executor exc_str fl (Holding p m, w) (Claiming p m i lookup_attempts, w)"
| claim_won: "claim_task wk i w = (Some t, w') \<Longrightarrow>
    hand_step qc wk executor exc_str fl (Claiming p m i (Suc n), w) (Running p m t lookup_attempts, w')"
| claim_lost: "claim_task wk i w = (None, w') \<Longrightarrow>
    hand_step qc wk executor exc_str fl (Claiming p m i (Suc n), w)
      (Claiming p m i (if claim_settled i (db w') then 0 else n), w')"
| over: "task_over i (db w) \<Longrightarrow> hand_step qc wk executor exc_str fl (Claiming p m i 0, w) (Finished p m, w)"
| kept: "\<not> task_over i (db w) \<Longrightarrow> hand_step qc wk executor exc_str fl (Claiming p m i 0, w) (Free, w)"
| job_found: "job_get (task_job_id t) (db w) = Some j \<Longrightarrow>
    hand_step qc wk executor exc_str fl (Running p m t (Suc n), w) (Executing p m t j, w)"
| job_missing: "job_get (task_job_id t) (db w) = None \<Longrightarrow>
    hand_step qc wk executor exc_str fl (Running p m t (Suc n), w) (Running p m t n, w)"
| abandoned: "utcnow w = (now, w') \<Longrightarrow>
    mark_failed (tid t) (Some []) (Some ''Job not found'') True now (db w) = Inr d \<Longrightarrow>
    hand_step qc wk executor exc_str fl (Running p m t 0, w) (Finished p m, w'\<lparr>db := d\<rparr>)"
| abandon_fails: "utcnow w = (now, w') \<Longrightarrow>
    mark_failed (tid t) (Some []) (Some ''Job not found'') True now (db w) = Inl e \<Longrightarrow>
    hand_step qc wk executor exc_str fl (Running p m t 0, w) (Free, w')"
| recorded: "record_result qc t j (execute_job executor exc_str j) w = (Inr u, w') \<Longrightarrow>
    hand_step qc wk executor exc_str fl (Executing p m t j, w) (Finished p m, w')"
| record_fails: "record_result qc t j (execute_job executor exc_str j) w = (Inl e, w') \<Longrightarrow>
    hand_step qc wk executor exc_str fl (Executing p m t j, w) (Free, w')"
| deleted: "hand_step qc wk executor exc_str fl (Finished p m, w) (Free, drop_message qc p m w)"

text \<open>What happens around a handler: only while it waits between two tries, and while its container runs.\<close>

inductive env_step :: "'q environment \<Rightarrow> hand \<times> 'q world \<Rightarrow> hand \<times> 'q world \<Rightarrow> bool" for env where
  claim_waits: "env_step env (Claiming p m i (Suc n), w) (Claiming p m i (Suc n), during_backoff env (Suc n) w)"
| lookup_waits: "env_step env (Running p m t (Suc n), w) (Running p m t (Suc n), during_backoff env (Suc n) w)"
| container_runs: "env_step env (Executing p m t j, w) (Executing p m t j, during_run env w)"

definition handler_runs ::
    "'q queue_client \<Rightarrow> 'q environment \<Rightarrow> worker \<Rightarrow> (container_spec \<Rightarrow> execution_result result) \<Rightarrow> (error \<Rightarrow> string) \<Rightarrow>
     (string \<Rightarrow> string \<times> int option) \<Rightarrow> hand \<times> 'q world \<Rightarrow> hand \<times> 'q world \<Rightarrow> bool" where
  "handler_runs qc env wk executor exc_str fl =
     (\<lambda>x y. hand_step qc wk executor exc_str fl x y \<or> env_step env x y)\<^sup>*\<^sup>*"

lemma handler_runs_refl [simp]: "handler_runs qc env wk executor exc_str fl x x"
  by (simp add: handler_runs_def)

lemma handler_step: "hand_step qc wk executor exc_str fl x y \<Longrightarrow> handler_runs qc env wk executor exc_str fl x y"
  by (auto simp: handler_runs_def)

lemma handler_waits: "env_step env x y \<Longrightarrow> handler_runs qc env wk executor exc_str fl x y"
  by (auto simp: handler_runs_def)

lemma handler_trans:
  "handler_runs qc env wk executor exc_str fl x y \<Longrightarrow> handler_runs qc env wk executor exc_str fl y z \<Longrightarrow>
   handler_runs qc env wk executor exc_str fl x z"
  by (simp add: handler_runs_def)

lemma handler_then: "hand_step qc wk executor exc_str fl x y \<Longrightarrow> handler_runs qc env wk executor exc_str fl y z \<Longrightarrow>
   handler_runs qc env wk executor exc_str fl x z"
  by (rule handler_trans [OF handler_step])

subsection \<open>The handler of the code follows it\<close>

lemma claim_follows:
  "claim_attempts env wk i n w = (r, w') \<Longrightarrow> n \<noteq> 0 \<or> w = w' \<Longrightarrow>
   handler_runs qc env wk executor exc_str fl (Claiming p m i n, w)
     (case r of None \<Rightarrow> Claiming p m i 0 | Some t \<Rightarrow> Running p m t lookup_attempts, w')"
proof (induction n arbitrary: w)
  case (Suc n)
  obtain c w1 where c: "claim_task wk i w = (c, w1)" by fastforce
  show ?case
  proof (cases c)
    case (Some t)
    then have "r = Some t" "w' = w1" using Suc.prems c by simp_all
    then show ?thesis using handler_step [OF claim_won [OF c [unfolded Some]]] by simp
  next
    case None
    let ?n = "if claim_settled i (db w1) then 0 else n"
    have lost: "hand_step qc wk executor exc_str fl (Claiming p m i (Suc n), w) (Claiming p m i ?n, w1)"
      using c None by (intro claim_lost) simp
    show ?thesis
    proof (cases "claim_settled i (db w1) \<or> n = 0")
      case True
      then have "r = None" "w' = w1" using Suc.prems c None by (auto simp: claim_settled_def split: if_splits)
      then show ?thesis using handler_step [OF lost] True by auto
    next
      case False
      then obtain k where k: "n = Suc k" by (cases n) auto
      have rest: "claim_attempts env wk i n (during_backoff env n w1) = (r, w')"
        using Suc.prems c None False by (simp add: claim_settled_def)
      have "handler_runs qc env wk executor exc_str fl (Claiming p m i ?n, w1) (Claiming p m i n, during_backoff env n w1)"
        using False k by (auto intro: handler_waits claim_waits)
      then show ?thesis using handler_then [OF lost handler_trans [OF _ Suc.IH [OF rest]]] k by simp
    qed
  qed
qed simp

lemma lookup_follows:
  "get_job_attempts env (task_job_id t) n w = (r, w') \<Longrightarrow>
   handler_runs qc env wk executor exc_str fl (Running p m t n, w)
     (case r of None \<Rightarrow> Running p m t 0 | Some j \<Rightarrow> Executing p m t j, w')"
proof (induction n arbitrary: w)
  case (Suc n)
  show ?case
  proof (cases "job_get (task_job_id t) (db w)")
    case (Some j)
    then have "r = Some j" "w' = w" using Suc.prems by simp_all
    then show ?thesis using handler_step [OF job_found [OF Some]] by simp
  next
    case None
    have miss: "hand_step qc wk executor exc_str fl (Running p m t (Suc n), w) (Running p m t n, w)" by (rule job_missing [OF None])
    let ?w = "if n = 0 then w else during_backoff env n w"
    have "handler_runs qc env wk executor exc_str fl (Running p m t n, w) (Running p m t n, ?w)"
      by (cases n) (auto intro: handler_waits lookup_waits)
    moreover have "get_job_attempts env (task_job_id t) n ?w = (r, w')" using Suc.prems None by simp
    ultimately show ?thesis using handler_then [OF miss handler_trans [OF _ Suc.IH]] by blast
  qed
qed simp

lemma finished_drops:
  "handler_runs qc env wk executor exc_str fl (Finished p m, w) (Free, drop_message qc p m w)"
  by (rule handler_step [OF deleted])

lemma process_follows:
  assumes "process_task_id qc env wk executor exc_str i w = (r, w')"
  shows "handler_runs qc env wk executor exc_str fl (Claiming p m i lookup_attempts, w)
    (if r = Inr True then Finished p m else Free, w')"
proof -
  obtain c w1 where claim: "claim_attempts env wk i lookup_attempts w = (c, w1)" by fastforce
  note P = assms [unfolded process_task_id_def claim_with_retry_def claim prod.case]
  have "lookup_attempts \<noteq> 0" by (simp add: lookup_attempts_def)
  then have C: "handler_runs qc env wk executor exc_str fl (Claiming p m i lookup_attempts, w)
      (case c of None \<Rightarrow> Claiming p m i 0 | Some t \<Rightarrow> Running p m t lookup_attempts, w1)"
    by (intro claim_follows [OF claim] disjI1)
  show ?thesis
  proof (cases c)
    case None
    have "hand_step qc wk executor exc_str fl (Claiming p m i 0, w1) (if task_over i (db w1) then Finished p m else Free, w1)"
      by (simp add: over kept)
    moreover have "r = Inr (task_over i (db w1))" "w' = w1" using P None by (auto simp: task_over_def)
    ultimately show ?thesis using handler_trans [OF C handler_step] None by simp
  next
    case (Some t)
    obtain j w2 where job: "get_job_attempts env (task_job_id t) lookup_attempts w1 = (j, w2)" by fastforce
    note P = P [unfolded Some get_job_with_retry_def option.case job prod.case]
    note L = lookup_follows [OF job, where qc = qc and wk = wk and executor = executor and exc_str = exc_str and fl = fl and p = p and m = m]
    have R: "handler_runs qc env wk executor exc_str fl (Claiming p m i lookup_attempts, w)
        (case j of None \<Rightarrow> Running p m t 0 | Some j \<Rightarrow> Executing p m t j, w2)"
      by (rule handler_trans [OF C [unfolded Some option.case] L])
    show ?thesis
    proof (cases j)
      case None
      obtain now w3 where n: "utcnow w2 = (now, w3)" by fastforce
      have db: "db w3 = db w2" by (rule quietD(1) [OF quiet_utcnow [OF n]])
      show ?thesis
      proof (cases "mark_failed (tid t) (Some []) (Some ''Job not found'') True now (db w2)")
        case (Inl e)
        then show ?thesis using handler_trans [OF R] None P n db handler_step [OF abandon_fails [OF n Inl]] by auto
      next
        case (Inr d)
        then show ?thesis using handler_trans [OF R] None P n db handler_step [OF abandoned [OF n Inr]] by auto
      qed
    next
      case (Some y)
      obtain u w3 where rec: "record_result qc t y (execute_job executor exc_str y) (during_run env w2) = (u, w3)" by fastforce
      have "handler_runs qc env wk executor exc_str fl (Claiming p m i lookup_attempts, w) (Executing p m t y, during_run env w2)"
        by (rule handler_trans [OF R]) (simp add: Some handler_waits container_runs)
      moreover have "hand_step qc wk executor exc_str fl (Executing p m t y, during_run env w2)
          (if isl u then Free else Finished p m, w3)"
        using rec by (cases u) (simp_all add: recorded record_fails)
      moreover have "r = map_sum id (\<lambda>u. True) u" "w' = w3" using P Some rec by (auto split: sum.splits)
      ultimately show ?thesis using handler_trans [OF _ handler_step] by (cases u) force+
    qed
  qed
qed

lemma handle_message_follows:
  "handler_runs qc env wk executor exc_str fl (Holding p m, w)
     (Free, handle_message qc p env wk executor exc_str fl m w)"
proof (cases "message_id fl m")
  case None
  then have "handle_message qc p env wk executor exc_str fl m w = drop_message qc p m w"
    by (auto simp: handle_message_def message_id_def Let_def split: if_splits)
  then show ?thesis using handler_then [OF no_id [OF None] finished_drops] by simp
next
  case (Some b)
  then have truthy: "truthy (extract_task_id fl (body m))" and b: "process_bind_param (bind_other (py_str (extract_task_id fl (body m)))) = b"
    by (auto simp: message_id_def Let_def split: if_splits)
  show ?thesis
  proof (cases b)
    case (Inl e)
    obtain now w1 now' w2 where n: "utcnow w = (now, w1)" "utcnow w1 = (now', w2)" by fastforce
    then show ?thesis using truthy b Inl handler_step [OF bad_id [OF Some [unfolded Inl] n]]
      by (simp add: handle_message_def)
  next
    case (Inr x)
    then obtain i where i: "x = Some i" using b by (auto split: option.splits)
    obtain r w' where pr: "process_task_id qc env wk executor exc_str i w = (r, w')" by fastforce
    have "handle_message qc p env wk executor exc_str fl m w = (if r = Inr True then drop_message qc p m w' else w')"
      using truthy b pr unfolding Inr i handle_message_def Let_def by (auto split: sum.splits)
    then show ?thesis
      using handler_then [OF begins [OF Some [unfolded Inr i]] handler_trans [OF process_follows [OF pr]]]
      by (cases "r = Inr True") (simp_all add: finished_drops)
  qed
qed

text \<open>(C7) The handler as it is written follows the protocol: from a message in hand to the free slot it makes only
  steps of the protocol, with whatever the environment does while it waits or runs. So at most five claims are
  tried, one outcome at most is recorded, by the handler that won the claim and after the run, and the message
  is deleted last and only after an outcome, for a task that has ended or is gone, or for a body without an id.\<close>

theorem handler_follows_protocol:
  "handler_runs qc env wk executor exc_str fl (Holding p m, w)
     (Free, handle_message qc p env wk executor exc_str fl m w)"
  by (rule handle_message_follows)

end
