(* ===== verification/Responses.thy ===== *)
theory Responses
  imports System Guid
begin

text \<open>
  The response models of \<open>app/schemas/job.py\<close> and \<open>app/schemas/task.py\<close> and the endpoints of
  \<open>app/api/v1/jobs.py\<close> that build them. \<open>JobRead\<close> inherits the validators of \<open>JobBase\<close>, so reading a
  job validates its stored action again; a row that fails makes the endpoint answer with an
  internal error. That this never happens is a typing property of the whole system.
\<close>

subsection \<open>Response models\<close>

record job_read =
  r_id :: uuid
  r_name :: string
  r_cron_expression :: "string option"
  r_action_type :: string
  r_action_config :: json
  r_enabled :: bool
  r_concurrency_policy :: concurrency_policy
  r_max_retries :: int
  r_upstream_job_ids :: "uuid list"
  r_downstream_job_ids :: "uuid list"
  r_next_fire_at :: "time option"
  r_created_at :: time
  r_updated_at :: time

text \<open>The fields of a row as \<open>from_attributes\<close> reads them; \<open>JobListItem\<close> declares the same ones, without
  the validators.\<close>

definition job_fields :: "database \<Rightarrow> job \<Rightarrow> job_read" where
  "job_fields d j =
     \<lparr>r_id = jid j, r_name = name j, r_cron_expression = cron_expression j, r_action_type = action_type j,
      r_action_config = action_config j, r_enabled = enabled j, r_concurrency_policy = concurrency_policy j,
      r_max_retries = max_retries j, r_upstream_job_ids = upstream_job_ids d (jid j),
      r_downstream_job_ids = downstream_job_ids d (jid j), r_next_fire_at = next_fire_at j,
      r_created_at = jcreated_at j, r_updated_at = updated_at j\<rparr>"

definition valid_action :: "(json \<Rightarrow> int option) \<Rightarrow> string \<Rightarrow> json \<Rightarrow> bool" where
  "valid_action lax_int at c \<longleftrightarrow>
     at \<in> {''http'', ''shell''} \<and> (case c of JObj kvs \<Rightarrow> True | _ \<Rightarrow> False) \<and> action_config_valid lax_int at c"

definition JobRead :: "(json \<Rightarrow> int option) \<Rightarrow> database \<Rightarrow> job \<Rightarrow> job_read result" where
  "JobRead lax_int d j =
     (if valid_action lax_int (action_type j) (action_config j) \<and> 0 \<le> max_retries j then Inr (job_fields d j)
      else Inl ValidationError)"

record task_read =
  tr_id :: uuid
  tr_job_id :: uuid
  tr_status :: status
  tr_trigger_type :: trigger_type
  tr_retry_count :: int
  tr_locked_by :: "string option"
  tr_locked_until :: "time option"
  tr_started_at :: "time option"
  tr_finished_at :: "time option"
  tr_stdout :: "string option"
  tr_stderr :: "string option"
  tr_created_at :: time

definition TaskRead :: "task \<Rightarrow> task_read" where
  "TaskRead t =
     \<lparr>tr_id = tid t, tr_job_id = task_job_id t, tr_status = status t, tr_trigger_type = trigger_type t,
      tr_retry_count = retry_count t, tr_locked_by = locked_by t, tr_locked_until = locked_until t,
      tr_started_at = started_at t, tr_finished_at = finished_at t, tr_stdout = stdout t, tr_stderr = stderr t,
      tr_created_at = tcreated_at t\<rparr>"

record trigger_response =
  trig_task_id :: uuid
  trig_status :: status

subsection \<open>Endpoints\<close>

text \<open>A path parameter is any string; the statement that looks the row up binds it to the \<open>GUID\<close> column. Every
  spelling that \<open>uuid.UUID\<close> reads becomes the canonical identifier, and any other string raises a
  \<open>ValueError\<close> there, before a row is read. The endpoints with an \<open>uuid\<close> argument take the identifier
  after binding, as the scripts do, which pass back what the API answered; \<open>at_path\<close> is the route.\<close>

definition path_id :: "string \<Rightarrow> uuid result" where
  "path_id raw = (case uuid_of_str raw of None \<Rightarrow> Inl ValueError | Some u \<Rightarrow> Inr (uuid_str u))"

lemma path_id_binds: "process_bind_param (bind_other raw) = map_sum id Some (path_id raw)"
  by (simp add: path_id_def split: option.split)

lemma path_id_canonical [simp]: "path_id (uuid_str u) = Inr (uuid_str u)"
  by (simp add: path_id_def uuid_of_uuid_str)

definition at_path :: "string \<Rightarrow> (uuid \<Rightarrow> 'q world \<Rightarrow> 'a result \<times> 'q world) \<Rightarrow> 'q world \<Rightarrow> 'a result \<times> 'q world" where
  "at_path raw endpoint w = (case path_id raw of Inl e \<Rightarrow> (Inl e, w) | Inr i \<Rightarrow> endpoint i w)"

definition read_at_path :: "string \<Rightarrow> (uuid \<Rightarrow> database \<Rightarrow> 'a result) \<Rightarrow> database \<Rightarrow> 'a result" where
  "read_at_path raw endpoint d = (case path_id raw of Inl e \<Rightarrow> Inl e | Inr i \<Rightarrow> endpoint i d)"

definition post_job ::
    "settings \<Rightarrow> croniter \<Rightarrow> (json \<Rightarrow> int option) \<Rightarrow> 'q queue_client \<Rightarrow> job_create_payload \<Rightarrow> 'q world \<Rightarrow> job_read result \<times> 'q world" where
  "post_job cfg cr lax_int qc p w =
     (if \<not> JobCreate_valid lax_int p then (Inl (unprocessable ''request body''), w)
      else case create_job cfg cr qc p w of
             (Inl e, w') \<Rightarrow> (Inl e, w')
           | (Inr j, w') \<Rightarrow> (JobRead lax_int (db w') j, w'))"

definition get_job_endpoint :: "(json \<Rightarrow> int option) \<Rightarrow> string \<Rightarrow> database \<Rightarrow> job_read result" where
  "get_job_endpoint lax_int raw =
     read_at_path raw (\<lambda>i d. case get_job i d of Inl e \<Rightarrow> Inl e | Inr j \<Rightarrow> JobRead lax_int d j)"

definition put_job ::
    "settings \<Rightarrow> croniter \<Rightarrow> (json \<Rightarrow> int option) \<Rightarrow> 'q queue_client \<Rightarrow> string \<Rightarrow> job_update_payload \<Rightarrow> 'q world \<Rightarrow>
     job_read result \<times> 'q world" where
  "put_job cfg cr lax_int qc raw p w =
     (if \<not> JobUpdate_valid p then (Inl (unprocessable ''request body''), w)
      else at_path raw (\<lambda>i w.
        case update_job cfg cr lax_int qc i p w of
          (Inl e, w') \<Rightarrow> (Inl e, w')
        | (Inr j, w') \<Rightarrow> (JobRead lax_int (db w') j, w')) w)"

definition delete_job_endpoint :: "uuid \<Rightarrow> 'q world \<Rightarrow> (string \<times> bool) list result \<times> 'q world" where
  "delete_job_endpoint i w =
     (case delete_job i w of (Inl e, w') \<Rightarrow> (Inl e, w') | (Inr u, w') \<Rightarrow> (Inr [(''ok'', True)], w'))"

definition trigger_endpoint :: "'q queue_client \<Rightarrow> uuid \<Rightarrow> 'q world \<Rightarrow> trigger_response result \<times> 'q world" where
  "trigger_endpoint qc i w =
     (case trigger_job qc i w of
        (Inl e, w') \<Rightarrow> (Inl e, w')
      | (Inr t, w') \<Rightarrow> (Inr \<lparr>trig_task_id = tid t, trig_status = status t\<rparr>, w'))"

definition list_job_tasks_endpoint :: "uuid \<Rightarrow> database \<Rightarrow> task_read list result" where
  "list_job_tasks_endpoint i d = (case list_job_tasks i d of Inl e \<Rightarrow> Inl e | Inr ts \<Rightarrow> Inr (map TaskRead ts))"

text \<open>The routes over a raw path parameter, those of \<open>app/api/v1/tasks.py\<close> included.\<close>

definition delete_job_route :: "string \<Rightarrow> 'q world \<Rightarrow> (string \<times> bool) list result \<times> 'q world" where
  "delete_job_route raw = at_path raw delete_job_endpoint"

definition trigger_route :: "'q queue_client \<Rightarrow> string \<Rightarrow> 'q world \<Rightarrow> trigger_response result \<times> 'q world" where
  "trigger_route qc raw = at_path raw (trigger_endpoint qc)"

definition list_job_tasks_route :: "string \<Rightarrow> database \<Rightarrow> task_read list result" where
  "list_job_tasks_route raw = read_at_path raw list_job_tasks_endpoint"

definition get_task_route :: "string \<Rightarrow> database \<Rightarrow> task_read result" where
  "get_task_route raw = read_at_path raw (\<lambda>i d. map_sum id TaskRead (get_task i d))"

definition retry_task_route :: "'q queue_client \<Rightarrow> string \<Rightarrow> 'q world \<Rightarrow> retry_response result \<times> 'q world" where
  "retry_task_route qc raw = at_path raw (retry_task qc)"

text \<open>The items of the job list.\<close>

definition job_list_items :: "database \<Rightarrow> job_list_response \<Rightarrow> job_read list" where
  "job_list_items d r = map (job_fields d) (items r)"

text \<open>The status FastAPI answers with: an \<open>HTTPException\<close> carries it, any other exception is an internal error.\<close>

definition status_code :: "'a result \<Rightarrow> nat" where
  "status_code r = (case r of Inr x \<Rightarrow> 200 | Inl (HTTPException n detail) \<Rightarrow> n | Inl e \<Rightarrow> 500)"

subsection \<open>Which actions a step can store\<close>

definition job_actions :: "database \<Rightarrow> (string \<times> json) set" where
  "job_actions d = (\<lambda>j. (action_type j, action_config j)) ` set (jobs d)"

lemma task_create_jobs: "task_create t d = Inr d' \<Longrightarrow> jobs d' = jobs d"
  using task_create_SomeD by fastforce

lemma finish_task_jobs: "finish_task t st out err now d = Inr d' \<Longrightarrow> jobs d' = jobs d"
  unfolding finish_task_def by (drule task_write_SomeD) auto

lemma quiet_jobs: "quiet w w' \<Longrightarrow> jobs (db w') = jobs (db w)"
  by (simp add: quietD)

lemmas draw_jobs = quiet_jobs [OF quiet_uuid4] quiet_jobs [OF quiet_utcnow]

lemma enqueue_task_jobs: "enqueue_task qc i w = (r, w') \<Longrightarrow> jobs (db w') = jobs (db w)"
  by (erule enqueue_task_cases) (auto simp: quiet_jobs task_create_jobs)

lemma dispatch_if_one_time_jobs: "dispatch_if_one_time qc j w = (r, w') \<Longrightarrow> jobs (db w') = jobs (db w)"
  by (auto simp: dispatch_if_one_time_def dest: enqueue_task_jobs split: if_splits prod.splits sum.splits)

lemma trigger_job_jobs: "trigger_job qc i w = (r, w') \<Longrightarrow> jobs (db w') = jobs (db w)"
  by (auto simp: trigger_job_def dest: enqueue_task_jobs split: option.splits)

lemma retry_task_jobs: "retry_task qc t w = (r, w') \<Longrightarrow> jobs (db w') = jobs (db w)"
  by (erule retry_task_cases) (auto simp: task_create_jobs dest!: draw_jobs split: sum.splits)

lemma claim_task_jobs: "claim_task wk t w = (r, w') \<Longrightarrow> jobs (db w') = jobs (db w)"
  by (erule claim_task_cases) (auto simp: quiet_jobs dest!: task_write_SomeD)

lemma heartbeat_jobs: "jobs (db (heartbeat_beat wk t w)) = jobs (db w)"
  by (simp add: heartbeat_beat_def utcnow_def Let_def)

lemma handle_failure_jobs: "handle_failure qc t j out err w = (r, w') \<Longrightarrow> jobs (db w') = jobs (db w)"
  by (erule handle_failure_cases)
    (auto dest!: draw_jobs finish_task_jobs task_create_jobs split: sum.splits)

lemma record_result_jobs: "record_result qc t j res w = (r, w') \<Longrightarrow> jobs (db w') = jobs (db w)"
  by (auto simp: record_result_def mark_success_def utcnow_def Let_def dest: handle_failure_jobs finish_task_jobs
      split: if_splits sum.splits)

lemma dispatch_if_ready_jobs: "dispatch_if_ready qc latest ups j w = (r, w') \<Longrightarrow> jobs (db w') = jobs (db w)"
  by (auto simp: dispatch_if_ready_def uuid4_def utcnow_def Let_def dest!: task_create_jobs split: if_splits sum.splits)

lemma update_row_actions:
  "(\<lambda>j. (action_type j, action_config j)) ` set (update_row jid i (\<lambda>_. j') js) \<subseteq>
     insert (action_type j', action_config j') ((\<lambda>j. (action_type j, action_config j)) ` set js)"
  by (auto elim!: in_update_rowE)

lemma job_update_actions:
  assumes "job_update now j d = Inr d'"
  shows "job_actions d' \<subseteq> insert (action_type j, action_config j) (job_actions d)"
  using assms
proof (cases rule: job_update_cases)
  case (2 old j')
  have "action_type j' = action_type j" "action_config j' = action_config j" using 2(3) by auto
  then show ?thesis using update_row_actions [of "jid j" j' "jobs d"] 2(4) by (simp add: job_actions_def)
qed auto

lemma merge_commit_actions:
  assumes "merge_commit stamp j d = Inr d'"
  shows "job_actions d' \<subseteq> insert (action_type j, action_config j) (job_actions d)"
proof (cases "get_job_row d (jid j)")
  case None
  with assms have "job_create j [] d = Inr d'" by (simp add: merge_commit_def)
  from job_create_SomeD [OF this] show ?thesis by (auto simp: job_actions_def)
next
  case (Some old)
  with assms have "job_update stamp j d = Inr d'" by (simp add: merge_commit_def)
  then show ?thesis by (rule job_update_actions)
qed

lemma create_job_actions:
  assumes "create_job cfg cr qc p w = (r, w')"
  shows "job_actions (db w') \<subseteq> insert (p_action_type p, p_action_config p) (job_actions (db w))"
  using assms
proof (cases rule: create_job_cases)
  case (rejected e)
  then show ?thesis by (auto simp: quietD)
next
  case (stored s spec i now w1 w2 w3 d r4 j)
  have "jobs (db w') = jobs d" using dispatch_if_one_time_jobs [OF stored(8)] by simp
  then show ?thesis using job_create_SomeD [OF stored(6)] stored(5) by (auto simp: job_actions_def)
qed

text \<open>An update stores the action it leaves in the row, and when it touches the action it has validated it.\<close>

lemma rederived_action_valid:
  assumes "JobUpdate_valid p" "valid_action lax_int (action_type j0) (action_config j0)" "j = set_schedule s (set_columns p j0)"
    and r: "rederive_spec cfg lax_int p j = Inr spec"
  shows "valid_action lax_int (action_type j) (action_config j)"
proof (cases "u_action_type p = None \<and> u_action_config p = None")
  case True
  then show ?thesis using assms(2,3) by (simp add: set_schedule_def set_columns_def)
next
  case False
  define at where "at = (case u_action_type p of None \<Rightarrow> Some (action_type j) | Some v \<Rightarrow> v)"
  define c where "c = (case u_action_config p of None \<Rightarrow> action_config j | Some None \<Rightarrow> JNull | Some (Some c) \<Rightarrow> c)"
  have val: "\<not> (case at of None \<Rightarrow> False | Some a \<Rightarrow> \<not> action_config_valid lax_int a c)"
    and spec: "\<exists>x. build_runtime_spec cfg at c = Inr x"
    using r False unfolding rederive_spec_def at_def c_def by (auto simp: Let_def split: if_splits sum.splits)
  from spec have "at = Some ''shell'' \<or> at = Some ''http''" "\<exists>kvs. c = JObj kvs"
    by (auto simp: build_runtime_spec_def split: if_splits json.splits)
  then have at: "at = Some (action_type j)" and c: "c = action_config j"
    using assms(3) by (auto simp: at_def c_def set_schedule_def set_columns_def split: option.splits)
  show ?thesis using val spec \<open>at = Some ''shell'' \<or> at = Some ''http''\<close> \<open>\<exists>kvs. c = JObj kvs\<close>
    unfolding at c by (auto simp: valid_action_def)
qed

lemma update_job_actions:
  assumes p: "JobUpdate_valid p" and ok: "\<forall>(a, c) \<in> job_actions (db w). valid_action lax_int a c"
    and u: "update_job cfg cr lax_int qc i p w = (r, w')"
  shows "\<forall>(a, c) \<in> job_actions (db w'). valid_action lax_int a c"
  using u
proof (cases rule: update_job_cases)
  case (rejected e)
  then show ?thesis using ok by (simp add: quietD)
next
  case (stored j0 s spec now w1 w2 d j2 j4)
  have "j0 \<in> set (jobs (db w))" using get_job_row_SomeD [OF stored(1)] by blast
  then have "valid_action lax_int (action_type j0) (action_config j0)" using ok by (auto simp: job_actions_def)
  note v = rederived_action_valid [OF p this stored(3,4)]
  obtain r4 w4 where d4: "dispatch_if_one_time qc j4 (w2\<lparr>db := d\<rparr>) = (r4, w4)" by fastforce
  have "w' = w4 \<or> w' = w2\<lparr>db := d\<rparr>" using stored(8) d4 by (auto split: if_splits sum.splits)
  then have same: "jobs (db w') = jobs d" using dispatch_if_one_time_jobs [OF d4] by auto
  define d0 where "d0 = (db w)\<lparr>job_dependencies := replace_dependencies p (jid j2) (db w)\<rparr>"
  have d0: "jobs d0 = jobs (db w)" "job_update now (j2\<lparr>runtime_spec := spec\<rparr>) d0 = Inr d"
    using stored(6) by (auto simp: d0_def store_update_def split: if_splits sum.splits)
  have "job_actions (db w') \<subseteq> insert (action_type j2, action_config j2) (job_actions (db w))"
    using job_update_actions [OF d0(2)] d0(1) same by (simp add: job_actions_def)
  then show ?thesis using ok v by blast
qed

lemma dispatch_job_actions:
  assumes "dispatch_job cr qc job now w = (r, w')"
  shows "job_actions (db w') \<subseteq> insert (action_type job, action_config job) (job_actions (db w))"
    and "r = Inr (n, j') \<Longrightarrow> action_type j' = action_type job \<and> action_config j' = action_config job"
proof -
  have adv: "job_actions d \<subseteq> insert (action_type job, action_config job) (job_actions (db w)) \<and>
      action_type j2 = action_type job \<and> action_config j2 = action_config job" if "advanced cr job now w w1 d j2" for w1 d j2
    using that by (auto simp: advanced_def dest!: merge_commit_actions)
  have "job_actions (db w') \<subseteq> insert (action_type job, action_config job) (job_actions (db w)) \<and>
    (r = Inr (n, j') \<longrightarrow> action_type j' = action_type job \<and> action_config j' = action_config job)"
    using assms
  proof (cases rule: dispatch_job_cases)
    case (rejected err)
    then show ?thesis by (auto simp: quietD)
  next
    case (skipped w1 d j2)
    then show ?thesis using adv [OF skipped(1)] by auto
  next
    case (uncreated w1 d j2 i w3 created w4 err)
    have "jobs (db w') = jobs d" using draw_jobs(1) [OF uncreated(3)] draw_jobs(2) [OF uncreated(4)] uncreated(7) by simp
    then show ?thesis using adv [OF uncreated(1)] uncreated(6) by (simp add: job_actions_def)
  next
    case (unsent w1 d j2 i w3 created w4 d' err)
    then show ?thesis using adv [OF unsent(1)] task_create_jobs [OF unsent(5)] by (simp add: job_actions_def)
  next
    case (fired w1 d j2 i w3 created w4 d' q)
    then show ?thesis using adv [OF fired(1)] task_create_jobs [OF fired(5)] by (auto simp: job_actions_def)
  qed
  then show "job_actions (db w') \<subseteq> insert (action_type job, action_config job) (job_actions (db w))"
    "r = Inr (n, j') \<Longrightarrow> action_type j' = action_type job \<and> action_config j' = action_config job" by blast+
qed

subsection \<open>Every stored action is valid\<close>

definition actions_valid :: "(json \<Rightarrow> int option) \<Rightarrow> 'q system \<Rightarrow> bool" where
  "actions_valid lax_int S \<longleftrightarrow>
     (\<forall>(a, c) \<in> job_actions (db (world S)). valid_action lax_int a c) \<and>
     (\<forall>i k j. job_cache (schedulers S i) k = Some j \<longrightarrow> valid_action lax_int (action_type j) (action_config j))"

lemma actions_valid_world:
  assumes "actions_valid lax_int S" "jobs (db w') = jobs (db (world S))"
  shows "actions_valid lax_int (S\<lparr>world := w'\<rparr>)"
  using assms by (simp add: actions_valid_def job_actions_def)

lemma sync_actions:
  assumes "\<forall>k j. job_cache s k = Some j \<longrightarrow> P j" "\<forall>j \<in> set (jobs (db w)). P j" "sync_jobs s w = (s', w')"
  shows "\<forall>k j. job_cache s' k = Some j \<longrightarrow> P j"
proof -
  obtain start w1 where n: "utcnow w = (start, w1)" by fastforce
  have db1: "db w1 = db w" using quietD(1) [OF quiet_utcnow [OF n]] .
  have "\<forall>k j. job_cache (fold sync_one js u) k = Some j \<longrightarrow> P j"
    if "set js \<subseteq> set (jobs (db w))" "\<forall>k j. job_cache u k = Some j \<longrightarrow> P j" for js u
    using that
  proof (induction js arbitrary: u)
    case (Cons x js)
    have "\<forall>k j. job_cache (sync_one x u) k = Some j \<longrightarrow> P j"
      using Cons.prems assms(2) by (auto simp: sync_one_cache split: if_splits)
    then show ?case using Cons by simp
  qed simp
  from this [of "list_updated_since (last_sync_at s) (db w)" s] show ?thesis
    using assms(1,3) n db1 by (auto simp: sync_jobs_def list_updated_since_def)
qed

lemma actions_valid_service:
  assumes st: "store_inv cfg (world S)" and step: "service_step cfg cr lax_int qc S S'" and ok: "actions_valid lax_int S"
  shows "actions_valid lax_int S'"
  using step
proof cases
  case (acts_create p r w')
  have "valid_action lax_int (p_action_type p) (p_action_config p)"
    using acts_create(2) by (auto simp: JobCreate_valid_def valid_action_def)
  then show ?thesis using ok create_job_actions [OF acts_create(3)] acts_create(1) unfolding actions_valid_def by auto
next
  case (acts_update p i r w')
  then show ?thesis using ok update_job_actions [OF acts_update(2) _ acts_update(3)] by (auto simp: actions_valid_def)
next
  case (acts_delete i r w')
  have "set (jobs (db w')) \<subseteq> set (jobs (db (world S)))"
    using acts_delete(2) by (auto simp: delete_job_def job_delete_def split: option.splits)
  then show ?thesis using ok acts_delete(1) unfolding actions_valid_def job_actions_def by auto
next
  case (acts_trigger i r w')
  then show ?thesis using actions_valid_world [OF ok] trigger_job_jobs by metis
next
  case (acts_retry t r w')
  then show ?thesis using actions_valid_world [OF ok] retry_task_jobs by metis
next
  case (acts_sync i s' w')
  have "\<forall>k j. job_cache s' k = Some j \<longrightarrow> valid_action lax_int (action_type j) (action_config j)"
    by (rule sync_actions [OF _ _ acts_sync(2)]) (use ok in \<open>auto simp: actions_valid_def job_actions_def\<close>)
  moreover have "jobs (db w') = jobs (db (world S))" using quiet_jobs sync_jobs_frame [OF acts_sync(2)] by blast
  ultimately show ?thesis using ok acts_sync(1) by (auto simp: actions_valid_def job_actions_def split: if_splits)
next
  case (acts_recover r w')
  then show ?thesis using actions_valid_world [OF ok] recover_orphans_run [OF st acts_recover(2)] by simp
next
  case (acts_pop i)
  then show ?thesis using ok by (auto simp: actions_valid_def split: if_splits)
next
  case (acts_fire i k job now n job' w')
  note D = dispatch_job_actions [OF acts_fire(3)]
  have "valid_action lax_int (action_type job) (action_config job)" using ok acts_fire(2) by (simp add: actions_valid_def)
  then show ?thesis using ok D(1) D(2) [OF refl] acts_fire(1)
    unfolding actions_valid_def by (auto simp: rescheduled_cache split: if_splits)
next
  case (acts_misfire i k job now e w')
  have "valid_action lax_int (action_type job) (action_config job)" using ok acts_misfire(2) by (simp add: actions_valid_def)
  then show ?thesis using ok dispatch_job_actions(1) [OF acts_misfire(3)] acts_misfire(1) unfolding actions_valid_def by auto
next
  case (acts_mark t d)
  then show ?thesis using actions_valid_world [OF ok] task_write_SomeD by (fastforce simp: mark_processed_for_chaining_def)
next
  case (acts_chain latest ups j r w')
  then show ?thesis using actions_valid_world [OF ok] dispatch_if_ready_jobs by metis
next
  case (acts_restart i)
  then show ?thesis using ok by (auto simp: actions_valid_def new_scheduler_def split: if_splits)
next
  case (acts_tick now w')
  then show ?thesis using actions_valid_world [OF ok] draw_jobs(2) by metis
qed

lemma actions_valid_process:
  assumes st: "store_inv cfg (world S)" and step: "process_step cfg cr lax_int qc S S'" and ok: "actions_valid lax_int S"
  shows "actions_valid lax_int S'"
  using step
proof cases
  case service_acts
  then show ?thesis using actions_valid_service [OF st _ ok] by blast
next
  case (acts_claim wk t r w')
  then show ?thesis using actions_valid_world [OF ok] claim_task_jobs by metis
next
  case (acts_beat wk t)
  then show ?thesis using actions_valid_world [OF ok] heartbeat_jobs by metis
next
  case (acts_record t j res r w')
  then show ?thesis using actions_valid_world [OF ok] record_result_jobs by metis
next
  case (acts_abandon now w1 t d)
  then show ?thesis using actions_valid_world [OF ok] finish_task_jobs by (simp add: mark_failed_def)
qed

lemma actions_valid_step:
  assumes "store_inv cfg (world S)" "system_step cfg cr lax_int qc S S'" "actions_valid lax_int S"
  shows "actions_valid lax_int S'"
  using assms(2)
proof cases
  case processes_act
  then show ?thesis using actions_valid_process assms(1,3) by blast
next
  case (messages_move p q)
  then show ?thesis using actions_valid_world [OF assms(3)] by simp
qed

lemma reachable_actions_valid:
  assumes adv: "croniter_advances cr" and start: "store_inv cfg w0" and ok0: "actions_valid lax_int (initial_system w0)"
    and "system_reachable cfg cr lax_int qc w0 S"
  shows "actions_valid lax_int S"
  using assms(4)
proof (induction rule: system_reachable.induct)
  case (system_next S S')
  have "store_inv cfg (world S)" using system_reachable_inv [OF adv start system_next(1)] by (simp add: system_inv_def)
  then show ?case using actions_valid_step system_next by blast
qed (rule ok0)

lemma JobRead_stored:
  assumes "actions_valid lax_int S" "store_inv cfg (world S)" "j \<in> set (jobs (db (world S)))"
  shows "JobRead lax_int (db (world S)) j = Inr (job_fields (db (world S)) j)"
proof -
  have "valid_action lax_int (action_type j) (action_config j)" using assms(1,3) by (auto simp: actions_valid_def job_actions_def)
  moreover have "job_ok j" using assms(2,3) by (simp add: store_inv_def db_wf_def)
  ultimately show ?thesis by (simp add: JobRead_def job_ok_def)
qed

lemma job_get_in: "job_get i d = Some j \<Longrightarrow> j \<in> set (jobs d)"
  using get_job_row_SomeD by (fastforce simp: job_get_def)

lemma update_job_returns_row:
  assumes "update_job cfg cr lax_int qc i p w = (Inr j, w')"
  shows "j \<in> set (jobs (db w'))"
  using assms
proof (cases rule: update_job_cases)
  case (stored j0 s spec now w1 w2 d j2 j4)
  let ?j = "j2\<lparr>runtime_spec := spec\<rparr>"
  obtain r4 w4 where d4: "dispatch_if_one_time qc j4 (w2\<lparr>db := d\<rparr>) = (r4, w4)" by fastforce
  have j: "j = j4" and w': "w' = w4 \<or> w' = w2\<lparr>db := d\<rparr>" using stored(8) d4 by (auto split: if_splits sum.splits)
  obtain d0 where "job_update now ?j d0 = Inr d" using stored(6) by (auto simp: store_update_def split: if_splits sum.splits)
  then obtain r where "get_job_row d (jid ?j) = Some r" using job_update_row by blast
  then have "j4 \<in> set (jobs d)" using stored(7) job_get_in by (auto simp: refreshed_def job_get_def)
  then show ?thesis using j w' dispatch_if_one_time_jobs [OF d4] by auto
qed simp

text \<open>A path parameter that is no UUID is an internal error on every route, and the request changes nothing; an
  identifier the API has answered with passes unchanged.\<close>

lemma malformed_id_is_internal_error:
  assumes "uuid_of_str raw = None"
  shows "status_code (get_job_endpoint lax_int raw d) = 500" "status_code (list_job_tasks_route raw d) = 500"
    "status_code (get_task_route raw d) = 500" "at_path raw f w = (Inl ValueError, w)"
    "JobUpdate_valid p \<Longrightarrow> put_job cfg cr lax_int qc raw p w = (Inl ValueError, w)"
  using assms
  by (simp_all add: get_job_endpoint_def list_job_tasks_route_def get_task_route_def put_job_def at_path_def read_at_path_def
      path_id_def status_code_def)

lemma canonical_id_passes:
  "at_path (uuid_str u) f w = f (uuid_str u) w" "read_at_path (uuid_str u) g d = g (uuid_str u) d"
  by (simp_all add: at_path_def read_at_path_def)

lemma get_job_status:
  assumes "uuid_of_str raw = Some u" "\<And>j. j \<in> set (jobs d) \<Longrightarrow> JobRead lax_int d j = Inr (job_fields d j)"
  shows "status_code (get_job_endpoint lax_int raw d) = (if uuid_str u \<in> job_ids d then 200 else 404)"
proof (cases "job_get (uuid_str u) d")
  case None
  then have "uuid_str u \<notin> job_ids d" using get_job_row_None_iff [of d "uuid_str u"] by (simp add: job_get_def)
  then show ?thesis using assms(1) None by (simp add: get_job_endpoint_def read_at_path_def path_id_def get_job_def status_code_def)
next
  case (Some j)
  then have "uuid_str u \<in> job_ids d" using get_job_row_None_iff [of d "uuid_str u"] by (auto simp: job_get_def)
  then show ?thesis using assms(1) assms(2) [OF job_get_in [OF Some]] Some
    by (simp add: get_job_endpoint_def read_at_path_def path_id_def get_job_def status_code_def)
qed


text \<open>A service with UUIDs and one job, read by another spelling of its identifier and by a string that is none.\<close>

definition guid_world :: "mem_queue world" where
  "guid_world = initial_world (\<lambda>n. seconds (int n)) uuid_stream"

definition guid_system :: "mem_queue system" where
  "guid_system = (initial_system guid_world)\<lparr>world := snd (create_job default_settings minutely MemoryQueueClient once_payload guid_world)\<rparr>"

lemma guid_start: "store_inv default_settings guid_world" "actions_valid strict_int (initial_system guid_world)"
  by (simp_all only: guid_world_def initial_store_inv [OF uuid_stream_inj])
    (simp add: actions_valid_def initial_system_def initial_world_def job_actions_def new_scheduler_def)

lemma guid_reachable: "system_reachable default_settings minutely strict_int MemoryQueueClient guid_world guid_system"
proof -
  obtain r w' where c: "create_job default_settings minutely MemoryQueueClient once_payload guid_world = (r, w')" by fastforce
  have "system_step default_settings minutely strict_int MemoryQueueClient (initial_system guid_world) guid_system"
    unfolding guid_system_def c snd_conv
    by (rule api_creates [where p = once_payload]) (use c once_payload_valid in \<open>simp_all add: initial_system_def\<close>)
  then show ?thesis by (rule system_next [OF system_start])
qed

lemma guid_job:
  "uuid_of_str ''{00000000-0000-0000-0000-000000000000}'' = Some 0" "uuid_of_str ''x'' = None"
  "uuid_str 0 \<in> job_ids (db (world guid_system))"
  by code_simp+


end
