(* ===== verification/Load_Scripts.thy ===== *)
theory Load_Scripts
  imports Responses
begin

text \<open>
  The load generators under \<open>scripts/\<close> as clients of the modelled API: \<open>load_gen.py\<close>, \<open>retry_gen.py\<close>
  and \<open>sched_gen.py\<close>. A request is delivered, is lost on its way, or loses its answer after the server
  has worked; an exception of the HTTP client is one of the latter two. The requests of one script run
  concurrently: the order in which they reach the server is a parameter, as are the random suffixes of
  the names. Progress output is left out. A payload is the record of the fields its dictionary names,
  with the defaults of \<open>JobBase\<close> for the others.
\<close>

subsection \<open>Requests\<close>

datatype delivery = delivered | request_lost | answer_lost

text \<open>\<open>None\<close> is an exception in the client.\<close>

definition request :: "delivery \<Rightarrow> ('w \<Rightarrow> 'a result \<times> 'w) \<Rightarrow> 'w \<Rightarrow> 'a result option \<times> 'w" where
  "request dl endpoint w =
     (case dl of
        delivered \<Rightarrow> (case endpoint w of (r, w') \<Rightarrow> (Some r, w'))
      | request_lost \<Rightarrow> (None, w)
      | answer_lost \<Rightarrow> (None, snd (endpoint w)))"

text \<open>\<open>f"{prefix}-{i:08d}-{uuid.uuid4().hex[:6]}"\<close>.\<close>

definition zero_pad :: "nat \<Rightarrow> string \<Rightarrow> string" where
  "zero_pad n s = replicate (n - length s) (CHR ''0'') @ s"

definition job_name :: "string \<Rightarrow> (nat \<Rightarrow> string) \<Rightarrow> nat \<Rightarrow> string" where
  "job_name prefix hex i = prefix @ ''-'' @ zero_pad 8 (show_nat i) @ ''-'' @ take 6 (hex i)"

subsection \<open>load_gen.py\<close>

definition shell_payload :: "string \<Rightarrow> int \<Rightarrow> string option \<Rightarrow> string \<Rightarrow> job_create_payload" where
  "shell_payload command retries cron nm =
     \<lparr>p_name = nm, p_cron_expression = cron, p_action_type = ''shell'',
      p_action_config = JObj [(''command'', JStr command), (''timeout_seconds'', JInt 5)],
      p_enabled = True, p_concurrency_policy = allow, p_max_retries = retries,
      p_upstream_job_ids = [], p_downstream_job_ids = []\<rparr>"

definition load_payload :: "string \<Rightarrow> job_create_payload" where
  "load_payload = shell_payload ''echo load-gen'' 3 None"

text \<open>What the client learns: the identifier, the status of a refusal, or nothing.\<close>

datatype creation = created_job_id uuid | http_error nat | no_answer

definition create_one ::
    "settings \<Rightarrow> croniter \<Rightarrow> (json \<Rightarrow> int option) \<Rightarrow> 'q queue_client \<Rightarrow> delivery \<Rightarrow> job_create_payload \<Rightarrow> 'q world \<Rightarrow>
     creation \<times> 'q world" where
  "create_one cfg cr lax_int qc dl p w =
     (case request dl (post_job cfg cr lax_int qc p) w of
        (None, w') \<Rightarrow> (no_answer, w')
      | (Some (Inr r), w') \<Rightarrow> (created_job_id (r_id r), w')
      | (Some (Inl e), w') \<Rightarrow> (http_error (status_code (Inl e :: unit result)), w'))"

definition trigger_one :: "'q queue_client \<Rightarrow> delivery \<Rightarrow> uuid \<Rightarrow> 'q world \<Rightarrow> bool \<times> 'q world" where
  "trigger_one qc dl i w =
     (case request dl (trigger_endpoint qc i) w of
        (Some r, w') \<Rightarrow> (status_code r = 200, w')
      | (None, w') \<Rightarrow> (False, w'))"

record bulk =
  succeeded :: nat
  failed_requests :: nat
  created_ids :: "uuid list"

definition new_bulk :: bulk where
  "new_bulk = \<lparr>succeeded = 0, failed_requests = 0, created_ids = []\<rparr>"

fun bulk_create ::
    "settings \<Rightarrow> croniter \<Rightarrow> (json \<Rightarrow> int option) \<Rightarrow> 'q queue_client \<Rightarrow> (nat \<Rightarrow> delivery) \<Rightarrow> (nat \<Rightarrow> job_create_payload) \<Rightarrow>
     nat list \<Rightarrow> bulk \<Rightarrow> 'q world \<Rightarrow> bulk \<times> 'q world" where
  "bulk_create cfg cr lax_int qc dl payload [] b w = (b, w)"
| "bulk_create cfg cr lax_int qc dl payload (i # order) b w =
     (case create_one cfg cr lax_int qc (dl i) (payload i) w of
        (created_job_id j, w') \<Rightarrow>
          bulk_create cfg cr lax_int qc dl payload order
            (b\<lparr>succeeded := Suc (succeeded b), created_ids := created_ids b @ [j]\<rparr>) w'
      | (_, w') \<Rightarrow>
          bulk_create cfg cr lax_int qc dl payload order (b\<lparr>failed_requests := Suc (failed_requests b)\<rparr>) w')"

fun bulk_trigger :: "'q queue_client \<Rightarrow> (uuid \<Rightarrow> delivery) \<Rightarrow> uuid list \<Rightarrow> nat \<Rightarrow> nat \<Rightarrow> 'q world \<Rightarrow> (nat \<times> nat) \<times> 'q world" where
  "bulk_trigger qc dl [] ok fail w = ((ok, fail), w)"
| "bulk_trigger qc dl (i # ids) ok fail w =
     (case trigger_one qc (dl i) i w of
        (True, w') \<Rightarrow> bulk_trigger qc dl ids (Suc ok) fail w'
      | (False, w') \<Rightarrow> bulk_trigger qc dl ids ok (Suc fail) w')"

text \<open>\<open>amain()\<close>: the exit code, the created identifiers, and the world. \<open>up\<close> is the answer of \<open>/health\<close>; the order
  of the triggers is a parameter like that of the creations.\<close>

definition load_gen ::
    "settings \<Rightarrow> croniter \<Rightarrow> (json \<Rightarrow> int option) \<Rightarrow> 'q queue_client \<Rightarrow> bool \<Rightarrow> (nat \<Rightarrow> delivery) \<Rightarrow> (uuid \<Rightarrow> delivery) \<Rightarrow>
     string \<Rightarrow> (nat \<Rightarrow> string) \<Rightarrow> nat list \<Rightarrow> (uuid list \<Rightarrow> uuid list) \<Rightarrow> bool \<Rightarrow> 'q world \<Rightarrow> nat \<times> uuid list \<times> 'q world" where
  "load_gen cfg cr lax_int qc up dlc dlt prefix hex order torder trigger w =
     (if \<not> up then (1, [], w)
      else
        (let (b, w1) = bulk_create cfg cr lax_int qc dlc (\<lambda>i. load_payload (job_name prefix hex i)) order new_bulk w;
             ids = created_ids b
         in if trigger \<and> ids \<noteq> [] then (0, ids, snd (bulk_trigger qc dlt (torder ids) 0 0 w1)) else (0, ids, w1)))"

text \<open>The number of runs it announces.\<close>

definition expected_runs :: "nat \<Rightarrow> bool \<Rightarrow> nat" where
  "expected_runs n trigger = n * (if trigger then 2 else 1)"

subsection \<open>retry_gen.py\<close>

definition retry_payload :: "int \<Rightarrow> string \<Rightarrow> job_create_payload" where
  "retry_payload retries = shell_payload ''echo boom >&2; exit 1'' retries None"

definition create_and_trigger ::
    "settings \<Rightarrow> croniter \<Rightarrow> (json \<Rightarrow> int option) \<Rightarrow> 'q queue_client \<Rightarrow> delivery \<Rightarrow> delivery \<Rightarrow> job_create_payload \<Rightarrow>
     'q world \<Rightarrow> bool \<times> 'q world" where
  "create_and_trigger cfg cr lax_int qc dlc dlt p w =
     (case create_one cfg cr lax_int qc dlc p w of
        (created_job_id i, w') \<Rightarrow> trigger_one qc dlt i w'
      | (_, w') \<Rightarrow> (False, w'))"

fun retry_work ::
    "settings \<Rightarrow> croniter \<Rightarrow> (json \<Rightarrow> int option) \<Rightarrow> 'q queue_client \<Rightarrow> (nat \<Rightarrow> delivery) \<Rightarrow> (nat \<Rightarrow> delivery) \<Rightarrow>
     (nat \<Rightarrow> job_create_payload) \<Rightarrow> nat list \<Rightarrow> nat \<Rightarrow> nat \<Rightarrow> 'q world \<Rightarrow> (nat \<times> nat) \<times> 'q world" where
  "retry_work cfg cr lax_int qc dlc dlt payload [] ok fail w = ((ok, fail), w)"
| "retry_work cfg cr lax_int qc dlc dlt payload (i # order) ok fail w =
     (case create_and_trigger cfg cr lax_int qc (dlc i) (dlt i) (payload i) w of
        (True, w') \<Rightarrow> retry_work cfg cr lax_int qc dlc dlt payload order (Suc ok) fail w'
      | (False, w') \<Rightarrow> retry_work cfg cr lax_int qc dlc dlt payload order ok (Suc fail) w')"

definition expected_fail_runs :: "nat \<Rightarrow> nat \<Rightarrow> nat" where
  "expected_fail_runs n retries = n * (retries + 1)"

subsection \<open>sched_gen.py\<close>

definition sched_payload :: "string \<Rightarrow> job_create_payload" where
  "sched_payload = shell_payload ''echo scheduled-load'' 0 (Some ''*/5 * * * *'')"

text \<open>The creation of the jobs; the identifiers of those that succeed are kept.\<close>

definition sched_gen ::
    "settings \<Rightarrow> croniter \<Rightarrow> (json \<Rightarrow> int option) \<Rightarrow> 'q queue_client \<Rightarrow> (nat \<Rightarrow> delivery) \<Rightarrow> string \<Rightarrow> (nat \<Rightarrow> string) \<Rightarrow>
     nat list \<Rightarrow> 'q world \<Rightarrow> uuid list \<times> 'q world" where
  "sched_gen cfg cr lax_int qc dl prefix hex order w =
     (let (b, w') = bulk_create cfg cr lax_int qc dl (\<lambda>i. sched_payload (job_name prefix hex i)) order new_bulk w
      in (created_ids b, w'))"

definition prefix_filter :: "string \<Rightarrow> job_filter" where
  "prefix_filter prefix = \<lparr>f_enabled = None, f_action_type = None, f_concurrency_policy = None, f_q = Some prefix\<rparr>"

lemma list_page:
  assumes "list_jobs_endpoint pg 100 f d = Inr r"
  shows "1 \<le> pg" "items r = take 100 (drop ((pg - 1) * 100) (selected f d))"
  using assms by (auto simp: list_jobs_endpoint_def list_paginated_def selected_def Let_def split: if_splits)

text \<open>\<open>_list_ids_by_prefix\<close>: pages of one hundred until a short one or a refusal.\<close>

function list_ids_from :: "string \<Rightarrow> database \<Rightarrow> nat \<Rightarrow> uuid list" where
  "list_ids_from prefix d pg =
     (case list_jobs_endpoint pg 100 (prefix_filter prefix) d of
        Inl e \<Rightarrow> []
      | Inr r \<Rightarrow>
          (if length (items r) < 100 then map jid (items r)
           else map jid (items r) @ list_ids_from prefix d (Suc pg)))"
  by auto

termination
proof (relation "measure (\<lambda>(prefix, d, pg). Suc (length (selected (prefix_filter prefix) d)) - (pg - 1) * 100)")
  fix prefix d pg r
  assume r: "list_jobs_endpoint pg 100 (prefix_filter prefix) d = Inr r" and l: "\<not> length (items r) < 100"
  have "(pg - 1) * 100 + 100 \<le> length (selected (prefix_filter prefix) d)" using list_page [OF r] l by auto
  then show "((prefix, d, Suc pg), prefix, d, pg) \<in>
      measure (\<lambda>(prefix, d, pg). Suc (length (selected (prefix_filter prefix) d)) - (pg - 1) * 100)"
    using list_page(1) [OF r] by (cases pg) auto
qed simp

declare list_ids_from.simps [simp del]

definition list_ids_by_prefix :: "string \<Rightarrow> database \<Rightarrow> uuid list" where
  "list_ids_by_prefix prefix d = list_ids_from prefix d 1"

definition delete_one :: "delivery \<Rightarrow> uuid \<Rightarrow> 'q world \<Rightarrow> bool \<times> 'q world" where
  "delete_one dl i w =
     (case request dl (delete_job_endpoint i) w of
        (Some r, w') \<Rightarrow> (status_code r \<in> {200, 204}, w')
      | (None, w') \<Rightarrow> (False, w'))"

text \<open>\<open>amain()\<close> with \<open>--cleanup\<close>; no prefix is refused.\<close>

definition cleanup :: "(uuid \<Rightarrow> delivery) \<Rightarrow> (uuid list \<Rightarrow> uuid list) \<Rightarrow> string option \<Rightarrow> 'q world \<Rightarrow> nat \<times> 'q world" where
  "cleanup dl order prefix w =
     (case prefix of
        None \<Rightarrow> (1, w)
      | Some p \<Rightarrow>
          if p = [] then (1, w)
          else (0, fold (\<lambda>i w. snd (delete_one (dl i) i w)) (order (list_ids_by_prefix p (db w))) w))"

subsection \<open>Names\<close>

lemma digits_val_zeros: "digits_val 0 b (replicate n (CHR ''0'') @ show_nat i) = Some i"
proof (induction n arbitrary: b)
  case 0
  show ?case using digits_val_show_nat [of 0 b i "[]"] by simp
next
  case (Suc n)
  then show ?case by (simp add: is_digit_def Let_def)
qed

lemma zero_pad_digits: "\<forall>c \<in> set (zero_pad n (show_nat i)). is_digit c"
  using show_nat_digits [of i] by (auto simp: zero_pad_def is_digit_def Let_def)

lemma job_name_inj:
  assumes "job_name prefix hex i = job_name prefix hex k"
  shows "i = k"
proof -
  have take_digits: "takeWhile is_digit (zero_pad 8 (show_nat m) @ CHR ''-'' # r) = zero_pad 8 (show_nat m)" for m r
    using zero_pad_digits [of 8 m] by (simp add: takeWhile_append2 takeWhile_tail is_digit_def Let_def)
  have "zero_pad 8 (show_nat i) @ CHR ''-'' # take 6 (hex i) = zero_pad 8 (show_nat k) @ CHR ''-'' # take 6 (hex k)"
    using assms by (simp add: job_name_def)
  then have "zero_pad 8 (show_nat i) = zero_pad 8 (show_nat k)" using take_digits by metis
  then show ?thesis using digits_val_zeros [of False] unfolding zero_pad_def by (metis option.inject)
qed

subsection \<open>One request\<close>

text \<open>A payload of a job that runs at once.\<close>

definition one_time :: "settings \<Rightarrow> (json \<Rightarrow> int option) \<Rightarrow> job_create_payload \<Rightarrow> bool" where
  "one_time cfg lax_int p \<longleftrightarrow>
     JobCreate_valid lax_int p \<and> p_cron_expression p = None \<and> p_enabled p \<and>
     p_upstream_job_ids p = [] \<and> p_downstream_job_ids p = [] \<and>
     (\<exists>spec. build_runtime_spec cfg (Some (p_action_type p)) (p_action_config p) = Inr spec)"

definition fresh_name :: "job_create_payload \<Rightarrow> database \<Rightarrow> bool" where
  "fresh_name p d \<longleftrightarrow> p_name p \<notin> name ` set (jobs d)"

text \<open>What a burst of requests adds to the store: jobs, and pending on-demand tasks of the given jobs.\<close>

definition burst :: "'q world \<Rightarrow> 'q world \<Rightarrow> job list \<Rightarrow> uuid list \<Rightarrow> bool" where
  "burst w w' js ids \<longleftrightarrow>
     jobs (db w') = jobs (db w) @ js \<and>
     (\<exists>ts. tasks (db w') = tasks (db w) @ ts \<and> map task_job_id ts = ids \<and>
        (\<forall>t \<in> set ts. status t = pending \<and> trigger_type t = manual \<and> retry_count t = 0))"

lemma burst_refl [simp]: "burst w w [] []"
  by (simp add: burst_def)

lemma burst_trans: "burst w w1 js ids \<Longrightarrow> burst w1 w2 js' ids' \<Longrightarrow> burst w w2 (js @ js') (ids @ ids')"
  unfolding burst_def by fastforce

text \<open>The normal queue has got one message for each of the new tasks, and no other.\<close>

definition new_messages :: "('q \<Rightarrow> string multiset) \<Rightarrow> 'q world \<Rightarrow> 'q world \<Rightarrow> bool" where
  "new_messages waiting w w' \<longleftrightarrow>
     (\<exists>ts. tasks (db w') = tasks (db w) @ ts \<and>
        waiting (normal_queue w') = waiting (normal_queue w) + mset (map (\<lambda>t. task_body (tid t)) ts))"

lemma new_messages_refl [simp]: "new_messages waiting w w"
  by (simp add: new_messages_def)

lemma new_messages_trans: "new_messages waiting w w1 \<Longrightarrow> new_messages waiting w1 w2 \<Longrightarrow> new_messages waiting w w2"
  unfolding new_messages_def by (fastforce simp: ac_simps)

lemma new_messages_one:
  "tasks (db w') = tasks (db w) @ [t] \<Longrightarrow> waiting (normal_queue w') = add_mset (task_body (tid t)) (waiting (normal_queue w)) \<Longrightarrow>
   new_messages waiting w w'"
  by (simp add: new_messages_def)

lemma burst_fresh:
  assumes "burst w w' [j] ids" "name j = p_name (payload i)" "distinct (map (\<lambda>i. p_name (payload i)) (i # order))"
    and "\<forall>k \<in> set (i # order). one_time cfg lax_int (payload k) \<and> fresh_name (payload k) (db w)"
  shows "\<forall>k \<in> set order. one_time cfg lax_int (payload k) \<and> fresh_name (payload k) (db w')"
proof
  fix k assume k: "k \<in> set order"
  then have "p_name (payload k) \<in> (\<lambda>i. p_name (payload i)) ` set order" by (rule imageI)
  moreover have "p_name (payload i) \<notin> (\<lambda>i. p_name (payload i)) ` set order" using assms(3) by simp
  ultimately have "p_name (payload k) \<noteq> name j" using assms(2) by metis
  then show "one_time cfg lax_int (payload k) \<and> fresh_name (payload k) (db w')"
    using assms(1,4) k by (simp add: burst_def fresh_name_def)
qed

context reliable_queue
begin

lemma one_time_created:
  assumes inv: "store_inv cfg w" and p: "one_time cfg lax_int p" and fresh: "fresh_name p (db w)"
  shows "\<exists>j w'. create_job cfg cr client p w = (Inr j, w') \<and> name j = p_name p \<and> max_retries j = p_max_retries p \<and>
    burst w w' [j] [jid j] \<and> new_messages waiting w w' \<and> store_inv cfg w'"
proof -
  obtain spec where spec: "build_runtime_spec cfg (Some (p_action_type p)) (p_action_config p) = Inr spec"
    using p by (auto simp: one_time_def)
  have p': "p_cron_expression p = None" "p_enabled p" "p_upstream_job_ids p = []" "p_downstream_job_ids p = []" "0 \<le> p_max_retries p"
    using p by (auto simp: one_time_def JobCreate_valid_def)
  obtain i w2 where u: "uuid4 w = (i, w2)" by fastforce
  obtain now w3 where n: "utcnow w2 = (now, w3)" by fastforce
  have q: "quiet w w3" using quiet_trans [OF quiet_uuid4 [OF u] quiet_utcnow [OF n]] .
  have fr: "uuids_fresh w" and dag: "acyclic (set (job_dependencies (db w)))" using inv by (simp_all add: store_inv_def dag_def)
  let ?j = "created_job p (normal, None, None) spec i now"
  define d where "d = (db w)\<lparr>jobs := jobs (db w) @ [?j]\<rparr>"
  have none: "created_edges p i (db w) = []" using p' by (simp add: created_edges_def jobs_by_id_def)
  have new: "i \<notin> job_ids (db w)" using uuid4_new [OF fr u] by simp
  have "job_create ?j [] (db w) = Inr d"
    using new fresh by (force simp: job_create_def d_def fresh_name_def name_taken_def created_job_def)
  moreover have "\<not> circular i d" using dag by (simp add: circular_iff d_def acyclic_def)
  moreover have "store_inv cfg (w3\<lparr>db := d\<rparr>)"
    by (rule stored_job_inv [OF inv quiet_refl u quiet_utcnow [OF n], where j = ?j and p = p])
      (use calculation p'(5) spec none in \<open>auto simp: created_job_def job_ok_def spec_derived_def\<close>)
  moreover obtain r4 w4 where d4: "dispatch_if_one_time client ?j (w3\<lparr>db := d\<rparr>) = (r4, w4)" by fastforce
  ultimately have "r4 = Inr ()" using dispatch_if_one_time_sent [OF _ _ d4]
    by (auto simp: store_inv_def d_def job_ids_def)
  then have c: "create_job cfg cr client p w = (Inr ?j, w4)"
    using p'(1) spec u n q none \<open>job_create ?j [] (db w) = Inr d\<close> \<open>\<not> circular i d\<close> d4
    by (simp add: create_job_def resolve_schedule_def strip_def quietD)
  have up: "upstream_job_ids (db w4) i = []"
  proof -
    have "set (job_dependencies (db w4)) = set (job_dependencies (db w))"
      using create_job_outcome [OF inv p'(5) c] p' by simp
    moreover have "(x, i) \<notin> set (job_dependencies (db w))" for x using new inv by (auto simp: store_inv_def db_wf_def fks_ok_def)
    ultimately show ?thesis by (auto simp: upstream_job_ids_def filter_empty_conv)
  qed
  have "\<exists>t. tasks (db w4) = tasks (db w) @ [t] \<and> t = new_task (tid t) i manual 0 (tcreated_at t) \<and>
      waiting (normal_queue w4) = add_mset (task_body (tid t)) (waiting (normal_queue w))"
    using create_job_outcome [OF inv p'(5) c] up p'(2) by (auto simp: created_job_def)
  then obtain t where t: "tasks (db w4) = tasks (db w) @ [t]" "t = new_task (tid t) i manual 0 (tcreated_at t)"
    "waiting (normal_queue w4) = add_mset (task_body (tid t)) (waiting (normal_queue w))" by blast
  have "task_job_id t = i" "status t = pending" "trigger_type t = manual" "retry_count t = 0"
    by (subst t(2), simp)+
  then have "burst w w4 [?j] [i]" using t(1) create_job_outcome [OF inv p'(5) c] by (auto simp: burst_def)
  then show ?thesis using c new_messages_one [OF t(1,3)] create_job_store [OF inv p'(5) c] by (auto simp: created_job_def)
qed

lemma create_one_delivered:
  assumes inv: "store_inv cfg w" and p: "one_time cfg lax_int p" and fresh: "fresh_name p (db w)"
  shows "\<exists>j w'. create_one cfg cr lax_int client delivered p w = (created_job_id (jid j), w') \<and> name j = p_name p \<and>
    max_retries j = p_max_retries p \<and> burst w w' [j] [jid j] \<and> new_messages waiting w w' \<and> store_inv cfg w'"
proof -
  obtain j w' where c: "create_job cfg cr client p w = (Inr j, w')" "name j = p_name p" "burst w w' [j] [jid j]"
    "max_retries j = p_max_retries p" "new_messages waiting w w'" "store_inv cfg w'"
    using one_time_created [OF assms] by blast
  have v: "JobCreate_valid lax_int p" using p by (simp add: one_time_def)
  have "action_type j = p_action_type p \<and> action_config j = p_action_config p \<and> max_retries j = p_max_retries p"
    using c(1) by (cases rule: create_job_cases) (auto split: sum.splits)
  then have "post_job cfg cr lax_int client p w = (Inr (job_fields (db w') j), w')"
    using v c(1) by (simp add: post_job_def JobRead_def valid_action_def JobCreate_valid_def)
  then show ?thesis using c by (auto simp: create_one_def request_def job_fields_def)
qed

lemma trigger_one_delivered:
  assumes inv: "store_inv cfg w" and i: "i \<in> job_ids (db w)"
  shows "\<exists>w'. trigger_one client delivered i w = (True, w') \<and> burst w w' [] [i] \<and>
    new_messages waiting w w' \<and> store_inv cfg w'"
proof -
  obtain j where j: "job_get i (db w) = Some j" "jid j = i"
    using i get_job_row_None_iff [of "db w" i] get_job_row_SomeD by (fastforce simp: job_get_def)
  obtain r w' where e: "enqueue_task client i w = (r, w')" by fastforce
  have fr: "uuids_fresh w" using inv by (simp add: store_inv_def)
  obtain t where t: "r = Inr t" "runs_once i (db w) (db w') t"
    "waiting (normal_queue w') = add_mset (task_body (tid t)) (waiting (normal_queue w))"
    using enqueue_task_sent [OF fr i e] by blast
  have tj: "trigger_job client i w = (Inr t, w')" using j e t(1) by (simp add: trigger_job_def)
  have "t = new_task (tid t) i manual 0 (tcreated_at t)" using t(2) by (simp add: runs_once_def)
  then have "task_job_id t = i" "status t = pending" "trigger_type t = manual" "retry_count t = 0"
    by (metis new_task_sel)+
  then have "burst w w' [] [i]" using t(2) by (auto simp: burst_def runs_once_def)
  moreover have "trigger_one client delivered i w = (True, w')"
    using tj by (simp add: trigger_one_def request_def trigger_endpoint_def status_code_def)
  moreover have "new_messages waiting w w'" by (rule new_messages_one [OF _ t(3)]) (use t(2) in \<open>simp add: runs_once_def\<close>)
  ultimately show ?thesis using trigger_job_store [OF inv tj] by auto
qed

lemma bulk_create_delivered:
  assumes "store_inv cfg w" "\<forall>i \<in> set order. one_time cfg lax_int (payload i) \<and> fresh_name (payload i) (db w)"
    and "distinct (map (\<lambda>i. p_name (payload i)) order)"
  shows "\<exists>js w'. bulk_create cfg cr lax_int client (\<lambda>_. delivered) payload order b w =
      (b\<lparr>succeeded := succeeded b + length order, created_ids := created_ids b @ map jid js\<rparr>, w') \<and>
    map name js = map (\<lambda>i. p_name (payload i)) order \<and> burst w w' js (map jid js) \<and>
    new_messages waiting w w' \<and> store_inv cfg w'"
  using assms
proof (induction order arbitrary: b w)
  case (Cons i order)
  obtain j w1 where c: "create_one cfg cr lax_int client delivered (payload i) w = (created_job_id (jid j), w1)"
    "name j = p_name (payload i)" "burst w w1 [j] [jid j]"
    "new_messages waiting w w1" "store_inv cfg w1"
    using create_one_delivered [OF Cons.prems(1), of lax_int "payload i" cr] Cons.prems(2) by auto
  let ?b = "b\<lparr>succeeded := Suc (succeeded b), created_ids := created_ids b @ [jid j]\<rparr>"
  have "\<forall>k \<in> set order. one_time cfg lax_int (payload k) \<and> fresh_name (payload k) (db w1)"
    by (rule burst_fresh [OF c(3) c(2) Cons.prems(3,2)])
  from Cons.IH [OF c(5) this, of ?b] obtain js w2 where
    IH: "bulk_create cfg cr lax_int client (\<lambda>_. delivered) payload order ?b w1 =
      (?b\<lparr>succeeded := succeeded ?b + length order, created_ids := created_ids ?b @ map jid js\<rparr>, w2)"
    "map name js = map (\<lambda>i. p_name (payload i)) order" "burst w1 w2 js (map jid js)"
    "new_messages waiting w1 w2" "store_inv cfg w2"
    using Cons.prems(3) by auto
  show ?case
    by (rule exI [of _ "j # js"], rule exI [of _ w2]) (use c IH burst_trans [OF c(3) IH(3)] new_messages_trans [OF c(4) IH(4)] in simp)
qed (auto intro!: exI [of _ "[]"])

lemma bulk_trigger_delivered:
  assumes "store_inv cfg w" "set ids \<subseteq> job_ids (db w)"
  shows "\<exists>w'. bulk_trigger client (\<lambda>_. delivered) ids ok fail w = ((ok + length ids, fail), w') \<and> burst w w' [] ids \<and>
    new_messages waiting w w' \<and> store_inv cfg w'"
  using assms
proof (induction ids arbitrary: ok w)
  case (Cons i ids)
  obtain w1 where t: "trigger_one client delivered i w = (True, w1)" "burst w w1 [] [i]"
    "new_messages waiting w w1" "store_inv cfg w1"
    using trigger_one_delivered [OF Cons.prems(1)] Cons.prems(2) by auto
  have "set ids \<subseteq> job_ids (db w1)" using t(2) Cons.prems(2) by (simp add: burst_def job_ids_def)
  from Cons.IH [OF t(4) this, of "Suc ok"] obtain w2 where
    IH: "bulk_trigger client (\<lambda>_. delivered) ids (Suc ok) fail w1 = ((Suc ok + length ids, fail), w2)" "burst w1 w2 [] ids"
    "new_messages waiting w1 w2" "store_inv cfg w2" by blast
  then show ?case using t burst_trans [OF t(2) IH(2)] new_messages_trans [OF t(3) IH(3)] by (auto intro!: exI [of _ w2])
qed auto

lemma retry_work_delivered:
  assumes "store_inv cfg w" "\<forall>i \<in> set order. one_time cfg lax_int (payload i) \<and> fresh_name (payload i) (db w)"
    and "distinct (map (\<lambda>i. p_name (payload i)) order)"
  shows "\<exists>js w'. retry_work cfg cr lax_int client (\<lambda>_. delivered) (\<lambda>_. delivered) payload order ok fail w =
      ((ok + length order, fail), w') \<and>
    map name js = map (\<lambda>i. p_name (payload i)) order \<and>
    map max_retries js = map (\<lambda>i. p_max_retries (payload i)) order \<and>
    burst w w' js (concat (map (\<lambda>j. [jid j, jid j]) js)) \<and> store_inv cfg w'"
  using assms
proof (induction order arbitrary: ok w)
  case (Cons i order)
  obtain j w1 where c: "create_one cfg cr lax_int client delivered (payload i) w = (created_job_id (jid j), w1)"
    "name j = p_name (payload i)" "burst w w1 [j] [jid j]" "store_inv cfg w1" "max_retries j = p_max_retries (payload i)"
    using create_one_delivered [OF Cons.prems(1), of lax_int "payload i" cr] Cons.prems(2) by auto
  have "jid j \<in> job_ids (db w1)" using c(3) by (simp add: burst_def job_ids_def)
  then obtain w2 where t: "trigger_one client delivered (jid j) w1 = (True, w2)" "burst w1 w2 [] [jid j]" "store_inv cfg w2"
    using trigger_one_delivered [OF c(4)] by blast
  have b: "burst w w2 [j] [jid j, jid j]" using burst_trans [OF c(3) t(2)] by simp
  have "\<forall>k \<in> set order. one_time cfg lax_int (payload k) \<and> fresh_name (payload k) (db w2)"
    by (rule burst_fresh [OF b c(2) Cons.prems(3,2)])
  from Cons.IH [OF t(3) this, of "Suc ok"] obtain js w3 where
    IH: "retry_work cfg cr lax_int client (\<lambda>_. delivered) (\<lambda>_. delivered) payload order (Suc ok) fail w2 =
      ((Suc ok + length order, fail), w3)" "map name js = map (\<lambda>i. p_name (payload i)) order"
    "map max_retries js = map (\<lambda>i. p_max_retries (payload i)) order"
    "burst w2 w3 js (concat (map (\<lambda>j. [jid j, jid j]) js))" "store_inv cfg w3"
    using Cons.prems(3) by auto
  show ?case
    by (rule exI [of _ "j # js"], rule exI [of _ w3])
      (use c t IH burst_trans [OF b IH(4)] in \<open>simp add: create_and_trigger_def\<close>)
qed (auto intro!: exI [of _ "[]"])

end

lemma shell_payload_one_time:
  assumes "shell_execution_enabled cfg" "lax_int (JInt 5) = Some 5" "0 \<le> retries"
  shows "one_time cfg lax_int (shell_payload command retries None nm)"
  using assms by (simp add: one_time_def shell_payload_def JobCreate_valid_def action_config_valid_def
      ShellActionConfig_valid_def timeout_valid_def is_str_def jget_def build_runtime_spec_def shell_spec_def
      timeout_of_def py_int_def)

lemma load_payloads:
  fixes command :: string
  assumes "shell_execution_enabled cfg" "lax_int (JInt 5) = Some 5" "0 \<le> retries"
    and "\<forall>i \<in> set order. job_name prefix hex i \<notin> name ` set (jobs d)" "distinct order"
  defines "payload \<equiv> \<lambda>i. shell_payload command retries None (job_name prefix hex i)"
  shows "\<forall>i \<in> set order. one_time cfg lax_int (payload i) \<and> fresh_name (payload i) d"
    and "distinct (map (\<lambda>i. p_name (payload i)) order)"
    and "(\<lambda>i. p_name (payload i)) = job_name prefix hex"
proof -
  have n: "p_name (payload i) = job_name prefix hex i" for i by (simp add: payload_def shell_payload_def)
  show "\<forall>i \<in> set order. one_time cfg lax_int (payload i) \<and> fresh_name (payload i) d"
    using assms(4) shell_payload_one_time [where lax_int = lax_int, OF assms(1-3)] by (simp add: fresh_name_def n) (simp add: payload_def)
  show "(\<lambda>i. p_name (payload i)) = job_name prefix hex" by (simp add: n)
  have "inj (job_name prefix hex)" using job_name_inj by (rule injI)
  then show "distinct (map (\<lambda>i. p_name (payload i)) order)"
    using assms(5) by (simp add: n distinct_map inj_on_subset [OF _ subset_UNIV])
qed

lemma load_gen_burst:
  assumes "store_inv cfg w" "shell_execution_enabled cfg" "lax_int (JInt 5) = Some 5"
    and "distinct order" "\<forall>i \<in> set order. job_name prefix hex i \<notin> name ` set (jobs (db w))"
    and perm: "\<And>ids. mset (torder ids) = mset ids"
    and run: "load_gen cfg cr lax_int MemoryQueueClient True (\<lambda>_. delivered) (\<lambda>_. delivered) prefix hex order torder trigger w =
      (code, ids, w')"
  shows "\<exists>js runs. code = 0 \<and> ids = map jid js \<and> map name js = map (job_name prefix hex) order \<and> burst w w' js runs \<and>
    mset runs = repeat_mset (if trigger then 2 else 1) (mset (map jid js)) \<and>
    new_messages queued w w' \<and> store_inv cfg w'"
proof -
  let ?payload = "\<lambda>i. load_payload (job_name prefix hex i)"
  note P = load_payloads [where lax_int = lax_int and prefix = prefix and hex = hex and order = order and d = "db w" and
      retries = 3 and command = "''echo load-gen''", folded load_payload_def, OF assms(2,3) _ assms(5,4), simplified]
  obtain js w1 where c: "bulk_create cfg cr lax_int MemoryQueueClient (\<lambda>_. delivered) ?payload order new_bulk w =
      (new_bulk\<lparr>succeeded := succeeded new_bulk + length order, created_ids := created_ids new_bulk @ map jid js\<rparr>, w1)"
    "map name js = map (\<lambda>i. p_name (?payload i)) order" "burst w w1 js (map jid js)"
    "new_messages queued w w1" "store_inv cfg w1"
    using memq.bulk_create_delivered [OF assms(1) P(1,2), of cr new_bulk] by auto
  have names: "map name js = map (job_name prefix hex) order" using c(2) by (simp add: P(3))
  then have len: "length js = length order" by (metis length_map)
  show ?thesis
  proof (cases "trigger \<and> js \<noteq> []")
    case True
    have "set (torder (map jid js)) \<subseteq> job_ids (db w1)"
      using c(3) arg_cong [OF perm [of "map jid js"], of set_mset] by (auto simp: burst_def job_ids_def)
    then obtain w2 where t: "bulk_trigger MemoryQueueClient (\<lambda>_. delivered) (torder (map jid js)) 0 0 w1 =
        ((0 + length (torder (map jid js)), 0), w2)" "burst w1 w2 [] (torder (map jid js))"
      "new_messages queued w1 w2" "store_inv cfg w2"
      using memq.bulk_trigger_delivered [OF c(5)] by blast
    show ?thesis
      using run c t True len names burst_trans [OF c(3) t(2)] new_messages_trans [OF c(4) t(3)] perm [of "map jid js"]
      by (intro exI [of _ js] exI [of _ "map jid js @ torder (map jid js)"])
        (auto simp: load_gen_def new_bulk_def numeral_2_eq_2)
  next
    case False
    show ?thesis using run c False len names
      by (intro exI [of _ js] exI [of _ "map jid js"]) (auto simp: load_gen_def new_bulk_def)
  qed
qed

lemma burst_counts:
  assumes b: "burst w w' js runs" and wf: "db_wf (db w')" and m: "mset runs = repeat_mset k (mset (map jid js))"
  obtains ts where "jobs (db w') = jobs (db w) @ js" "tasks (db w') = tasks (db w) @ ts" "length ts = length js * k" "length runs = length ts"
    "\<forall>t \<in> set ts. status t = pending \<and> trigger_type t = manual \<and> retry_count t = 0"
    "\<forall>j \<in> set js. length (filter (\<lambda>t. task_job_id t = jid j) ts) = k"
proof -
  obtain ts where ts: "tasks (db w') = tasks (db w) @ ts" "map task_job_id ts = runs"
      "\<forall>t \<in> set ts. status t = pending \<and> trigger_type t = manual \<and> retry_count t = 0" "jobs (db w') = jobs (db w) @ js"
    using b by (auto simp: burst_def)
  have "distinct (map jid (jobs (db w')))" using wf by (simp add: db_wf_def keys_ok_def)
  then have dist: "distinct (map jid js)" using ts(4) by simp
  have "length (filter (\<lambda>t. task_job_id t = jid j) ts) = k" if "j \<in> set js" for j
  proof -
    have "length (filter (\<lambda>t. task_job_id t = jid j) ts) = count (mset runs) (jid j)"
      unfolding ts(2) [symmetric] by (simp add: count_mset count_list_eq_length_filter filter_map comp_def eq_commute del: mset_map)
    also have "\<dots> = k" using that dist by (simp add: m distinct_count_atmost_1)
    finally show ?thesis .
  qed
  moreover have "length runs = length ts" using ts(2) by auto
  moreover have "length runs = length js * k" using arg_cong [OF m, of size] by simp
  ultimately show ?thesis using ts that by metis
qed

text \<open>(C39) \<open>load_gen.py\<close> does what it announces: when every request is delivered and the names are new, it
  stores exactly one job per number, its report lists exactly their identifiers, and every job has one
  pending on-demand task, or two with \<open>--trigger\<close>: the announced number of runs. The normal queue has got
  the message of each of these tasks, and no other. The order in which the concurrent requests arrive does not matter.\<close>

theorem load_gen_exact:
  assumes "store_inv cfg w" "shell_execution_enabled cfg" "lax_int (JInt 5) = Some 5"
    and "distinct order" "\<forall>i \<in> set order. job_name prefix hex i \<notin> name ` set (jobs (db w))"
    and perm: "\<And>ids. mset (torder ids) = mset ids"
    and run: "load_gen cfg cr lax_int MemoryQueueClient True (\<lambda>_. delivered) (\<lambda>_. delivered) prefix hex order torder trigger w =
      (code, ids, w')"
  shows "\<exists>js ts. code = 0 \<and> ids = map jid js \<and> map name js = map (job_name prefix hex) order \<and>
    jobs (db w') = jobs (db w) @ js \<and> tasks (db w') = tasks (db w) @ ts \<and>
    (\<forall>t \<in> set ts. status t = pending \<and> trigger_type t = manual \<and> retry_count t = 0) \<and>
    (\<forall>j \<in> set js. length (filter (\<lambda>t. task_job_id t = jid j) ts) = (if trigger then 2 else 1)) \<and>
    length ts = expected_runs (length order) trigger \<and>
    queued (normal_queue w') = queued (normal_queue w) + mset (map (\<lambda>t. task_body (tid t)) ts) \<and> store_inv cfg w'"
proof -
  obtain js runs where r: "code = 0" "ids = map jid js" "map name js = map (job_name prefix hex) order" "burst w w' js runs"
      "mset runs = repeat_mset (if trigger then 2 else 1) (mset (map jid js))"
      "new_messages queued w w'" "store_inv cfg w'"
    using load_gen_burst [OF assms] by blast
  have wf: "db_wf (db w')" using r(7) by (simp add: store_inv_def)
  have len: "length js = length order" using r(3) by (metis length_map)
  obtain ts where "jobs (db w') = jobs (db w) @ js" "tasks (db w') = tasks (db w) @ ts"
    "length ts = expected_runs (length order) trigger" "length runs = length ts"
    "\<forall>t \<in> set ts. status t = pending \<and> trigger_type t = manual \<and> retry_count t = 0"
    "\<forall>j \<in> set js. length (filter (\<lambda>t. task_job_id t = jid j) ts) = (if trigger then 2 else 1)"
    using burst_counts [OF r(4) wf r(5)] unfolding expected_runs_def len by blast
  moreover from this(2) have "queued (normal_queue w') = queued (normal_queue w) + mset (map (\<lambda>t. task_body (tid t)) ts)"
    using r(6) by (auto simp: new_messages_def)
  ultimately show ?thesis using r by (intro exI [of _ js] exI [of _ ts]) simp
qed

theorem load_gen_exact_witness:
  "\<exists>ids w'. load_gen default_settings minutely strict_int MemoryQueueClient True (\<lambda>_. delivered) (\<lambda>_. delivered)
       ''load'' (\<lambda>_. ''0a1b2c3d'') [1, 0] rev True sample_world = (0, ids, w') \<and>
     length ids = 2 \<and> length (tasks (db w')) = 4 \<and> map name (jobs (db w')) = [''load-00000001-0a1b2c'', ''load-00000000-0a1b2c'']"
proof -
  obtain code ids w' where run: "load_gen default_settings minutely strict_int MemoryQueueClient True (\<lambda>_. delivered)
      (\<lambda>_. delivered) ''load'' (\<lambda>_. ''0a1b2c3d'') [1, 0] rev True sample_world = (code, ids, w')"
    using prod_cases3 by blast
  have empty: "jobs (db sample_world) = []" "tasks (db sample_world) = []" by (simp_all add: sample_world_def initial_world_def)
  have names: "job_name ''load'' (\<lambda>_. ''0a1b2c3d'') 1 = ''load-00000001-0a1b2c''"
    "job_name ''load'' (\<lambda>_. ''0a1b2c3d'') 0 = ''load-00000000-0a1b2c''" by code_simp+
  have shell: "shell_execution_enabled default_settings" by (simp add: default_settings_def)
  obtain js ts where r: "code = 0" "ids = map jid js" "map name js = map (job_name ''load'' (\<lambda>_. ''0a1b2c3d'')) [1, 0]"
    "jobs (db w') = js" "tasks (db w') = ts" "length ts = expected_runs (length [1, 0 :: nat]) True"
    using load_gen_exact [OF sample_store_inv shell _ _ _ _ run] by (force simp: strict_int_def empty)
  have "length ids = 2" using r(2,3) by (metis length_map length_Cons list.size(3) numeral_2_eq_2)
  then show ?thesis using run r names by (auto simp: expected_runs_def)
qed

text \<open>\<open>retry_gen.py\<close> announces one run per job that ends as failed for good. The creation has already started
  one run of the one-time job, so every job has two: its script's trigger adds the second.\<close>

lemma retry_gen_runs_twice:
  assumes "store_inv cfg w" "shell_execution_enabled cfg" "lax_int (JInt 5) = Some 5" "0 \<le> retries"
    and "distinct order" "\<forall>i \<in> set order. job_name prefix hex i \<notin> name ` set (jobs (db w))"
  shows "\<exists>js w'. retry_work cfg cr lax_int MemoryQueueClient (\<lambda>_. delivered) (\<lambda>_. delivered)
      (\<lambda>i. retry_payload retries (job_name prefix hex i)) order 0 0 w = ((length order, 0), w') \<and>
    length js = length order \<and> (\<forall>j \<in> set js. max_retries j = retries) \<and>
    burst w w' js (concat (map (\<lambda>j. [jid j, jid j]) js)) \<and> store_inv cfg w'"
proof -
  note P = load_payloads [where lax_int = lax_int and prefix = prefix and hex = hex and order = order and d = "db w" and
      retries = retries and command = "''echo boom >&2; exit 1''", folded retry_payload_def, OF assms(2-4,6,5)]
  let ?payload = "\<lambda>i. retry_payload retries (job_name prefix hex i)"
  obtain js w' where r: "retry_work cfg cr lax_int MemoryQueueClient (\<lambda>_. delivered) (\<lambda>_. delivered) ?payload order 0 0 w =
      ((0 + length order, 0), w')" "map name js = map (\<lambda>i. p_name (?payload i)) order"
    "map max_retries js = map (\<lambda>i. p_max_retries (?payload i)) order"
    "burst w w' js (concat (map (\<lambda>j. [jid j, jid j]) js))" "store_inv cfg w'"
    using memq.retry_work_delivered [OF assms(1) P(1,2), of cr 0 0] by blast
  have "length js = length order" using r(2) by (rule map_eq_imp_length_eq)
  moreover have "set (map max_retries js) \<subseteq> {retries}" unfolding r(3) by (auto simp: retry_payload_def shell_payload_def)
  ultimately show ?thesis using r(1,4,5) by (intro exI [of _ js] exI [of _ w']) auto
qed

subsection \<open>Cleaning up\<close>

lemma list_ids_from_all:
  assumes "prefix \<noteq> []" "length prefix \<le> 255" "1 \<le> pg"
  shows "list_ids_from prefix d pg = map jid (drop ((pg - 1) * 100) (selected (prefix_filter prefix) d))"
  using assms
proof (induction prefix d pg rule: list_ids_from.induct)
  case (1 prefix d pg)
  obtain r where r: "list_jobs_endpoint pg 100 (prefix_filter prefix) d = Inr r"
    using "1.prems" by (cases "list_paginated pg 100 (prefix_filter prefix) d")
      (auto simp: list_jobs_endpoint_def prefix_filter_def Let_def)
  let ?rest = "drop ((pg - 1) * 100) (selected (prefix_filter prefix) d)"
  have it: "items r = take 100 ?rest" using list_page [OF r] by simp
  show ?case
  proof (cases "length (items r) < 100")
    case True
    then have "items r = ?rest" using it by simp
    then show ?thesis using True r by (subst list_ids_from.simps) simp
  next
    case False
    have "?rest = take 100 ?rest @ drop (pg * 100) (selected (prefix_filter prefix) d)"
      using append_take_drop_id [of 100 ?rest] "1.prems"(3) by (cases pg) (simp_all add: add.commute)
    then have split: "map jid ?rest = map jid (items r) @ map jid (drop (pg * 100) (selected (prefix_filter prefix) d))"
      using it by (metis map_append)
    have "list_ids_from prefix d (Suc pg) = map jid (drop (pg * 100) (selected (prefix_filter prefix) d))"
      using "1.IH" [OF r False "1.prems"(1,2)] by simp
    then show ?thesis unfolding split using False r by (subst list_ids_from.simps) simp
  qed
qed

lemma job_delete_absent:
  assumes "db_wf d" "i \<notin> job_ids d"
  shows "job_delete i d = d"
proof -
  have "filter (\<lambda>r. jid r \<noteq> i) (jobs d) = jobs d" using assms(2) by (auto simp: filter_id_conv job_ids_def)
  moreover have "filter (\<lambda>t. task_job_id t \<noteq> i) (tasks d) = tasks d"
    using assms by (auto simp: filter_id_conv db_wf_def fks_ok_def)
  moreover have "filter (\<lambda>e. fst e \<noteq> i \<and> snd e \<noteq> i) (job_dependencies d) = job_dependencies d"
    using assms by (auto simp: filter_id_conv db_wf_def fks_ok_def)
  ultimately show ?thesis by (simp add: job_delete_def)
qed

lemma delete_one_delivered:
  assumes "db_wf (db w)"
  shows "snd (delete_one delivered i w) = w\<lparr>db := job_delete i (db w)\<rparr>"
  using job_delete_absent [OF assms, of i] get_job_row_None_iff [of "db w" i] get_job_row_SomeD [of "db w" i]
  by (auto simp: delete_one_def request_def delete_job_endpoint_def delete_job_def job_get_def split: option.splits)

lemma delete_all_delivered:
  assumes "db_wf (db w)"
  shows "db (fold (\<lambda>i w. snd (delete_one delivered i w)) ids w) =
    (db w)\<lparr>jobs := filter (\<lambda>j. jid j \<notin> set ids) (jobs (db w)),
          tasks := filter (\<lambda>t. task_job_id t \<notin> set ids) (tasks (db w)),
          job_dependencies := filter (\<lambda>e. fst e \<notin> set ids \<and> snd e \<notin> set ids) (job_dependencies (db w))\<rparr> \<and>
    db_wf (db (fold (\<lambda>i w. snd (delete_one delivered i w)) ids w))"
  using assms
proof (induction ids arbitrary: w)
  case (Cons i ids)
  note one = delete_one_delivered [OF Cons.prems, of i]
  have "db_wf (db (snd (delete_one delivered i w)))" using one job_delete_wf [OF Cons.prems] by simp
  from Cons.IH [OF this] show ?case by (auto simp: one job_delete_def conj_commute conj_left_commute intro!: filter_cong)
qed simp

text \<open>(C40) The clean-up of \<open>sched_gen.py\<close> is exact: its listing reads page after page and ends with every job
  whose name matches the filter, and when every request is delivered the store afterwards holds exactly
  the other jobs, with their tasks and the dependencies among them, whatever the order of the deletions.\<close>

theorem cleanup_exact:
  assumes wf: "db_wf (db w)" and p: "prefix \<noteq> []" "length prefix \<le> 255"
    and perm: "\<And>ids. set (order ids) = set ids"
    and run: "cleanup (\<lambda>_. delivered) order (Some prefix) w = (code, w')"
  shows "code = 0 \<and> list_ids_by_prefix prefix (db w) = map jid (selected (prefix_filter prefix) (db w)) \<and>
    jobs (db w') = filter (\<lambda>j. \<not> like (''%'' @ lower prefix @ ''%'') (lower (name j))) (jobs (db w)) \<and>
    tasks (db w') = filter (\<lambda>t. task_job_id t \<in> job_ids (db w')) (tasks (db w)) \<and>
    job_dependencies (db w') = filter (\<lambda>(u, v). u \<in> job_ids (db w') \<and> v \<in> job_ids (db w')) (job_dependencies (db w)) \<and>
    db_wf (db w')"
proof -
  let ?ids = "map jid (selected (prefix_filter prefix) (db w))"
  let ?m = "matches (prefix_filter prefix)"
  have ids: "list_ids_by_prefix prefix (db w) = ?ids"
    using list_ids_from_all [OF p, of 1] by (simp add: list_ids_by_prefix_def)
  have w': "code = 0" "w' = fold (\<lambda>i w. snd (delete_one delivered i w)) (order ?ids) w"
    using run p(1) by (auto simp: cleanup_def ids)
  note D = delete_all_delivered [OF wf, of "order ?ids", folded w'(2)]
  have set_ids: "set (order ?ids) = jid ` {j \<in> set (jobs (db w)). ?m j}" using perm by (simp add: selected_def)
  have inj: "inj_on jid (set (jobs (db w)))" using wf by (simp add: db_wf_def keys_ok_def distinct_map)
  have gone: "jid j \<in> set (order ?ids) \<longleftrightarrow> ?m j" if "j \<in> set (jobs (db w))" for j
    using that inj by (auto simp: set_ids inj_on_def)
  have m: "?m j \<longleftrightarrow> like (''%'' @ lower prefix @ ''%'') (lower (name j))" for j
    using p(1) by (simp add: matches_def prefix_filter_def)
  have "jobs (db w') = filter (\<lambda>j. jid j \<notin> set (order ?ids)) (jobs (db w))" by (subst D [THEN conjunct1]) simp
  also have "\<dots> = filter (\<lambda>j. \<not> ?m j) (jobs (db w))" using gone by (intro filter_cong refl) blast
  finally have jobs': "jobs (db w') = filter (\<lambda>j. \<not> ?m j) (jobs (db w))" .
  have left: "i \<notin> set (order ?ids) \<longleftrightarrow> i \<in> job_ids (db w')" if "i \<in> job_ids (db w)" for i
    using that gone by (auto simp: jobs' job_ids_def)
  have fk: "task_job_id ` set (tasks (db w)) \<subseteq> job_ids (db w)"
    "\<forall>e \<in> set (job_dependencies (db w)). fst e \<in> job_ids (db w) \<and> snd e \<in> job_ids (db w)"
    using wf by (auto simp: db_wf_def fks_ok_def)
  have "tasks (db w') = filter (\<lambda>t. task_job_id t \<notin> set (order ?ids)) (tasks (db w))"
    by (subst D [THEN conjunct1]) simp
  also have "\<dots> = filter (\<lambda>t. task_job_id t \<in> job_ids (db w')) (tasks (db w))"
    using fk(1) left by (intro filter_cong refl) blast
  finally have "tasks (db w') = \<dots>" .
  moreover have "job_dependencies (db w') =
      filter (\<lambda>e. fst e \<notin> set (order ?ids) \<and> snd e \<notin> set (order ?ids)) (job_dependencies (db w))"
    by (subst D [THEN conjunct1]) simp
  moreover have "\<dots> = filter (\<lambda>(u, v). u \<in> job_ids (db w') \<and> v \<in> job_ids (db w')) (job_dependencies (db w))"
    using fk(2) left by (intro filter_cong refl) (auto simp: case_prod_beta)
  ultimately show ?thesis using w'(1) ids jobs' D [THEN conjunct2] m by simp
qed

theorem cleanup_exact_witness:
  "jobs (db (snd (cleanup (\<lambda>_. delivered) rev (Some ''IGHT'') (world one_job_system)))) = []"
proof -
  obtain code w' where run: "cleanup (\<lambda>_. delivered) rev (Some ''IGHT'') (world one_job_system) = (code, w')" by fastforce
  have wf: "db_wf (db (world one_job_system))"
    using system_reachable_inv [OF minutely_advances empty_start one_job_reachable] by (simp add: system_inv_def store_inv_def)
  have "map name (jobs (db (world one_job_system))) = [''nightly'']" by code_simp
  then obtain j where j: "jobs (db (world one_job_system)) = [j]" "name j = ''nightly''" by auto
  have "like (''%'' @ lower ''IGHT'' @ ''%'') (lower ''nightly'')" by code_simp
  then show ?thesis using cleanup_exact [OF wf _ _ _ run] j run by simp
qed

end
