(* ===== verification/Smoke_Test.thy ===== *)
theory Smoke_Test
  imports Load_Scripts Json_Roundtrip
begin

text \<open>
  The end-to-end smoke test \<open>scripts/e2e_smoke.py\<close>: what it reads (the output of two commands, the raw
  answers of the web servers) is its environment, and its exit code is a function of it. A check keeps its
  name and status; the detail it prints, the colours and the diagnoses are left out. An exception that no
  handler of the script catches is a value on the left: the script then dies with exit code 1 and prints no
  verdict. The polls of a run are those made before its deadline.
\<close>

subsection \<open>Python\<close>

definition is_line_break :: "char \<Rightarrow> bool" where
  "is_line_break c = (let n = ord_of c in n = 10 \<or> n = 11 \<or> n = 12 \<or> n = 13 \<or> n = 28 \<or> n = 29 \<or> n = (30 :: nat))"

text \<open>\<open>s.splitlines()\<close>: a carriage return with its line feed is one break.\<close>

function lines_from :: "string \<Rightarrow> string \<Rightarrow> string list" where
  "lines_from acc [] = (if acc = [] then [] else [rev acc])"
| "lines_from acc (c # cs) =
     (if is_line_break c
      then rev acc # lines_from [] (if ord_of c = (13 :: nat) \<and> take 1 cs = [chr_of 10] then drop 1 cs else cs)
      else lines_from (c # acc) cs)"
  by pat_completeness auto
termination by (relation "measure (\<lambda>(acc, s). length s)") auto

definition splitlines :: "string \<Rightarrow> string list" where
  "splitlines s = lines_from [] s"

text \<open>\<open>s.split()\<close>.\<close>

fun words_from :: "string \<Rightarrow> string \<Rightarrow> string list" where
  "words_from acc [] = (if acc = [] then [] else [rev acc])"
| "words_from acc (c # cs) =
     (if is_space c then (if acc = [] then words_from [] cs else rev acc # words_from [] cs)
      else words_from (c # acc) cs)"

definition split_words :: "string \<Rightarrow> string list" where
  "split_words s = words_from [] s"

text \<open>\<open>==\<close> on values of \<open>json.loads\<close>. A float is integral when its \<open>repr\<close> ends in a zero fraction or has a positive
  exponent; it then equals the integer of the same value.\<close>

definition float_integral :: "string \<Rightarrow> bool" where
  "float_integral r \<longleftrightarrow> take 2 (rev r) = ''0.'' \<or> contains ''e+'' r"

definition number_of :: "json \<Rightarrow> (int + string) option" where
  "number_of v =
     (case v of
        JBool b \<Rightarrow> Some (Inl (if b then 1 else 0))
      | JInt i \<Rightarrow> Some (Inl i)
      | JFloat r n \<Rightarrow> (case n of Some i \<Rightarrow> Some (if float_integral r then Inl i else Inr r) | None \<Rightarrow> Some (Inr r))
      | _ \<Rightarrow> None)"

function py_eq :: "json \<Rightarrow> json \<Rightarrow> bool" where
  "py_eq v v' =
     (case v of
        JNull \<Rightarrow> v' = JNull
      | JStr s \<Rightarrow> v' = JStr s
      | JArr xs \<Rightarrow> (case v' of JArr ys \<Rightarrow> length xs = length ys \<and> (\<forall>(x, y) \<in> set (zip xs ys). py_eq x y) | _ \<Rightarrow> False)
      | JObj kvs \<Rightarrow>
          (case v' of
             JObj kvs' \<Rightarrow>
               length kvs = length kvs' \<and>
               (\<forall>(k, x) \<in> set kvs. case jget k kvs' of None \<Rightarrow> False | Some y \<Rightarrow> py_eq x y)
           | _ \<Rightarrow> False)
      | _ \<Rightarrow> number_of v \<noteq> None \<and> number_of v = number_of v' \<and> number_of v \<noteq> Some (Inr ''nan''))"
  by auto
termination
proof (relation "measure (\<lambda>(v, v'). size v)", goal_cases)
  case (2 v v' xs ys p x y)
  then have "x \<in> set xs" by (metis set_zip_leftD)
  then have "size x \<le> size_list size xs" by (simp add: size_list_estimation')
  then show ?case using 2 by (auto simp: less_Suc_eq_le)
next
  case (3 v v' kvs kvs' p k x y)
  have "(k, x) \<in> set kvs" using 3 by simp
  then have "size x < Suc (size_list (size_prod (\<lambda>_. 0) size) kvs)"
    using size_list_estimation' [of "(k, x)" kvs "size x" "size_prod (\<lambda>_. 0) size"] by simp
  then show ?case using 3 by simp
qed simp

declare py_eq.simps [simp del]

text \<open>\<open>v.get(k)\<close>, where only a dictionary has the attribute; and whether a value can be a key.\<close>

datatype script_error = HTTPError | URLError | JSONDecodeError | TimeoutExpired | No_attribute | Unhashable

type_synonym 'a attempt = "script_error + 'a"

definition py_get :: "string \<Rightarrow> json \<Rightarrow> json \<Rightarrow> json attempt" where
  "py_get k dflt v =
     (case v of JObj kvs \<Rightarrow> Inr (case jget k kvs of None \<Rightarrow> dflt | Some x \<Rightarrow> x) | _ \<Rightarrow> Inl No_attribute)"

definition hashable :: "json \<Rightarrow> bool" where
  "hashable v \<longleftrightarrow> (case v of JArr vs \<Rightarrow> False | JObj kvs \<Rightarrow> False | _ \<Rightarrow> True)"

definition py_lower :: "json \<Rightarrow> string attempt" where
  "py_lower v = (case v of JStr s \<Rightarrow> Inr (lower s) | _ \<Rightarrow> Inl No_attribute)"

subsection \<open>HTTP and commands\<close>

text \<open>What a server does, after redirects: it answers with a status and a body, or cannot be reached in time.
  \<open>urlopen\<close> raises for every status that is not a success.\<close>

datatype raw_answer = responds nat string | unreachable

definition http_get :: "raw_answer \<Rightarrow> (nat \<times> string) attempt" where
  "http_get a =
     (case a of
        responds st text \<Rightarrow> if 200 \<le> st \<and> st < 300 then Inr (st, text) else Inl HTTPError
      | unreachable \<Rightarrow> Inl URLError)"

definition http_json :: "(string \<Rightarrow> string \<times> int option) \<Rightarrow> raw_answer \<Rightarrow> (nat \<times> json) attempt" where
  "http_json fl a =
     (case a of
        responds st data \<Rightarrow>
          if 200 \<le> st \<and> st < 300 then
            (if data = [] then Inr (st, JObj [])
             else case json_loads fl data of None \<Rightarrow> Inl JSONDecodeError | Some v \<Rightarrow> Inr (st, v))
          else Inr (st, case json_loads fl data of None \<Rightarrow> JObj [(''raw'', JStr data)] | Some v \<Rightarrow> v)
      | unreachable \<Rightarrow> Inl URLError)"

datatype command_outcome = no_such_file | timed_out | exited int string

definition k8s_worker_pods :: "command_outcome \<Rightarrow> string list" where
  "k8s_worker_pods out =
     (case out of
        exited code text \<Rightarrow> if code \<noteq> 0 then [] else filter (contains ''worker'') (split_words text)
      | _ \<Rightarrow> [])"

fun read_services :: "(string \<Rightarrow> string \<times> int option) \<Rightarrow> string list \<Rightarrow> (json \<times> json) list \<Rightarrow> (json \<times> json) list attempt" where
  "read_services fl [] services = Inr services"
| "read_services fl (l # ls) services =
     (let line = strip l in
      if line = [] then read_services fl ls services
      else case json_loads fl line of
             None \<Rightarrow> read_services fl ls services
           | Some obj \<Rightarrow>
               (case py_get ''State'' (JStr ''?'') obj of
                  Inl e \<Rightarrow> Inl e
                | Inr state \<Rightarrow>
                    (case py_get ''Service'' (JStr ''?'') obj of
                       Inl e \<Rightarrow> Inl e
                     | Inr service \<Rightarrow>
                         if \<not> hashable service then Inl Unhashable
                         else read_services fl ls (dict_set service state services))))"

definition docker_compose_ps :: "(string \<Rightarrow> string \<times> int option) \<Rightarrow> command_outcome \<Rightarrow> (json \<times> json) list attempt" where
  "docker_compose_ps fl out =
     (case out of
        no_such_file \<Rightarrow> Inr []
      | timed_out \<Rightarrow> Inl TimeoutExpired
      | exited code text \<Rightarrow> if code \<noteq> 0 then Inr [] else read_services fl (splitlines text) [])"

subsection \<open>Checks\<close>

datatype check_status = check_ok | check_fail | check_warn | check_skip

record check_result =
  check_name :: string
  check_status :: check_status

record report =
  component_checks :: "check_result list"
  pipeline_steps :: "check_result list"

definition add_component :: "string \<Rightarrow> check_status \<Rightarrow> report \<Rightarrow> report" where
  "add_component nm st r = r\<lparr>component_checks := component_checks r @ [\<lparr>check_name = nm, check_status = st\<rparr>]\<rparr>"

definition add_step :: "string \<Rightarrow> check_status \<Rightarrow> report \<Rightarrow> report" where
  "add_step nm st r = r\<lparr>pipeline_steps := pipeline_steps r @ [\<lparr>check_name = nm, check_status = st\<rparr>]\<rparr>"

text \<open>All that a run observes.\<close>

record smoke_env =
  compose_ps :: command_outcome
  kubectl :: command_outcome
  health_answer :: raw_answer
  metrics_answer :: raw_answer
  localstack_answer :: raw_answer
  queues_answer :: raw_answer
  frontend_answer :: raw_answer
  name_hex :: string
  on_create :: "job_create_payload \<Rightarrow> raw_answer"
  on_trigger :: "string \<Rightarrow> raw_answer"
  on_poll :: "string \<Rightarrow> raw_answer list"

subsection \<open>Phase 1: components\<close>

definition expected_services :: "string list" where
  "expected_services =
     [''traefik'', ''postgres'', ''postgres-replica'', ''localstack'', ''api-server'', ''scheduler'', ''frontend'']"

fun check_containers :: "(json \<times> json) list \<Rightarrow> string list \<Rightarrow> report \<Rightarrow> report attempt" where
  "check_containers services [] r = Inr r"
| "check_containers services (svc # svcs) r =
     (let nm = ''container: '' @ svc;
          state = (case map_of services (JStr svc) of None \<Rightarrow> JNull | Some v \<Rightarrow> v) in
      if state = JNull then check_containers services svcs (add_component nm check_fail r)
      else case py_lower state of
             Inl e \<Rightarrow> Inl e
           | Inr l \<Rightarrow>
               check_containers services svcs (add_component nm (if l = ''running'' then check_ok else check_fail) r))"

definition check_workers :: "(json \<times> json) list \<Rightarrow> command_outcome \<Rightarrow> report \<Rightarrow> report attempt" where
  "check_workers services kube r =
     (case py_lower (case map_of services (JStr ''worker'') of None \<Rightarrow> JStr [] | Some v \<Rightarrow> v) of
        Inl e \<Rightarrow> Inl e
      | Inr compose_worker \<Rightarrow>
          (let pods = k8s_worker_pods kube in
           Inr (if compose_worker = ''running'' then
                  (let r' = add_component ''worker fleet (mode 1: compose)'' check_ok r in
                   if pods \<noteq> [] then add_component ''worker fleet: both modes active'' check_warn r' else r')
                else if pods \<noteq> [] then add_component ''worker fleet (mode 2: kubernetes)'' check_ok r
                else add_component ''worker fleet'' check_fail r)))"

definition check_url :: "string \<Rightarrow> string \<Rightarrow> raw_answer \<Rightarrow> report \<Rightarrow> report" where
  "check_url good bad a r =
     (case http_get a of
        Inr (st, text) \<Rightarrow> if st = 200 then add_component good check_ok r else add_component bad check_fail r
      | Inl e \<Rightarrow> add_component bad check_fail r)"

definition sqs_state :: "(string \<Rightarrow> string \<times> int option) \<Rightarrow> raw_answer \<Rightarrow> json attempt" where
  "sqs_state fl a =
     (case http_get a of
        Inl e \<Rightarrow> Inl e
      | Inr (st, text) \<Rightarrow>
          (case json_loads fl text of
             None \<Rightarrow> Inl JSONDecodeError
           | Some v \<Rightarrow>
               (case py_get ''services'' (JObj []) v of Inl e \<Rightarrow> Inl e | Inr s \<Rightarrow> py_get ''sqs'' (JStr ''?'') s)))"

definition check_localstack :: "(string \<Rightarrow> string \<times> int option) \<Rightarrow> raw_answer \<Rightarrow> report \<Rightarrow> report" where
  "check_localstack fl a r =
     (case sqs_state fl a of
        Inr v \<Rightarrow>
          add_component ''LocalStack SQS'' (if v \<in> {JStr ''running'', JStr ''available''} then check_ok else check_warn) r
      | Inl e \<Rightarrow> add_component ''LocalStack SQS'' check_fail r)"

definition queue_names :: "string list" where
  "queue_names = [''dass-tasks-normal'', ''dass-tasks-scheduled'', ''dass-tasks-retry'']"

definition check_queues :: "raw_answer \<Rightarrow> report \<Rightarrow> report" where
  "check_queues a r =
     (case http_get a of
        Inr (st, text) \<Rightarrow>
          fold (\<lambda>q. add_component (''queue: '' @ q) (if contains q text then check_ok else check_fail)) queue_names r
      | Inl e \<Rightarrow> add_component ''SQS queue listing'' check_fail r)"

definition check_frontend :: "raw_answer \<Rightarrow> report \<Rightarrow> report" where
  "check_frontend a r =
     (case http_get a of
        Inr (st, text) \<Rightarrow> add_component ''Frontend via Traefik'' (if st < 500 then check_ok else check_fail) r
      | Inl e \<Rightarrow> add_component ''Frontend via Traefik'' check_warn r)"

definition check_components :: "(string \<Rightarrow> string \<times> int option) \<Rightarrow> smoke_env \<Rightarrow> report \<Rightarrow> report attempt" where
  "check_components fl env r =
     (case docker_compose_ps fl (compose_ps env) of
        Inl e \<Rightarrow> Inl e
      | Inr services \<Rightarrow>
          (case (if services = [] then Inr (add_component ''docker compose ps'' check_warn r)
                 else check_containers services expected_services r) of
             Inl e \<Rightarrow> Inl e
           | Inr r1 \<Rightarrow>
               (case check_workers services (kubectl env) r1 of
                  Inl e \<Rightarrow> Inl e
                | Inr r2 \<Rightarrow>
                    Inr (check_frontend (frontend_answer env)
                          (check_queues (queues_answer env)
                            (check_localstack fl (localstack_answer env)
                              (check_url ''API /metrics'' ''API /metrics'' (metrics_answer env)
                                (check_url ''API /health (also pings DB)'' ''API /health'' (health_answer env) r2))))))))"

subsection \<open>Phase 2: a job from its creation to its end\<close>

definition smoke_payload :: "string \<Rightarrow> job_create_payload" where
  "smoke_payload hex = shell_payload ''echo hello-from-e2e'' 0 None (''e2e-smoke-'' @ take 8 hex)"

text \<open>The first task of the list with the given identifier; looking at one that is no dictionary raises.\<close>

fun find_task :: "json \<Rightarrow> json list \<Rightarrow> json option attempt" where
  "find_task task_id [] = Inr None"
| "find_task task_id (t # ts) =
     (case py_get ''id'' JNull t of
        Inl e \<Rightarrow> Inl e
      | Inr i \<Rightarrow> if py_eq i task_id then Inr (Some t) else find_task task_id ts)"

text \<open>One poll: the status to remember, and the task when it has ended.\<close>

datatype poll_result = poll_refused | poll_open json | poll_final json

definition poll_once :: "(string \<Rightarrow> string \<times> int option) \<Rightarrow> json \<Rightarrow> json \<Rightarrow> raw_answer \<Rightarrow> poll_result attempt" where
  "poll_once fl task_id last_status a =
     (case http_json fl a of
        Inl e \<Rightarrow> Inl e
      | Inr (st, v) \<Rightarrow>
          (case v of
             JArr ts \<Rightarrow>
               if st \<noteq> 200 then Inr poll_refused
               else
                 (case find_task task_id ts of
                    Inl e \<Rightarrow> Inl e
                  | Inr found \<Rightarrow>
                      (case (case found of Some t \<Rightarrow> Some t | None \<Rightarrow> (case ts of [] \<Rightarrow> None | t # _ \<Rightarrow> Some t)) of
                         None \<Rightarrow> Inr (poll_open last_status)
                       | Some t \<Rightarrow>
                           if \<not> truthy t then Inr (poll_open last_status)
                           else
                             (case py_get ''status'' JNull t of
                                Inl e \<Rightarrow> Inl e
                              | Inr s \<Rightarrow>
                                  if py_eq s last_status then Inr (poll_open last_status)
                                  else if \<not> hashable s then Inl Unhashable
                                  else if s \<in> {JStr ''success'', JStr ''final_failed''} then Inr (poll_final t)
                                  else Inr (poll_open s))))
           | _ \<Rightarrow> Inr poll_refused))"

fun poll_loop :: "(string \<Rightarrow> string \<times> int option) \<Rightarrow> json \<Rightarrow> json \<Rightarrow> raw_answer list \<Rightarrow> poll_result attempt" where
  "poll_loop fl task_id last_status [] = Inr (poll_open last_status)"
| "poll_loop fl task_id last_status (a # as) =
     (case poll_once fl task_id last_status a of
        Inr (poll_open s) \<Rightarrow> poll_loop fl task_id s as
      | r \<Rightarrow> r)"

text \<open>\<open>(task.get(k) or "").strip()\<close>: a true value that is no string raises.\<close>

definition output_text :: "string \<Rightarrow> json \<Rightarrow> string attempt" where
  "output_text k t =
     (case py_get k JNull t of
        Inl e \<Rightarrow> Inl e
      | Inr v \<Rightarrow> if \<not> truthy v then Inr [] else (case v of JStr s \<Rightarrow> Inr (strip s) | _ \<Rightarrow> Inl No_attribute))"

definition finish_pipeline :: "json \<Rightarrow> report \<Rightarrow> report attempt" where
  "finish_pipeline t r =
     (case py_get ''status'' JNull t of
        Inl e \<Rightarrow> Inl e
      | Inr s \<Rightarrow>
          (case (output_text ''stdout'' t, output_text ''stderr'' t) of
             (Inr out, Inr err) \<Rightarrow> Inr (add_step ''task terminal state'' (if s = JStr ''success'' then check_ok else check_fail) r)
           | _ \<Rightarrow> Inl No_attribute))"

definition run_pipeline :: "(string \<Rightarrow> string \<times> int option) \<Rightarrow> smoke_env \<Rightarrow> report \<Rightarrow> report attempt" where
  "run_pipeline fl env r =
     (case http_json fl (on_create env (smoke_payload (name_hex env))) of
        Inl e \<Rightarrow> Inl e
      | Inr (st, resp) \<Rightarrow>
          if st \<noteq> 200 then Inr (add_step ''POST /api/v1/jobs'' check_fail r)
          else
            (case py_get ''id'' JNull resp of
               Inl e \<Rightarrow> Inl e
             | Inr job_id \<Rightarrow>
                 (let r1 = add_step ''POST /api/v1/jobs'' check_ok r in
                  case http_json fl (on_trigger env (py_str job_id)) of
                    Inl e \<Rightarrow> Inl e
                  | Inr (st', resp') \<Rightarrow>
                      if st' \<noteq> 200 then Inr (add_step ''POST /jobs/{id}/trigger'' check_fail r1)
                      else
                        (case py_get ''task_id'' JNull resp' of
                           Inl e \<Rightarrow> Inl e
                         | Inr task_id \<Rightarrow>
                             (let r2 = add_step ''POST /jobs/{id}/trigger'' check_ok r1 in
                              case poll_loop fl task_id JNull (on_poll env (py_str job_id)) of
                                Inl e \<Rightarrow> Inl e
                              | Inr poll_refused \<Rightarrow> Inr (add_step ''GET /jobs/{id}/tasks'' check_fail r2)
                              | Inr (poll_open s) \<Rightarrow> Inr (add_step ''task reached terminal state'' check_fail r2)
                              | Inr (poll_final t) \<Rightarrow> finish_pipeline t r2)))))"

subsection \<open>Verdict\<close>

definition print_verdict :: "report \<Rightarrow> nat" where
  "print_verdict r =
     (let n_comp_fail = length (filter (\<lambda>c. check_status c = check_fail) (component_checks r));
          n_step_fail = length (filter (\<lambda>c. check_status c = check_fail) (pipeline_steps r))
      in if n_comp_fail = 0 \<and> n_step_fail = 0 then 0 else 1)"

definition smoke_main :: "(string \<Rightarrow> string \<times> int option) \<Rightarrow> smoke_env \<Rightarrow> nat attempt" where
  "smoke_main fl env =
     (case check_components fl env \<lparr>component_checks = [], pipeline_steps = []\<rparr> of
        Inl e \<Rightarrow> Inl e
      | Inr r1 \<Rightarrow> (case run_pipeline fl env r1 of Inl e \<Rightarrow> Inl e | Inr r2 \<Rightarrow> Inr (print_verdict r2)))"

subsection \<open>When no check fails\<close>

definition all_green :: "report \<Rightarrow> bool" where
  "all_green r \<longleftrightarrow> (\<forall>c \<in> set (component_checks r @ pipeline_steps r). check_status c \<noteq> check_fail)"

lemma print_verdict_iff: "print_verdict r = 0 \<longleftrightarrow> all_green r"
  by (auto simp: print_verdict_def all_green_def Let_def filter_empty_conv)

lemma green_add [simp]:
  "all_green (add_component nm st r) \<longleftrightarrow> st \<noteq> check_fail \<and> all_green r"
  "all_green (add_step nm st r) \<longleftrightarrow> st \<noteq> check_fail \<and> all_green r"
  by (auto simp: all_green_def add_component_def add_step_def)

lemma green_url: "all_green (check_url good bad a r) \<longleftrightarrow> all_green r \<and> (\<exists>text. a = responds 200 text)"
  by (auto simp: check_url_def http_get_def split: raw_answer.splits if_splits)

lemma green_localstack: "all_green (check_localstack fl a r) \<longleftrightarrow> all_green r \<and> (\<exists>v. sqs_state fl a = Inr v)"
  by (auto simp: check_localstack_def split: sum.splits)

lemma green_queues:
  "all_green (check_queues a r) \<longleftrightarrow>
     all_green r \<and> (\<exists>st text. http_get a = Inr (st, text) \<and> (\<forall>q \<in> set queue_names. contains q text))"
  by (auto simp: check_queues_def queue_names_def split: sum.splits)

text \<open>A server that answers 500 or 502 has raised in \<open>urlopen\<close>: the check of the frontend only ever warns.\<close>

lemma green_frontend: "all_green (check_frontend a r) \<longleftrightarrow> all_green r"
  by (auto simp: check_frontend_def http_get_def split: raw_answer.splits if_splits)

definition service_running :: "(json \<times> json) list \<Rightarrow> string \<Rightarrow> bool" where
  "service_running services svc \<longleftrightarrow> (\<exists>s. map_of services (JStr svc) = Some (JStr s) \<and> lower s = ''running'')"

lemma green_containers:
  assumes "check_containers services svcs r = Inr r'"
  shows "all_green r' \<longleftrightarrow> all_green r \<and> (\<forall>svc \<in> set svcs. service_running services svc)"
  using assms
proof (induction services svcs r rule: check_containers.induct)
  case (2 services svc svcs r)
  show ?case
  proof (cases "case map_of services (JStr svc) of None \<Rightarrow> JNull | Some v \<Rightarrow> v")
    case JNull
    then have "\<not> service_running services svc" by (auto simp: service_running_def split: option.splits)
    then show ?thesis using 2 JNull by (simp add: Let_def)
  next
    case (JStr x)
    then have "map_of services (JStr svc) = Some (JStr x)" by (auto split: option.splits)
    then show ?thesis using 2 by (auto simp: service_running_def py_lower_def split: if_splits)
  qed (use 2 in \<open>simp_all add: Let_def py_lower_def\<close>)
qed simp

lemma green_workers:
  assumes "check_workers services kube r = Inr r'"
  shows "all_green r' \<longleftrightarrow> all_green r \<and> (service_running services ''worker'' \<or> k8s_worker_pods kube \<noteq> [])"
  using assms by (auto simp: check_workers_def service_running_def py_lower_def lower_def Let_def split: option.splits json.splits if_splits)

text \<open>What phase 1 has seen when it ends without a failure: either no container of the project was listed at all or
  all the expected ones run; there is a worker, as a container or as a pod; the health and the metrics endpoint
  answered 200; LocalStack answered, whatever state it reports for SQS; the queue list names the three
  queues. It says nothing of the frontend, whose failure is only a warning.\<close>

definition checks_passed :: "(string \<Rightarrow> string \<times> int option) \<Rightarrow> smoke_env \<Rightarrow> bool" where
  "checks_passed fl env \<longleftrightarrow>
     (\<exists>services. docker_compose_ps fl (compose_ps env) = Inr services \<and>
        (services = [] \<or> (\<forall>svc \<in> set expected_services. service_running services svc)) \<and>
        (service_running services ''worker'' \<or> k8s_worker_pods (kubectl env) \<noteq> [])) \<and>
     (\<exists>text. health_answer env = responds 200 text) \<and> (\<exists>text. metrics_answer env = responds 200 text) \<and>
     (\<exists>v. sqs_state fl (localstack_answer env) = Inr v) \<and>
     (\<exists>st text. http_get (queues_answer env) = Inr (st, text) \<and> (\<forall>q \<in> set queue_names. contains q text))"

lemma green_components:
  assumes "check_components fl env r = Inr r'" "all_green r'"
  shows "checks_passed fl env \<and> all_green r"
proof -
  obtain services where s: "docker_compose_ps fl (compose_ps env) = Inr services"
    using assms(1) by (auto simp: check_components_def split: sum.splits)
  let ?c = "if services = [] then Inr (add_component ''docker compose ps'' check_warn r) else check_containers services expected_services r"
  obtain r1 where r1: "?c = Inr r1" using assms(1) s by (auto simp: check_components_def split: sum.splits)
  obtain r2 where r2: "check_workers services (kubectl env) r1 = Inr r2"
    using assms(1) s r1 by (auto simp: check_components_def simp del: check_containers.simps split: sum.splits)
  have g: "all_green r2" "\<exists>text. health_answer env = responds 200 text" "\<exists>text. metrics_answer env = responds 200 text"
    "\<exists>v. sqs_state fl (localstack_answer env) = Inr v"
    "\<exists>st text. http_get (queues_answer env) = Inr (st, text) \<and> (\<forall>q \<in> set queue_names. contains q text)"
    using assms s r1 r2 by (auto simp: check_components_def green_frontend green_queues green_localstack green_url)
  have "all_green r1" "service_running services ''worker'' \<or> k8s_worker_pods (kubectl env) \<noteq> []"
    using green_workers [OF r2] g(1) by auto
  moreover have "all_green r \<and> (services = [] \<or> (\<forall>svc \<in> set expected_services. service_running services svc))"
    using r1 calculation(1) green_containers [of services expected_services r r1] by (auto split: if_splits)
  ultimately show ?thesis using g s by (auto simp: checks_passed_def)
qed

lemma py_eq_str [simp]: "py_eq v (JStr s) \<longleftrightarrow> v = JStr s"
  by (cases v) (auto simp: py_eq.simps number_of_def split: option.splits)

lemma find_task_found: "find_task i ts = Inr (Some t) \<Longrightarrow> t \<in> set ts \<and> (\<exists>v. py_get ''id'' JNull t = Inr v \<and> py_eq v i)"
  by (induction i ts rule: find_task.induct) (auto split: sum.splits if_splits)

lemma find_task_none: "find_task i ts = Inr None \<Longrightarrow> \<forall>t \<in> set ts. \<exists>v. py_get ''id'' JNull t = Inr v \<and> \<not> py_eq v i"
  by (induction i ts rule: find_task.induct) (auto split: sum.splits if_splits)

text \<open>The answer of a poll that ends the loop.\<close>

definition shows_end :: "(string \<Rightarrow> string \<times> int option) \<Rightarrow> json \<Rightarrow> raw_answer \<Rightarrow> json \<Rightarrow> bool" where
  "shows_end fl i a t \<longleftrightarrow>
     (\<exists>ts. http_json fl a = Inr (200, JArr ts) \<and> t \<in> set ts \<and>
        ((\<exists>v. py_get ''id'' JNull t = Inr v \<and> py_eq v i) \<or>
         (\<forall>u \<in> set ts. \<exists>v. py_get ''id'' JNull u = Inr v \<and> \<not> py_eq v i)))"

lemma poll_once_final:
  assumes "poll_once fl i st0 a = Inr (poll_final t)"
  shows "shows_end fl i a t"
proof -
  obtain st v where v: "http_json fl a = Inr (st, v)" using assms by (auto simp: poll_once_def split: sum.splits)
  obtain ts where ts: "v = JArr ts" "st = 200" using assms v by (cases v) (auto simp: poll_once_def split: if_splits)
  obtain found where f: "find_task i ts = Inr found" using assms v ts by (auto simp: poll_once_def split: sum.splits)
  show ?thesis
  proof (cases found)
    case None
    then have "t \<in> set ts" using assms v ts f
      by (cases ts) (auto simp: poll_once_def split: if_splits sum.splits)
    then show ?thesis using v ts find_task_none f None by (auto simp: shows_end_def)
  next
    case (Some u)
    then have "t = u" using assms v ts f by (auto simp: poll_once_def split: if_splits sum.splits)
    then show ?thesis using v ts find_task_found f Some by (auto simp: shows_end_def)
  qed
qed

lemma poll_loop_final: "poll_loop fl i st0 as = Inr (poll_final t) \<Longrightarrow> \<exists>a \<in> set as. shows_end fl i a t"
  by (induction fl i st0 as rule: poll_loop.induct) (auto dest: poll_once_final split: sum.splits poll_result.splits)

lemma green_pipeline:
  assumes "run_pipeline fl env r = Inr r'" "all_green r'"
  shows "\<exists>resp job_id resp' task_id a t.
    http_json fl (on_create env (smoke_payload (name_hex env))) = Inr (200, resp) \<and> py_get ''id'' JNull resp = Inr job_id \<and>
    http_json fl (on_trigger env (py_str job_id)) = Inr (200, resp') \<and> py_get ''task_id'' JNull resp' = Inr task_id \<and>
    a \<in> set (on_poll env (py_str job_id)) \<and> shows_end fl task_id a t \<and> py_get ''status'' JNull t = Inr (JStr ''success'')"
proof -
  obtain resp where c: "http_json fl (on_create env (smoke_payload (name_hex env))) = Inr (200, resp)"
    using assms by (auto simp: run_pipeline_def split: sum.splits if_splits)
  obtain job_id where i: "py_get ''id'' JNull resp = Inr job_id"
    using assms c by (auto simp: run_pipeline_def split: sum.splits)
  obtain resp' where t: "http_json fl (on_trigger env (py_str job_id)) = Inr (200, resp')"
    using assms c i by (auto simp: run_pipeline_def Let_def split: sum.splits if_splits)
  obtain task_id where ti: "py_get ''task_id'' JNull resp' = Inr task_id"
    using assms c i t by (auto simp: run_pipeline_def Let_def split: sum.splits)
  obtain u where u: "poll_loop fl task_id JNull (on_poll env (py_str job_id)) = Inr (poll_final u)"
    using assms c i t ti by (auto simp: run_pipeline_def Let_def split: sum.splits poll_result.splits)
  have "py_get ''status'' JNull u = Inr (JStr ''success'')"
    using assms c i t ti u by (auto simp: run_pipeline_def Let_def finish_pipeline_def split: sum.splits if_splits)
  then show ?thesis using c i t ti poll_loop_final [OF u] by blast
qed

lemma smoke_main_green:
  assumes "smoke_main fl env = Inr 0"
  shows "checks_passed fl env \<and> (\<exists>r r'. run_pipeline fl env r = Inr r' \<and> all_green r')"
proof -
  obtain r1 r2 where r: "check_components fl env \<lparr>component_checks = [], pipeline_steps = []\<rparr> = Inr r1"
    "run_pipeline fl env r1 = Inr r2" "all_green r2"
    using assms by (auto simp: smoke_main_def print_verdict_iff split: sum.splits)
  have "all_green r1"
    using r(2,3) by (auto simp: run_pipeline_def Let_def finish_pipeline_def split: sum.splits if_splits poll_result.splits)
  then show ?thesis using green_components [OF r(1)] r by blast
qed

subsection \<open>The smoke test against the modelled API\<close>

definition status_text :: "status \<Rightarrow> string" where
  "status_text st =
     (case st of pending \<Rightarrow> ''pending'' | running \<Rightarrow> ''running'' | success \<Rightarrow> ''success'' | failed \<Rightarrow> ''failed''
      | final_failed \<Rightarrow> ''final_failed'')"

text \<open>The web framework writes the body of an answer; what the test relies on is that a reader finds the
  identifiers and the status under their names. The encoders are parameters.\<close>

definition api_answer :: "('a \<Rightarrow> string) \<Rightarrow> 'a result \<Rightarrow> raw_answer" where
  "api_answer enc r = responds (status_code r) (case r of Inr x \<Rightarrow> enc x | Inl e \<Rightarrow> ''{}'')"

definition has_field :: "string \<Rightarrow> string \<Rightarrow> (string \<times> json) list \<Rightarrow> bool" where
  "has_field k s kvs \<longleftrightarrow> jget k kvs = Some (JStr s)"

definition encodes ::
    "(string \<Rightarrow> string \<times> int option) \<Rightarrow> (job_read \<Rightarrow> string) \<Rightarrow> (trigger_response \<Rightarrow> string) \<Rightarrow> (task_read list \<Rightarrow> string) \<Rightarrow> bool" where
  "encodes fl enc_job enc_trigger enc_tasks \<longleftrightarrow>
     (\<forall>r. ascii (r_id r) \<longrightarrow> (\<exists>kvs. json_loads fl (enc_job r) = Some (JObj kvs) \<and> has_field ''id'' (r_id r) kvs)) \<and>
     (\<forall>t. ascii (trig_task_id t) \<longrightarrow>
        (\<exists>kvs. json_loads fl (enc_trigger t) = Some (JObj kvs) \<and> has_field ''task_id'' (trig_task_id t) kvs)) \<and>
     (\<forall>ts. (\<forall>t \<in> set ts. ascii (tr_id t)) \<longrightarrow>
        (\<exists>vs. json_loads fl (enc_tasks ts) = Some (JArr (map JObj vs)) \<and>
           list_all2 (\<lambda>kvs t. has_field ''id'' (tr_id t) kvs \<and> has_field ''status'' (status_text (tr_status t)) kvs) vs ts))"

text \<open>No error of the two endpoints is answered with 200.\<close>

definition refusal :: "error \<Rightarrow> bool" where
  "refusal e \<longleftrightarrow> status_code (Inl e :: unit result) \<noteq> 200"

lemma refusal_simps [simp]:
  "refusal (HTTPException n x) \<longleftrightarrow> n \<noteq> 200" "refusal (unprocessable x)" "refusal ValidationError" "refusal IntegrityError"
  "refusal StaleDataError" "refusal (KeyError k)" "refusal TypeError" "refusal ValueError" "refusal AttributeError"
  "refusal CroniterBadDateError"
  by (simp_all add: refusal_def status_code_def unprocessable_def)

lemma py_int_refusal: "py_int v = Inl e \<Longrightarrow> refusal e"
  by (auto simp: py_int_def split: json.splits option.splits)

lemma header_args_refusal: "header_args h = Inl e \<Longrightarrow> refusal e"
  by (auto simp: header_args_def split: json.splits option.splits if_splits)

lemma build_runtime_spec_refusal: "build_runtime_spec cfg at c = Inl e \<Longrightarrow> refusal e"
  by (auto simp: build_runtime_spec_def shell_spec_def http_spec_def timeout_of_def Let_def dest: py_int_refusal header_args_refusal
      split: if_splits json.splits option.splits sum.splits)

lemma resolve_schedule_refusal: "resolve_schedule cr c w = (Inl e, w') \<Longrightarrow> refusal e"
  by (auto simp: resolve_schedule_def next_cron_time_def Let_def split: if_splits prod.splits sum.splits option.splits)

lemma enqueue_task_refusal: "enqueue_task MemoryQueueClient i w = (Inl e, w') \<Longrightarrow> refusal e"
  using memq.send_not_error
  by (auto simp: enqueue_task_def task_create_def Let_def split: if_splits prod.splits sum.splits)

lemma post_job_refusal:
  assumes "post_job cfg cr lax_int MemoryQueueClient p w = (Inl e, w')"
  shows "refusal e"
proof -
  have "refusal e'" if "create_job cfg cr MemoryQueueClient p w = (Inl e', w1)" for e' w1
    using that
    by (auto simp: create_job_def job_create_def dispatch_if_one_time_def Let_def
        dest: resolve_schedule_refusal build_runtime_spec_refusal enqueue_task_refusal
        split: if_splits prod.splits sum.splits)
  then show ?thesis using assms by (auto simp: post_job_def JobRead_def split: if_splits prod.splits sum.splits)
qed

lemma trigger_refusal: "trigger_endpoint MemoryQueueClient i w = (Inl e, w') \<Longrightarrow> refusal e"
  by (auto simp: trigger_endpoint_def trigger_job_def dest: enqueue_task_refusal split: option.splits prod.splits sum.splits)

lemma tasks_refusal: "list_job_tasks_endpoint i d = Inl e \<Longrightarrow> refusal e"
  by (auto simp: list_job_tasks_endpoint_def list_job_tasks_def get_job_def split: option.splits sum.splits)

lemma json_answer:
  assumes "http_json fl (api_answer enc r) = Inr (200, v)" "\<And>e. r = Inl e \<Longrightarrow> refusal e"
  obtains x where "r = Inr x" "json_loads fl (enc x) = Some v \<or> enc x = [] \<and> v = JObj []"
proof (cases r)
  case (Inl e)
  then have "status_code r \<noteq> 200" using assms(2) [OF Inl] by (simp add: refusal_def status_code_def split: error.splits)
  then show thesis using assms(1) by (auto simp: api_answer_def http_json_def split: if_splits option.splits)
next
  case (Inr x)
  then show thesis using assms(1) that by (auto simp: api_answer_def http_json_def status_code_def split: if_splits option.splits)
qed

lemma json_loads_empty: "json_loads fl [] = None"
  by (simp add: json_loads_def skip_ws_def pscalar_def pnumber_def int_part_def literals_def)

lemma status_text_success: "status_text st = ''success'' \<Longrightarrow> st = success"
  by (cases st) (simp_all add: status_text_def)

lemma all2_left: "list_all2 P xs ys \<Longrightarrow> x \<in> set xs \<Longrightarrow> \<exists>y \<in> set ys. P x y"
  by (induction rule: list_all2_induct) auto

lemma all2_right: "list_all2 P xs ys \<Longrightarrow> y \<in> set ys \<Longrightarrow> \<exists>x \<in> set xs. P x y"
  by (induction rule: list_all2_induct) auto

lemma listed_success:
  assumes enc: "encodes fl enc_job enc_trigger enc_tasks" and ids: "\<forall>t \<in> set (tasks d). ascii (tid t)"
    and a: "shows_end fl (JStr k) (api_answer enc_tasks (list_job_tasks_endpoint i d)) v"
    and s: "py_get ''status'' JNull v = Inr (JStr ''success'')"
  shows "\<exists>u \<in> set (tasks d). task_job_id u = i \<and> status u = success \<and> (tid u = k \<or> k \<notin> tid ` set (list_by_job i d))"
proof -
  obtain ts where ts: "http_json fl (api_answer enc_tasks (list_job_tasks_endpoint i d)) = Inr (200, JArr ts)" "v \<in> set ts"
    "(\<exists>x. py_get ''id'' JNull v = Inr x \<and> py_eq x (JStr k)) \<or> (\<forall>u \<in> set ts. \<exists>x. py_get ''id'' JNull u = Inr x \<and> \<not> py_eq x (JStr k))"
    using a by (auto simp: shows_end_def)
  obtain rs where rs: "list_job_tasks_endpoint i d = Inr rs" "json_loads fl (enc_tasks rs) = Some (JArr ts)"
    by (rule json_answer [OF ts(1)]) (auto intro: tasks_refusal)
  then have rs_def: "rs = map TaskRead (list_by_job i d)"
    by (auto simp: list_job_tasks_endpoint_def list_job_tasks_def split: sum.splits)
  have sub: "set (list_by_job i d) \<subseteq> {t \<in> set (tasks d). task_job_id t = i}" by (auto simp: list_by_job_def)
  then have "\<forall>t \<in> set rs. ascii (tr_id t)" using ids by (auto simp: rs_def TaskRead_def)
  then obtain vs where vs0: "json_loads fl (enc_tasks rs) = Some (JArr (map JObj vs))"
    and vs2: "list_all2 (\<lambda>kvs t. has_field ''id'' (tr_id t) kvs \<and> has_field ''status'' (status_text (tr_status t)) kvs) vs rs"
    using enc [unfolded encodes_def, THEN conjunct2, THEN conjunct2] by blast
  have vs: "ts = map JObj vs" using vs0 rs(2) by simp
  have field: "\<exists>u \<in> set (list_by_job i d). has_field ''id'' (tid u) kvs \<and> has_field ''status'' (status_text (status u)) kvs"
    if "kvs \<in> set vs" for kvs
    using all2_left [OF vs2 that] by (auto simp: rs_def TaskRead_def)
  have listed: "\<exists>kvs \<in> set vs. has_field ''id'' (tid u) kvs" if "u \<in> set (list_by_job i d)" for u
    using all2_right [OF vs2, of "TaskRead u"] that by (auto simp: rs_def TaskRead_def)
  obtain kvs where kvs: "v = JObj kvs" "kvs \<in> set vs" using ts(2) vs by auto
  obtain u where u: "u \<in> set (list_by_job i d)" "has_field ''id'' (tid u) kvs" "has_field ''status'' (status_text (status u)) kvs"
    using field [OF kvs(2)] by blast
  have "status u = success" using s u(3) kvs(1) by (auto simp: py_get_def has_field_def status_text_success)
  moreover have "tid u = k \<or> k \<notin> tid ` set (list_by_job i d)"
    using ts(3)
  proof
    assume "\<exists>x. py_get ''id'' JNull v = Inr x \<and> py_eq x (JStr k)"
    then show ?thesis using u(2) kvs(1) by (auto simp: py_get_def has_field_def)
  next
    assume no: "\<forall>u \<in> set ts. \<exists>x. py_get ''id'' JNull u = Inr x \<and> \<not> py_eq x (JStr k)"
    have "tid u' \<noteq> k" if "u' \<in> set (list_by_job i d)" for u'
      using listed [OF that] no vs by (force simp: py_get_def has_field_def)
    then show ?thesis by auto
  qed
  ultimately show ?thesis using u(1) sub by blast
qed

text \<open>(C37) What a green verdict means. When the smoke test runs against the modelled API and exits with 0,
  Docker Compose listed no container or all the expected ones as running, there was a worker container or pod,
  the health and metrics endpoints answered 200, LocalStack answered in whatever state, and the three queues
  were listed; the frontend may be down. Its job was stored, its trigger created a task, and one of its polls
  read a store in which a task of that job had succeeded: the triggered task itself, unless that poll no longer
  found it.\<close>

theorem smoke_green_means_success:
  assumes enc: "encodes fl enc_job enc_trigger enc_tasks"
    and create: "post_job cfg cr lax_int MemoryQueueClient (smoke_payload (name_hex env)) w0 = (rj, w1)"
      "on_create env (smoke_payload (name_hex env)) = api_answer enc_job rj"
    and trigger: "\<And>i. on_trigger env i = api_answer enc_trigger (fst (trigger_endpoint MemoryQueueClient i w1))"
    and polls: "\<And>i. on_poll env i = map (\<lambda>w. api_answer enc_tasks (list_job_tasks_endpoint i (db w))) ws"
    and ids: "\<And>j. rj = Inr j \<Longrightarrow> ascii (r_id j)"
      "\<And>j t. rj = Inr j \<Longrightarrow> fst (trigger_endpoint MemoryQueueClient (r_id j) w1) = Inr t \<Longrightarrow> ascii (trig_task_id t)"
      "\<forall>w \<in> set ws. \<forall>t \<in> set (tasks (db w)). ascii (tid t)"
    and green: "smoke_main fl env = Inr 0"
  shows "checks_passed fl env \<and>
    (\<exists>j t w2. rj = Inr j \<and> trigger_endpoint MemoryQueueClient (r_id j) w1 = (Inr t, w2) \<and>
      (\<exists>w \<in> set ws. \<exists>u \<in> set (tasks (db w)). task_job_id u = r_id j \<and> status u = success \<and>
         (tid u = trig_task_id t \<or> trig_task_id t \<notin> tid ` set (list_by_job (r_id j) (db w)))))"
proof -
  obtain r r' where r: "run_pipeline fl env r = Inr r'" "all_green r'" using smoke_main_green [OF green] by blast
  obtain resp job_id resp' task_id a v where p:
    "http_json fl (api_answer enc_job rj) = Inr (200, resp)" "py_get ''id'' JNull resp = Inr job_id"
    "http_json fl (api_answer enc_trigger (fst (trigger_endpoint MemoryQueueClient (py_str job_id) w1))) = Inr (200, resp')"
    "py_get ''task_id'' JNull resp' = Inr task_id" "a \<in> set (on_poll env (py_str job_id))" "shows_end fl task_id a v"
    "py_get ''status'' JNull v = Inr (JStr ''success'')"
    using green_pipeline [OF r] by (auto simp: create(2) trigger)
  obtain j where j: "rj = Inr j" "json_loads fl (enc_job j) = Some resp \<or> enc_job j = [] \<and> resp = JObj []"
    by (rule json_answer [OF p(1)]) (use create(1) post_job_refusal in blast)+
  obtain kvs where "json_loads fl (enc_job j) = Some (JObj kvs)" "has_field ''id'' (r_id j) kvs"
    using enc ids(1) [OF j(1)] by (auto simp: encodes_def)
  then have job_id: "py_str job_id = r_id j"
    using j(2) p(2) by (auto simp: json_loads_empty py_get_def has_field_def py_str_def)
  obtain x w2 where x: "trigger_endpoint MemoryQueueClient (r_id j) w1 = (x, w2)" by fastforce
  obtain t where t: "x = Inr t" "json_loads fl (enc_trigger t) = Some resp' \<or> enc_trigger t = [] \<and> resp' = JObj []"
    by (rule json_answer [OF p(3) [unfolded job_id x fst_conv]]) (use x trigger_refusal in blast)+
  obtain kvs' where "json_loads fl (enc_trigger t) = Some (JObj kvs')" "has_field ''task_id'' (trig_task_id t) kvs'"
    using enc ids(2) [OF j(1)] x t(1) by (auto simp: encodes_def)
  then have task_id: "task_id = JStr (trig_task_id t)"
    using t(2) p(4) by (auto simp: json_loads_empty py_get_def has_field_def)
  obtain w where w: "w \<in> set ws" "a = api_answer enc_tasks (list_job_tasks_endpoint (r_id j) (db w))"
    using p(5) job_id by (auto simp: polls)
  have "\<exists>u \<in> set (tasks (db w)). task_job_id u = r_id j \<and> status u = success \<and>
      (tid u = trig_task_id t \<or> trig_task_id t \<notin> tid ` set (list_by_job (r_id j) (db w)))"
    by (rule listed_success [OF enc _ p(6) [unfolded task_id w(2)] p(7)]) (use ids(3) w(1) in blast)
  then show ?thesis using smoke_main_green [OF green] j(1) x t(1) w(1) by blast
qed

text \<open>A concrete run: no compose project, one worker pod, and a store in which both runs of the job have
  succeeded at the first poll.\<close>

definition sample_float :: "string \<Rightarrow> string \<times> int option" where
  "sample_float s = (s, None)"

definition enc_job0 :: "job_read \<Rightarrow> string" where
  "enc_job0 r = json_dumps (JObj [(''id'', JStr (r_id r))])"

definition enc_trigger0 :: "trigger_response \<Rightarrow> string" where
  "enc_trigger0 t = json_dumps (JObj [(''task_id'', JStr (trig_task_id t))])"

definition task_json0 :: "task_read \<Rightarrow> (string \<times> json) list" where
  "task_json0 t = [(''id'', JStr (tr_id t)), (''status'', JStr (status_text (tr_status t)))]"

definition enc_tasks0 :: "task_read list \<Rightarrow> string" where
  "enc_tasks0 ts = json_dumps (JArr (map JObj (map task_json0 ts)))"

lemma ascii_literals: "ascii ''id''" "ascii ''task_id''" "ascii ''status''" "ascii (status_text st)"
  by (simp_all add: ascii_def status_text_def split: status.splits)

lemma encodes0: "encodes fl enc_job0 enc_trigger0 enc_tasks0"
  unfolding encodes_def
proof (intro conjI allI impI)
  show "\<exists>kvs. json_loads fl (enc_job0 r) = Some (JObj kvs) \<and> has_field ''id'' (r_id r) kvs" if "ascii (r_id r)" for r
    unfolding enc_job0_def using that
    by (subst json_roundtrip) (simp_all add: ascii_literals has_field_def jget_def)
  show "\<exists>kvs. json_loads fl (enc_trigger0 t) = Some (JObj kvs) \<and> has_field ''task_id'' (trig_task_id t) kvs"
    if "ascii (trig_task_id t)" for t
    unfolding enc_trigger0_def using that
    by (subst json_roundtrip) (simp_all add: ascii_literals has_field_def jget_def)
  show "\<exists>vs. json_loads fl (enc_tasks0 ts) = Some (JArr (map JObj vs)) \<and>
      list_all2 (\<lambda>kvs t. has_field ''id'' (tr_id t) kvs \<and> has_field ''status'' (status_text (tr_status t)) kvs) vs ts"
    if "\<forall>t \<in> set ts. ascii (tr_id t)" for ts
  proof (intro exI conjI)
    have "plain (JArr (map JObj (map task_json0 ts)))" using that by (auto simp: task_json0_def ascii_literals)
    then show "json_loads fl (enc_tasks0 ts) = Some (JArr (map JObj (map task_json0 ts)))"
      unfolding enc_tasks0_def by (rule json_roundtrip)
    show "list_all2 (\<lambda>kvs t. has_field ''id'' (tr_id t) kvs \<and> has_field ''status'' (status_text (tr_status t)) kvs)
        (map task_json0 ts) ts"
      by (simp add: list_all2_map1 list_all2_same task_json0_def has_field_def jget_def)
  qed
qed

definition smoke_post :: "job_read result \<times> mem_queue world" where
  "smoke_post = post_job default_settings minutely strict_int MemoryQueueClient (smoke_payload ''0a1b2c3d4e'') sample_world"

definition smoke_done :: "mem_queue world" where
  "smoke_done =
     (let w = snd (trigger_endpoint MemoryQueueClient ''a'' (snd smoke_post))
      in w\<lparr>db := (db w)\<lparr>tasks := map (\<lambda>t. t\<lparr>status := success\<rparr>) (tasks (db w))\<rparr>\<rparr>)"

definition smoke_sample :: smoke_env where
  "smoke_sample =
     \<lparr>compose_ps = no_such_file, kubectl = exited 0 ''dass-worker-normal-1'', health_answer = responds 200 ''ok'',
      metrics_answer = responds 200 ''ok'',
      localstack_answer = responds 200 (json_dumps (JObj [(''services'', JObj [(''sqs'', JStr ''running'')])])),
      queues_answer = responds 200 ''dass-tasks-normal dass-tasks-scheduled dass-tasks-retry'',
      frontend_answer = responds 502 ''Bad Gateway'', name_hex = ''0a1b2c3d4e'',
      on_create = (\<lambda>p. api_answer enc_job0 (fst smoke_post)),
      on_trigger = (\<lambda>i. api_answer enc_trigger0 (fst (trigger_endpoint MemoryQueueClient i (snd smoke_post)))),
      on_poll = (\<lambda>i. map (\<lambda>w. api_answer enc_tasks0 (list_job_tasks_endpoint i (db w))) [smoke_done])\<rparr>"

lemma smoke_sample_green: "smoke_main sample_float smoke_sample = Inr 0"
  by code_simp

theorem smoke_green_means_success_witness:
  "checks_passed sample_float smoke_sample \<and>
   (\<exists>u \<in> set (tasks (db smoke_done)). task_job_id u = ''a'' \<and> status u = success)"
proof -
  have post: "post_job default_settings minutely strict_int MemoryQueueClient (smoke_payload (name_hex smoke_sample)) sample_world =
      (fst smoke_post, snd smoke_post)" by (simp add: smoke_post_def smoke_sample_def)
  have i: "map_sum id r_id (fst smoke_post) = Inr ''a''" by code_simp
  have t: "map_sum id trig_task_id (fst (trigger_endpoint MemoryQueueClient ''a'' (snd smoke_post))) = Inr ''aaa''" by code_simp
  have j: "r_id j = ''a''" if "fst smoke_post = Inr j" for j using i that by simp
  have tids: "set (map tid (tasks (db smoke_done))) = {''aa'', ''aaa''}" by code_simp
  have a: "ascii ''a''" "ascii ''aa''" "ascii ''aaa''" by (simp_all add: ascii_def)
  have "\<forall>u \<in> set (tasks (db smoke_done)). tid u \<in> {''aa'', ''aaa''}" using tids by (metis image_eqI list.set_map)
  then have ids: "\<forall>w \<in> set [smoke_done]. \<forall>u \<in> set (tasks (db w)). ascii (tid u)" using a by auto
  have "ascii (trig_task_id x)" if "fst smoke_post = Inr j" "fst (trigger_endpoint MemoryQueueClient (r_id j) (snd smoke_post)) = Inr x" for j x
    using t that a j [OF that(1)] by simp
  then show ?thesis
    using smoke_green_means_success [OF encodes0 post _ _ _ _ _ ids smoke_sample_green] j a
    by (auto simp: smoke_sample_def)
qed

end
