(* ===== verification/Dag_Demo.thy ===== *)
theory Dag_Demo
  imports Dependency_Scheduler
begin

text \<open>
  \<open>scripts/dag_demo.py\<close>: three one-time jobs with the edges of \<open>C\<close> after \<open>A\<close> and \<open>B\<close>, written straight
  into the database, a task each for \<open>A\<close> and \<open>B\<close>, and fifteen looks at the tasks of \<open>C\<close>. The session keeps
  what it has loaded: a query returns the object it already holds for a row, with the values it was loaded
  with, and only \<open>refresh\<close> reads them again.
\<close>

subsection \<open>Setting up\<close>

definition demo_command :: "string \<Rightarrow> string" where
  "demo_command nm = ''echo '' @ [chr_of 39] @ ''Executing '' @ nm @ [chr_of 39] @ '' && sleep 2''"

definition create_normal_job :: "uuid \<Rightarrow> time \<Rightarrow> string \<Rightarrow> job" where
  "create_normal_job i now nm =
     \<lparr>jid = i, name = nm, job_type = normal, cron_expression = None, action_type = ''shell'',
      action_config = JObj [(''command'', JStr (demo_command nm))],
      runtime_spec = Some (JObj [(''image'', JStr ''alpine:3.20''),
        (''command'', JArr [JStr ''sh'', JStr ''-c'', JStr (demo_command nm)])]),
      enabled = True, concurrency_policy = allow, max_retries = 0, next_fire_at = None,
      jcreated_at = now, updated_at = now\<rparr>"

definition demo_name :: "string \<Rightarrow> time \<Rightarrow> string" where
  "demo_name letter now = ''Normal-Job-'' @ letter @ ''-'' @ show_int (now div seconds 1)"

text \<open>The first commit: the three rows and the two edges, or none of them.\<close>

definition insert_jobs :: "job \<Rightarrow> job \<Rightarrow> job \<Rightarrow> database \<Rightarrow> database result" where
  "insert_jobs c a b d =
     (case job_create c [] d of
        Inl e \<Rightarrow> Inl e
      | Inr d1 \<Rightarrow>
          (case job_create a [(jid a, jid c)] d1 of
             Inl e \<Rightarrow> Inl e
           | Inr d2 \<Rightarrow> job_create b [(jid b, jid c)] d2))"

definition insert_tasks :: "task \<Rightarrow> task \<Rightarrow> database \<Rightarrow> database result" where
  "insert_tasks t u d = (case task_create t d of Inl e \<Rightarrow> Inl e | Inr d1 \<Rightarrow> task_create u d1)"

definition demo_setup :: "'q queue_client \<Rightarrow> 'q world \<Rightarrow> (uuid \<times> task \<times> task) result \<times> 'q world" where
  "demo_setup qc w =
     (let (n1, w) = utcnow w; (c, w) = uuid4 w; (n2, w) = utcnow w; (a, w) = uuid4 w; (n3, w) = utcnow w; (b, w) = uuid4 w;
          (now, w) = utcnow w
      in case insert_jobs (create_normal_job c now (demo_name ''C'' n1)) (create_normal_job a now (demo_name ''A'' n2))
                (create_normal_job b now (demo_name ''B'' n3)) (db w) of
           Inl e \<Rightarrow> (Inl e, w)
         | Inr d \<Rightarrow>
             (let (t, w) = uuid4 (w\<lparr>db := d\<rparr>); (u, w) = uuid4 w; (now', w) = utcnow w;
                  task_a = new_task t a manual 0 now'; task_b = new_task u b manual 0 now'
              in case insert_tasks task_a task_b (db w) of
                   Inl e \<Rightarrow> (Inl e, w)
                 | Inr d' \<Rightarrow>
                     (let w = w\<lparr>db := d'\<rparr> in
                      case send_task qc t (normal_queue w) of
                        Inl e \<Rightarrow> (Inl e, w)
                      | Inr q \<Rightarrow>
                          (case send_task qc u q of
                             Inl e \<Rightarrow> (Inl e, w\<lparr>normal_queue := q\<rparr>)
                           | Inr q' \<Rightarrow> (Inr (c, task_a, task_b), w\<lparr>normal_queue := q'\<rparr>)))))"

subsection \<open>Watching\<close>

type_synonym identity_map = "uuid \<Rightarrow> task option"

definition loaded :: "identity_map \<Rightarrow> task \<Rightarrow> task" where
  "loaded im t = (case im (tid t) of None \<Rightarrow> t | Some old \<Rightarrow> old)"

definition query_tasks :: "uuid \<Rightarrow> database \<Rightarrow> identity_map \<Rightarrow> task list \<times> identity_map" where
  "query_tasks c d im =
     (let objs = map (loaded im) (filter (\<lambda>t. task_job_id t = c) (tasks d))
      in (objs, fold (\<lambda>t im. im(tid t \<mapsto> t)) objs im))"

datatype demo_line = c_triggered uuid status | upstreams status status

text \<open>What the script prints, and how it ends: it has seen the end of \<open>C\<close>, has looked for the last time, or
  \<open>refresh\<close> has raised because a row is gone.\<close>

datatype demo_end = saw_end | looked_out | refresh_failed

fun watch :: "uuid \<Rightarrow> uuid \<Rightarrow> uuid \<Rightarrow> identity_map \<Rightarrow> database list \<Rightarrow> demo_line list \<times> demo_end" where
  "watch a b c im [] = ([], looked_out)"
| "watch a b c im (d # ds) =
     (case query_tasks c d im of
        (t # ts, im') \<Rightarrow>
          (if status t \<in> {success, failed, final_failed} then ([c_triggered (tid t) (status t)], saw_end)
           else map_prod ((#) (c_triggered (tid t) (status t))) id (watch a b c im' ds))
      | ([], im') \<Rightarrow>
          (case (get_task_row d a, get_task_row d b) of
             (Some ta, Some tb) \<Rightarrow> map_prod ((#) (upstreams (status ta) (status tb))) id (watch a b c im' ds)
           | _ \<Rightarrow> ([], refresh_failed)))"

subsection \<open>What the demo sets up\<close>

lemma insert_jobs_effect:
  assumes wf: "db_wf d" "dag d" and ids: "distinct [jid c, jid a, jid b]" "{jid c, jid a, jid b} \<inter> job_ids d = {}"
    and names: "distinct [name c, name a, name b]" "{name c, name a, name b} \<inter> name ` set (jobs d) = {}"
    and ok: "job_ok c" "job_ok a" "job_ok b"
  shows "\<exists>d'. insert_jobs c a b d = Inr d' \<and> jobs d' = jobs d @ [c, a, b] \<and> tasks d' = tasks d \<and>
    job_dependencies d' = job_dependencies d @ [(jid a, jid c), (jid b, jid c)] \<and> db_wf d' \<and> dag d'"
proof -
  let ?d1 = "d\<lparr>jobs := jobs d @ [c]\<rparr>"
  let ?d2 = "?d1\<lparr>jobs := jobs d @ [c, a], job_dependencies := job_dependencies d @ [(jid a, jid c)]\<rparr>"
  let ?d3 = "?d2\<lparr>jobs := jobs d @ [c, a, b], job_dependencies := job_dependencies d @ [(jid a, jid c), (jid b, jid c)]\<rparr>"
  have free: "name r \<noteq> n" if "r \<in> set (jobs d)" "n \<in> {name c, name a, name b}" for r n using names(2) that by fastforce
  have c1: "job_create c [] d = Inr ?d1" using ids(2) free by (auto simp: job_create_def name_taken_def)
  have c2: "job_create a [(jid a, jid c)] ?d1 = Inr ?d2"
    using ids names(1) free by (auto simp: job_create_def name_taken_def job_ids_def)
  have c3: "job_create b [(jid b, jid c)] ?d2 = Inr ?d3"
    using ids names(1) free by (auto simp: job_create_def name_taken_def job_ids_def)
  have fk: "e \<in> set (job_dependencies d) \<Longrightarrow> fst e \<in> job_ids d \<and> snd e \<in> job_ids d" for e
    using wf(1) by (auto simp: db_wf_def fks_ok_def)
  have w1: "db_wf ?d1" by (rule job_create_wf [OF wf(1) c1 ok(1)]) auto
  have w2: "db_wf ?d2" by (rule job_create_wf [OF w1 c2 ok(2)]) (use fk ids in \<open>auto simp: job_ids_def dest: fk\<close>)
  have w3: "db_wf ?d3" by (rule job_create_wf [OF w2 c3 ok(3)]) (use fk ids in \<open>auto simp: job_ids_def dest: fk\<close>)
  have "acyclic (set (job_dependencies ?d3))"
  proof -
    have old: "acyclic (set (job_dependencies d))" using wf(2) by (simp add: dag_def)
    have stuck: "(jid c, y) \<in> E\<^sup>* \<Longrightarrow> \<forall>z. (jid c, z) \<notin> E \<Longrightarrow> y = jid c" for y and E :: "(uuid \<times> uuid) set"
      by (auto elim: converse_rtranclE)
    have none: "\<forall>z. (jid c, z) \<notin> insert (jid a, jid c) (set (job_dependencies d))" "\<forall>z. (jid c, z) \<notin> set (job_dependencies d)"
      using ids fk by (auto dest: fk)
    have "acyclic (insert (jid a, jid c) (set (job_dependencies d)))"
      using old stuck [OF _ none(2), of "jid a"] ids(1) by (auto simp: acyclic_insert)
    then have "acyclic (insert (jid b, jid c) (insert (jid a, jid c) (set (job_dependencies d))))"
      using stuck [OF _ none(1), of "jid b"] ids(1) by (auto simp: acyclic_insert)
    then show ?thesis by (simp add: insert_commute)
  qed
  then show ?thesis using c1 c2 c3 w3 by (simp add: insert_jobs_def dag_def)
qed

lemma demo_names: "distinct [demo_name ''C'' n1, demo_name ''A'' n2, demo_name ''B'' n3]"
  by (simp add: demo_name_def)

text \<open>The demo adds the graph it announces to any well-formed store: two edges into \<open>C\<close>, no cycle, and one pending
  task with its message for each of \<open>A\<close> and \<open>B\<close>, none for \<open>C\<close>.\<close>

lemma demo_setup_graph:
  assumes wf: "db_wf (db w)" "dag (db w)" "uuids_fresh w"
    and names: "\<And>l n. l \<in> {''A'', ''B'', ''C''} \<Longrightarrow> demo_name l n \<notin> name ` set (jobs (db w))"
  shows "\<exists>ja jb jc ta tb w'. demo_setup MemoryQueueClient w = (Inr (jid jc, ta, tb), w') \<and>
    jobs (db w') = jobs (db w) @ [jc, ja, jb] \<and> tasks (db w') = tasks (db w) @ [ta, tb] \<and>
    job_dependencies (db w') = job_dependencies (db w) @ [(jid ja, jid jc), (jid jb, jid jc)] \<and>
    (task_job_id ta, task_job_id tb) = (jid ja, jid jb) \<and> status ta = pending \<and> status tb = pending \<and>
    queued (normal_queue w') = queued (normal_queue w) + {#task_body (tid ta), task_body (tid tb)#} \<and>
    db_wf (db w') \<and> dag (db w')"
proof -
  let ?n = "uuids_drawn w" and ?k = "ticks w"
  define u where "u k = uuid_source w (?n + k)" for k
  define t where "t k = clock w (?k + k)" for k
  have u: "u i = u k \<longleftrightarrow> i = k" "u k \<notin> job_ids (db w)" "u k \<notin> task_ids (db w)" for i k
    using wf(3) by (auto simp: u_def uuids_fresh_def inj_eq)
  let ?c = "create_normal_job (u 0) (t 3) (demo_name ''C'' (t 0))"
  let ?a = "create_normal_job (u 1) (t 3) (demo_name ''A'' (t 1))"
  let ?b = "create_normal_job (u 2) (t 3) (demo_name ''B'' (t 2))"
  have ok: "job_ok (create_normal_job i now nm)" for i now nm by (simp add: job_ok_def create_normal_job_def)
  have "\<exists>d. insert_jobs ?c ?a ?b (db w) = Inr d \<and> jobs d = jobs (db w) @ [?c, ?a, ?b] \<and> tasks d = tasks (db w) \<and>
      job_dependencies d = job_dependencies (db w) @ [(jid ?a, jid ?c), (jid ?b, jid ?c)] \<and> db_wf d \<and> dag d"
    by (rule insert_jobs_effect [OF wf(1,2) _ _ _ _ ok ok ok]) (use u names demo_names in \<open>auto simp: create_normal_job_def\<close>)
  then obtain d where d: "insert_jobs ?c ?a ?b (db w) = Inr d" "jobs d = jobs (db w) @ [?c, ?a, ?b]" "tasks d = tasks (db w)"
    "job_dependencies d = job_dependencies (db w) @ [(u 1, u 0), (u 2, u 0)]" "db_wf d" "dag d"
    by (auto simp: create_normal_job_def)
  let ?ta = "new_task (u 3) (u 1) manual 0 (t 4)" and ?tb = "new_task (u 4) (u 2) manual 0 (t 4)"
  let ?d1 = "d\<lparr>tasks := tasks d @ [?ta]\<rparr>" and ?d2 = "d\<lparr>tasks := tasks d @ [?ta, ?tb]\<rparr>"
  let ?w' = "\<lambda>q. w\<lparr>db := ?d2, normal_queue := q, ticks := ?k + 5, uuids_drawn := ?n + 5\<rparr>"
  have c: "task_create ?ta d = Inr ?d1" "task_create ?tb ?d1 = Inr ?d2"
    using d u by (auto simp: task_create_def task_ids_def job_ids_def create_normal_job_def)
  have d2: "db_wf ?d2" using task_create_wf [OF task_create_wf [OF d(5) c(1)] c(2)] by simp
  have dag2: "dag ?d2" using d(6) by (simp add: dag_def)
  obtain q1 where q1: "send_task MemoryQueueClient (u 3) (normal_queue w) = Inr q1" using memq.send_total by blast
  obtain q2 where q2: "send_task MemoryQueueClient (u 4) q1 = Inr q2" using memq.send_total by blast
  have msgs: "queued q2 = queued (normal_queue w) + {#task_body (u 3), task_body (u 4)#}"
    using memq.send_waiting [OF q1] memq.send_waiting [OF q2] by simp
  have run: "demo_setup MemoryQueueClient w = (Inr (u 0, ?ta, ?tb), ?w' q2)"
    using d(1) c q1 q2 by (simp add: demo_setup_def utcnow_def uuid4_def insert_tasks_def Let_def u_def t_def eval_nat_numeral)
  show ?thesis
    by (rule exI [of _ ?a], rule exI [of _ ?b], rule exI [of _ ?c], rule exI [of _ ?ta], rule exI [of _ ?tb],
        rule exI [of _ "?w' q2"]) (use d d2 dag2 msgs run in \<open>simp add: create_normal_job_def\<close>)
qed

subsection \<open>What the demo sees\<close>

lemma query_first:
  assumes "filter (\<lambda>t. task_job_id t = c) (tasks d) = t # ts"
  shows "\<exists>objs im'. query_tasks c d im = (loaded im t # objs, im')"
  using assms by (simp add: query_tasks_def Let_def)

text \<open>Once a task of \<open>C\<close> has been loaded in an open state, no later look shows another status: the script reports
  that state until its last look, whatever the task has become in the store.\<close>

lemma fold_loaded_keeps:
  "im k = Some o1 \<Longrightarrow> tid o1 = k \<Longrightarrow> \<forall>t \<in> set objs. tid t = k \<longrightarrow> t = o1 \<Longrightarrow> fold (\<lambda>t im. im(tid t \<mapsto> t)) objs im k = Some o1"
  by (induction objs arbitrary: im) auto

definition keyed :: "identity_map \<Rightarrow> bool" where
  "keyed im \<longleftrightarrow> (\<forall>i x. im i = Some x \<longrightarrow> tid x = i)"

lemma keyed_upd: "keyed im \<Longrightarrow> keyed (im(tid t \<mapsto> t))"
  by (simp add: keyed_def)

lemma keyed_fold: "keyed im \<Longrightarrow> keyed (fold (\<lambda>t im. im(tid t \<mapsto> t)) objs im)"
  by (induction objs arbitrary: im) (simp_all add: keyed_upd)

lemma loaded_once:
  assumes im: "im k = Some o1" "tid o1 = k" "keyed im"
    and q: "query_tasks c d im = (objs, im')"
  shows "im' k = Some o1 \<and> keyed im'"
proof -
  have objs: "objs = map (loaded im) (filter (\<lambda>t. task_job_id t = c) (tasks d))"
    and im': "im' = fold (\<lambda>t im. im(tid t \<mapsto> t)) objs im" using q by (auto simp: query_tasks_def Let_def)
  have tid: "tid (loaded im t) = tid t" for t using im(3) by (auto simp: loaded_def keyed_def split: option.splits)
  have old: "loaded im t = o1" if "tid (loaded im t) = k" for t using that tid im(1) by (simp add: loaded_def)
  have "\<forall>t \<in> set objs. tid t = k \<longrightarrow> t = o1" unfolding objs set_map using old by blast
  then have "im' k = Some o1" unfolding im' by (rule fold_loaded_keeps [where im = im, OF im(1,2)])
  then show ?thesis using keyed_fold [OF im(3)] unfolding im' by blast
qed

lemma watch_stale:
  assumes "im k = Some o1" "tid o1 = k" "keyed im" "status o1 \<notin> {success, failed, final_failed}"
    and "\<forall>d \<in> set ds. \<exists>t ts. filter (\<lambda>t. task_job_id t = c) (tasks d) = t # ts \<and> tid t = k"
  shows "watch a b c im ds = (replicate (length ds) (c_triggered k (status o1)), looked_out)"
  using assms
proof (induction ds arbitrary: im)
  case (Cons d ds)
  obtain t ts where t: "filter (\<lambda>t. task_job_id t = c) (tasks d) = t # ts" "tid t = k" using Cons.prems(5) by auto
  obtain objs im' where q: "query_tasks c d im = (loaded im t # objs, im')" using query_first [OF t(1)] by blast
  have "loaded im t = o1" using t(2) Cons.prems(1) by (simp add: loaded_def)
  moreover have "im' k = Some o1 \<and> keyed im'"
    by (rule loaded_once [OF Cons.prems(1,2,3) q])
  ultimately show ?case using Cons.IH [of im'] Cons.prems q by auto
qed simp

text \<open>A whole run on an empty store: both tasks succeed, the next chaining pass gives \<open>C\<close> its one task, and the
  demo keeps printing it as pending although it has succeeded in the meantime.\<close>

definition finished :: "status \<Rightarrow> database \<Rightarrow> database" where
  "finished st d = d\<lparr>tasks := map (\<lambda>t. t\<lparr>status := st, finished_at := Some (tcreated_at t)\<rparr>) (tasks d)\<rparr>"

definition demo_world :: "mem_queue world" where
  "demo_world = snd (demo_setup MemoryQueueClient sample_world)"

definition chained_world :: "mem_queue world" where
  "chained_world = snd (trigger_dependent_jobs MemoryQueueClient (demo_world\<lparr>db := finished success (db demo_world)\<rparr>))"

lemma demo_triggers_c:
  "map (\<lambda>t. (task_job_id t, status t, trigger_type t)) (tasks (db chained_world)) =
     [(''aa'', success, manual), (''aaa'', success, manual), (''a'', pending, dependency)]"
  by code_simp

lemma demo_sees_stale_state:
  "watch ''aaaa'' ''aaaaa'' ''a'' (\<lambda>_. None)
     [db demo_world, db chained_world, finished success (db chained_world), finished success (db chained_world)] =
   ([upstreams pending pending, c_triggered ''aaaaaa'' pending, c_triggered ''aaaaaa'' pending, c_triggered ''aaaaaa'' pending], looked_out)"
  by code_simp

end
