(* ===== verification/Delivery.thy ===== *)
theory Delivery
  imports Load_Scripts
begin

text \<open>
  From a request to the end of its run. Every operation that adds a pending task posts its message in the
  same call, so no pending task is without a message (\<open>backed\<close>); the worker process of \<open>app/cli.py\<close> then
  works its queues off. \<open>pool_round\<close> is one turn of a pool's loop with its handlers run one after the
  other, \<open>run_all\<close> a turn of every pool of the process. The queues are the in-memory ones.
\<close>

subsection \<open>Pending tasks and their messages\<close>

definition pending_tasks :: "database \<Rightarrow> task list" where
  "pending_tasks d = filter (\<lambda>t. status t = pending) (tasks d)"

definition pending_bodies :: "database \<Rightarrow> string multiset" where
  "pending_bodies d = mset (map (\<lambda>t. task_body (tid t)) (pending_tasks d))"

definition running_ids :: "database \<Rightarrow> uuid set" where
  "running_ids d = tid ` {t \<in> set (tasks d). status t = running}"

definition messages :: "('q \<Rightarrow> string multiset) \<Rightarrow> 'q world \<Rightarrow> string multiset" where
  "messages waiting w = waiting (normal_queue w) + waiting (scheduled_queue w) + waiting (retry_queue w)"

text \<open>Every pending task has its message, in a queue or among those in hand.\<close>

definition backed :: "string multiset \<Rightarrow> mem_queue world \<Rightarrow> bool" where
  "backed in_hand w \<longleftrightarrow> pending_bodies (db w) \<subseteq># messages queued w + in_hand"

text \<open>An operation that posts a message for every task it makes pending.\<close>

definition posts :: "('q \<Rightarrow> string multiset) \<Rightarrow> 'q world \<Rightarrow> 'q world \<Rightarrow> bool" where
  "posts waiting w w' \<longleftrightarrow>
     running_ids (db w') \<subseteq> running_ids (db w) \<and>
     draws w w' \<and> task_ids (db w') \<subseteq> task_ids (db w) \<union> drawn_ids w' \<and>
     (\<exists>new. pending_bodies (db w') \<subseteq># pending_bodies (db w) + new \<and> messages waiting w' = messages waiting w + new)"

lemma posts_refl [simp]: "posts waiting w w"
  by (auto simp: posts_def intro: exI [of _ "{#}"])

lemma posts_trans:
  assumes "posts waiting w w1" "posts waiting w1 w2"
  shows "posts waiting w w2"
proof -
  from assms obtain n n' where
    n: "pending_bodies (db w1) \<subseteq># pending_bodies (db w) + n" "messages waiting w1 = messages waiting w + n" and
    n': "pending_bodies (db w2) \<subseteq># pending_bodies (db w1) + n'" "messages waiting w2 = messages waiting w1 + n'"
    unfolding posts_def by blast
  have "pending_bodies (db w2) \<subseteq># pending_bodies (db w) + (n + n')"
    using subset_mset.order_trans [OF n'(1) mset_subset_eq_mono_add [OF n(1) subset_mset.order_refl]] by (simp add: ac_simps)
  moreover have "messages waiting w2 = messages waiting w + (n + n')" using n(2) n'(2) by (simp add: ac_simps)
  moreover have "draws w w2" "running_ids (db w2) \<subseteq> running_ids (db w)"
    using assms draws_trans unfolding posts_def by auto
  moreover have "task_ids (db w2) \<subseteq> task_ids (db w) \<union> drawn_ids w2"
    using assms drawn_ids_mono [of w1 w2] unfolding posts_def by blast
  ultimately show ?thesis unfolding posts_def by blast
qed

text \<open>A step that leaves the tasks and the queues alone, and one that creates a task and sends its message.\<close>

lemma posts_same:
  assumes "tasks (db w') = tasks (db w)" "messages waiting w' = messages waiting w" "draws w w'"
  shows "posts waiting w w'"
  using assms by (auto simp: posts_def task_ids_def pending_bodies_def pending_tasks_def running_ids_def intro: exI [of _ "{#}"])

lemma messages_quiet: "quiet w w' \<Longrightarrow> messages waiting w' = messages waiting w"
  by (simp add: messages_def quietD)

lemma posts_quiet: "quiet w w' \<Longrightarrow> posts waiting w w'"
  by (rule posts_same) (simp_all add: messages_def quiet_def draws_def)

lemma posts_stored: "quiet w w1 \<Longrightarrow> tasks d = tasks (db w) \<Longrightarrow> posts waiting w (w1\<lparr>db := d\<rparr>)"
  by (rule posts_same) (simp_all add: messages_def quiet_def draws_def)

lemma posts_created:
  assumes "task_create t d = Inr d'" "status t = pending" "tasks d = tasks (db w)" "tasks (db w') = tasks d'"
    and "messages waiting w' = add_mset (task_body (tid t)) (messages waiting w)"
    and "tid t \<in> drawn_ids w'" "draws w w'"
  shows "posts waiting w w'"
  using task_create_SomeD [OF assms(1)] assms(2-)
  by (auto simp: posts_def task_ids_def pending_bodies_def pending_tasks_def running_ids_def intro!: exI [of _ "{#task_body (tid t)#}"])

lemma pending_bodies_filter: "tasks d' = filter P (tasks d) \<Longrightarrow> pending_bodies d' \<subseteq># pending_bodies d"
proof -
  assume "tasks d' = filter P (tasks d)"
  then have "mset (pending_tasks d') = filter_mset P (mset (pending_tasks d))"
    by (simp add: pending_tasks_def filter_filter_mset conj_commute)
  then show ?thesis unfolding pending_bodies_def mset_map by (simp add: image_mset_subseteq_mono)
qed

lemma posts_deleted:
  assumes "delete_job i w = (r, w')"
  shows "posts waiting w w'"
proof (cases "job_get i (db w)")
  case None
  with assms show ?thesis by (simp add: delete_job_def)
next
  case (Some j)
  then have w': "w' = w\<lparr>db := job_delete (jid j) (db w)\<rparr>" using assms by (simp add: delete_job_def)
  then have "tasks (db w') = filter (\<lambda>t. task_job_id t \<noteq> jid j) (tasks (db w))" by (simp add: job_delete_def)
  moreover from this have "running_ids (db w') \<subseteq> running_ids (db w)" by (auto simp: running_ids_def)
  moreover have "messages waiting w' = messages waiting w + {#}" using w' by (simp add: messages_def)
  moreover have "draws w w'" "task_ids (db w') \<subseteq> task_ids (db w)"
    using w' by (auto simp: job_delete_def task_ids_def draws_def)
  ultimately show ?thesis using pending_bodies_filter [of "db w'"] unfolding posts_def by (metis add.right_neutral le_supI1)
qed

context reliable_queue
begin

lemma enqueue_task_posts: "enqueue_task client i w = (r, w') \<Longrightarrow> posts waiting w w'"
proof (erule enqueue_task_cases, goal_cases)
  case (1 e)
  then show ?case by (simp add: posts_quiet)
next
  case (2 e t_id now w1 w2 d)
  with send_not_error show ?case by blast
next
  case (3 t_id now w1 w2 d q)
  have "quiet w w2" using quiet_trans [OF quiet_uuid4 [OF 3(2)] quiet_utcnow [OF 3(3)]] .
  then show ?case
    using 3(3,6) send_waiting [OF 3(5)]
    by (intro posts_created [OF 3(4)])
      (auto simp: messages_def quiet_def draws_def intro!: uuid4_drawn [OF 3(2)] dest!: quiet_utcnow)
qed

lemma dispatch_if_one_time_posts: "dispatch_if_one_time client j w = (r, w') \<Longrightarrow> posts waiting w w'"
  by (auto simp: dispatch_if_one_time_def split: if_splits prod.splits sum.splits dest: enqueue_task_posts)

lemma create_job_posts: "create_job cfg cr client p w = (r, w') \<Longrightarrow> posts waiting w w'"
proof (erule create_job_cases, goal_cases)
  case (1 e)
  then show ?case by (simp add: posts_quiet)
next
  case (2 s spec i now w1 w2 w3 d r4 j)
  have "quiet w w3"
    using quiet_trans [OF resolve_schedule_quiet [OF 2(1)] quiet_trans [OF quiet_uuid4 [OF 2(3)] quiet_utcnow [OF 2(4)]]] .
  moreover have "tasks d = tasks (db w)" using job_create_SomeD [OF 2(6)] by simp
  ultimately have "posts waiting w (w3\<lparr>db := d\<rparr>)" by (rule posts_stored)
  then show ?case using dispatch_if_one_time_posts [OF 2(8)] posts_trans by blast
qed

lemma update_job_posts: "update_job cfg cr li client i p w = (r, w') \<Longrightarrow> posts waiting w w'"
proof (erule update_job_cases, goal_cases)
  case (1 e)
  then show ?case by (simp add: posts_quiet)
next
  case (2 j0 s spec now w1 w2 d j2 j4)
  have "quiet w w2" using quiet_trans [OF new_schedule_quiet [OF 2(2)] quiet_utcnow [OF 2(5)]] .
  then have stored: "posts waiting w (w2\<lparr>db := d\<rparr>)" using store_update_tasks [OF 2(6)] by (rule posts_stored)
  obtain r4 w4 where d4: "dispatch_if_one_time client j4 (w2\<lparr>db := d\<rparr>) = (r4, w4)" by fastforce
  then have "w' = w4 \<or> w' = w2\<lparr>db := d\<rparr>" using 2(8) by (cases r4) (auto split: if_splits)
  then show ?case using stored posts_trans [OF stored dispatch_if_one_time_posts [OF d4]] by blast
qed

lemma trigger_job_posts: "trigger_job client i w = (r, w') \<Longrightarrow> posts waiting w w'"
  by (auto simp: trigger_job_def split: option.splits dest: enqueue_task_posts)

lemma retry_task_posts: "retry_task client t_id w = (r, w') \<Longrightarrow> posts waiting w w'"
proof (erule retry_task_cases, goal_cases)
  case (3 t e i now w1 w2)
  then show ?case using posts_quiet [OF quiet_trans [OF quiet_uuid4 [OF 3(4)] quiet_utcnow [OF 3(5)]]] by simp
next
  case (4 t i now w1 w2 d)
  have q: "quiet w w2" using quiet_trans [OF quiet_uuid4 [OF 4(3)] quiet_utcnow [OF 4(4)]] .
  obtain q' where s: "send_task client i (retry_queue w) = Inr q'" using send_total by blast
  then have "messages waiting w' = add_mset (task_body i) (messages waiting w)" "tasks (db w') = tasks d"
    "draws w w'" "draws w2 w'"
    using 4(6) q send_waiting [OF s] by (auto simp: messages_def quiet_def draws_def)
  then show ?case
    using uuid4_drawn [OF 4(3) draws_trans [OF quiet_draws [OF quiet_utcnow [OF 4(4)]]]] by (intro posts_created [OF 4(5)]) simp_all
qed simp_all

lemma advanced_posts: "advanced cr job now w w1 d j \<Longrightarrow> posts waiting w (w1\<lparr>db := d\<rparr>)"
  by (auto simp: advanced_def dest!: merge_commit_frame quiet_utcnow intro: posts_stored)

lemma dispatch_job_posts: "dispatch_job cr client job now w = (r, w') \<Longrightarrow> posts waiting w w'"
proof (erule dispatch_job_cases, goal_cases)
  case (1 err)
  then show ?case by (simp add: posts_quiet)
next
  case (2 w1 d j2)
  then show ?case using advanced_posts by blast
next
  case (3 w1 d j2 i w3 created w4 err)
  have "posts waiting (w1\<lparr>db := d\<rparr>) w4" using posts_quiet [OF quiet_trans [OF quiet_uuid4 [OF 3(3)] quiet_utcnow [OF 3(4)]]] .
  then show ?case using posts_trans [OF advanced_posts [OF 3(1)]] 3(7) by simp
next
  case (4 w1 d j2 i w3 created w4 d' err)
  with send_not_error show ?case by blast
next
  case (5 w1 d j2 i w3 created w4 d' q)
  have q: "quiet (w1\<lparr>db := d\<rparr>) w4" using quiet_trans [OF quiet_uuid4 [OF 5(3)] quiet_utcnow [OF 5(4)]] .
  have q1: "quiet w w1" using 5(1) by (auto simp: advanced_def quiet_utcnow)
  have "draws w4 w'" using 5(8) by (simp add: draws_def)
  then have i: "i \<in> drawn_ids w'"
    using uuid4_drawn [OF 5(3) draws_trans [OF quiet_draws [OF quiet_utcnow [OF 5(4)]]]] by simp
  have "posts waiting (w1\<lparr>db := d\<rparr>) w'"
    by (rule posts_created [OF 5(5)]) (use i 5(6,8) q q1 send_waiting [OF 5(6)] in \<open>auto simp: messages_def quiet_def draws_def\<close>)
  then show ?case by (rule posts_trans [OF advanced_posts [OF 5(1)]])
qed

lemma dispatch_if_ready_posts:
  assumes "dispatch_if_ready client latest ups j w = (r, w')"
  shows "posts waiting w w'"
proof (cases "ready latest ups (jid j)")
  case True
  obtain i w1 now w2 where u: "uuid4 w = (i, w1)" "utcnow w1 = (now, w2)" by fastforce
  have q: "quiet w w2" using quiet_trans [OF quiet_uuid4 [OF u(1)] quiet_utcnow [OF u(2)]] .
  show ?thesis
  proof (cases "task_create (new_task i (jid j) dependency 0 now) (db w)")
    case (Inl e)
    then show ?thesis using assms True u q by (simp add: dispatch_if_ready_def quietD posts_quiet)
  next
    case (Inr d)
    obtain q' where s: "send_task client i (normal_queue w) = Inr q'" using send_total by blast
    have w': "w' = w2\<lparr>db := d, normal_queue := q'\<rparr>" using assms True u Inr s q by (simp add: dispatch_if_ready_def quietD Let_def)
    then have "i \<in> drawn_ids w'"
      using uuid4_drawn [OF u(1) draws_trans [OF quiet_draws [OF quiet_utcnow [OF u(2)]]]] by (simp add: draws_def)
    then show ?thesis
      using w' q send_waiting [OF s] by (intro posts_created [OF Inr]) (auto simp: messages_def quiet_def draws_def)
  qed
qed (use assms in \<open>simp add: dispatch_if_ready_def\<close>)

end

subsection \<open>The worker process\<close>

text \<open>One turn of \<open>_run_queue_pool\<close>: with nothing in flight the pool asks for its whole budget, waiting two
  seconds; an exception of the receive is logged.\<close>

definition pool_round ::
    "'q queue_client \<Rightarrow> 'q environment \<Rightarrow> worker \<Rightarrow> (container_spec \<Rightarrow> execution_result result) \<Rightarrow> (error \<Rightarrow> string) \<Rightarrow>
     (string \<Rightarrow> string \<times> int option) \<Rightarrow> queue_path \<Rightarrow> 'q world \<Rightarrow> 'q world" where
  "pool_round qc env wk executor exc_str fl p w =
     (case receive_tasks qc max_concurrent_per_queue 2 (pool_queue p w) of
        Inl e \<Rightarrow> w
      | Inr (ms, q) \<Rightarrow> fold (handle_message qc p env wk executor exc_str fl) ms (set_pool_queue p q w))"

definition run_all ::
    "'q queue_client \<Rightarrow> 'q environment \<Rightarrow> worker \<Rightarrow> (container_spec \<Rightarrow> execution_result result) \<Rightarrow> (error \<Rightarrow> string) \<Rightarrow>
     (string \<Rightarrow> string \<times> int option) \<Rightarrow> (string \<times> queue_path) list \<Rightarrow> 'q world \<Rightarrow> 'q world" where
  "run_all qc env wk executor exc_str fl pools = fold (\<lambda>(nm, p). pool_round qc env wk executor exc_str fl p) pools"

text \<open>\<open>run_worker(queue)\<close> for a number of turns; \<open>None\<close> is \<open>SystemExit\<close>.\<close>

definition worker_process ::
    "'q queue_client \<Rightarrow> 'q environment \<Rightarrow> worker \<Rightarrow> (container_spec \<Rightarrow> execution_result result) \<Rightarrow> (error \<Rightarrow> string) \<Rightarrow>
     (string \<Rightarrow> string \<times> int option) \<Rightarrow> string option \<Rightarrow> nat \<Rightarrow> 'q world \<Rightarrow> 'q world option" where
  "worker_process qc env wk executor exc_str fl queue turns w =
     (case worker_pools queue of
        None \<Rightarrow> None
      | Some pools \<Rightarrow> Some ((run_all qc env wk executor exc_str fl pools ^^ turns) w))"

subsection \<open>One message\<close>

definition succeeds :: "(container_spec \<Rightarrow> execution_result result) \<Rightarrow> (error \<Rightarrow> string) \<Rightarrow> database \<Rightarrow> task \<Rightarrow> bool" where
  "succeeds executor exc_str d t =
     (case get_job_row d (task_job_id t) of None \<Rightarrow> False | Some j \<Rightarrow> er_success (execute_job executor exc_str j))"

definition retries_left :: "database \<Rightarrow> task \<Rightarrow> nat" where
  "retries_left d t = (case get_job_row d (task_job_id t) of None \<Rightarrow> 0 | Some j \<Rightarrow> nat (max_retries j - retry_count t))"

definition end_status :: "(container_spec \<Rightarrow> execution_result result) \<Rightarrow> (error \<Rightarrow> string) \<Rightarrow> database \<Rightarrow> task \<Rightarrow> status" where
  "end_status executor exc_str d t =
     (if succeeds executor exc_str d t then success else if 0 < retries_left d t then failed else final_failed)"

lemma end_status_terminal [simp]: "terminal (end_status executor exc_str d t)"
  by (simp add: end_status_def terminal_def)

text \<open>What became of a task: nothing, or it was pending and has been run.\<close>

definition ran ::
    "(container_spec \<Rightarrow> execution_result result) \<Rightarrow> (error \<Rightarrow> string) \<Rightarrow> database \<Rightarrow> task \<Rightarrow> task \<Rightarrow> bool" where
  "ran executor exc_str d t t' \<longleftrightarrow>
     t' = t \<or>
     status t = pending \<and> tid t' = tid t \<and> task_job_id t' = task_job_id t \<and> retry_count t' = retry_count t \<and>
     locked_by t' = None \<and> status t' = end_status executor exc_str d t"

lemma same_jobs:
  assumes "jobs d' = jobs d"
  shows "succeeds executor exc_str d' = succeeds executor exc_str d" "retries_left d' = retries_left d"
    "ran executor exc_str d' = ran executor exc_str d"
proof -
  have "get_job_row d' = get_job_row d" using assms by (intro ext) (simp add: get_job_row_def)
  then show a: "succeeds executor exc_str d' = succeeds executor exc_str d" and b: "retries_left d' = retries_left d"
    by (intro ext; simp add: succeeds_def retries_left_def)+
  show "ran executor exc_str d' = ran executor exc_str d" by (intro ext) (simp add: ran_def end_status_def a b)
qed

lemma ran_trans: "ran executor exc_str d t t1 \<Longrightarrow> ran executor exc_str d t1 t2 \<Longrightarrow> ran executor exc_str d t t2"
  by (auto simp: ran_def end_status_def split: if_splits)

lemma row_split:
  assumes "distinct (map key rows)" "find_row key k rows = Some r"
  obtains xs ys where "rows = xs @ r # ys" "\<And>f. update_row key k f rows = xs @ f r # ys"
proof -
  have "r \<in> set rows" "key r = k" using find_row_SomeD [OF assms(2)] by auto
  then obtain xs ys where "rows = xs @ r # ys" by (meson split_list)
  moreover from this have "key r \<notin> key ` set xs" "key r \<notin> key ` set ys" using assms(1) by auto
  ultimately show ?thesis using that \<open>key r = k\<close> by (simp add: update_row_append update_row_absent)
qed

text \<open>What no run touches: the scheduled queue, the source of identifiers, and where identifiers come from.\<close>

definition run_frame :: "'q world \<Rightarrow> 'q world \<Rightarrow> bool" where
  "run_frame w w' \<longleftrightarrow>
     scheduled_queue w' = scheduled_queue w \<and> draws w w' \<and>
     task_ids (db w') \<subseteq> task_ids (db w) \<union> drawn_ids w'"

lemma run_frame_refl [simp]: "run_frame w w"
  by (simp add: run_frame_def)

lemma run_frame_trans: "run_frame w w1 \<Longrightarrow> run_frame w1 w2 \<Longrightarrow> run_frame w w2"
  unfolding run_frame_def using draws_trans drawn_ids_mono [of w1 w2] by fastforce

lemma run_frame_quiet: "quiet w w' \<Longrightarrow> run_frame w w'"
  by (simp add: run_frame_def draws_def quiet_def)

lemma run_frame_written: "quiet w w1 \<Longrightarrow> task_ids d = task_ids (db w) \<Longrightarrow> run_frame w (w1\<lparr>db := d\<rparr>)"
  by (simp add: run_frame_def draws_def quiet_def)

lemma finish_task_ids: "finish_task t st out err now d = Inr d' \<Longrightarrow> task_ids d' = task_ids d"
  unfolding finish_task_def by (drule task_write_frame) simp_all

lemma claim_attempts_frame: "claim_attempts idle wk t n w = (r, w') \<Longrightarrow> run_frame w w'"
proof (induction n arbitrary: w)
  case (Suc n)
  obtain c w1 where c: "claim_task wk t w = (c, w1)" by fastforce
  then have "run_frame w w1"
    by (cases rule: claim_task_cases)
      (auto simp: run_frame_quiet intro!: run_frame_written dest: task_write_frame [OF _ keeps_identity_claim])
  moreover have "during_backoff idle k w1 = w1" for k :: nat by (simp add: idle_def)
  ultimately show ?case using Suc c by (auto split: option.splits if_splits intro: run_frame_trans)
qed simp

lemma get_job_attempts_idle: "snd (get_job_attempts idle i n w) = w"
  by (induction n) (auto simp: idle_def split: option.splits)

lemma handle_failure_frame:
  assumes "handle_failure qc t j out err w = (r, w')"
  shows "run_frame w w'"
  using assms
proof (cases rule: handle_failure_cases)
  case (stale now)
  then show ?thesis by (simp add: run_frame_quiet quiet_utcnow)
next
  case (final now w1 d)
  then show ?thesis by (simp add: run_frame_written quiet_utcnow finish_task_ids)
next
  case (rejected now w1 d i w3 now' w4 e)
  have "run_frame w (w1\<lparr>db := d\<rparr>)" using rejected by (simp add: run_frame_written quiet_utcnow finish_task_ids)
  moreover have "run_frame (w1\<lparr>db := d\<rparr>) w'"
    using run_frame_quiet [OF quiet_trans [OF quiet_uuid4 [OF rejected(5)] quiet_utcnow [OF rejected(6)]]] rejected(8) by simp
  ultimately show ?thesis by (rule run_frame_trans)
next
  case (retried now w1 d i w3 now' w4 d')
  have q: "quiet w w1" using retried(2) by (rule quiet_utcnow)
  have q4: "quiet (w1\<lparr>db := d\<rparr>) w4" using quiet_trans [OF quiet_uuid4 [OF retried(4)] quiet_utcnow [OF retried(5)]] .
  have "draws w4 w'" using retried(7) by (auto simp: draws_def split: sum.splits)
  then have "i \<in> drawn_ids w'"
    using uuid4_drawn [OF retried(4) draws_trans [OF quiet_draws [OF quiet_utcnow [OF retried(5)]]]] by simp
  moreover have "task_ids d' = insert i (task_ids (db w))"
    using task_create_SomeD [OF retried(6)] finish_task_ids [OF retried(3)] by (simp add: task_ids_def)
  moreover have "db w' = d'" "scheduled_queue w' = scheduled_queue w4" "uuid_source w' = uuid_source w4"
    "uuids_drawn w' = uuids_drawn w4"
    using retried(7) by (auto split: sum.splits)
  ultimately show ?thesis using q q4 by (simp add: run_frame_def draws_def quiet_def)
qed

lemma record_result_frame:
  assumes "record_result qc t j res w = (r, w')"
  shows "run_frame w w'"
proof (cases "er_success res")
  case True
  obtain now w1 where n: "utcnow w = (now, w1)" by fastforce
  note q = quiet_utcnow [OF n]
  show ?thesis using assms True n run_frame_quiet [OF q]
    by (auto simp: record_result_def mark_success_def quietD(1) [OF q] finish_task_ids
        split: sum.splits intro!: run_frame_written [OF q])
qed (use assms in \<open>simp add: record_result_def handle_failure_frame\<close>)

lemma process_frame:
  assumes "process_task_id qc idle wk executor exc_str i w = (r, w')"
  shows "run_frame w w'"
proof -
  obtain c w1 where c: "claim_with_retry idle wk i w = (c, w1)" by fastforce
  then have F: "run_frame w w1" unfolding claim_with_retry_def by (rule claim_attempts_frame)
  have "run_frame w1 w'"
  proof (cases c)
    case None
    then show ?thesis using assms c by (simp add: process_task_id_def)
  next
    case (Some t)
    obtain g where g: "get_job_with_retry idle (task_job_id t) w1 = (g, w1)"
      using get_job_attempts_idle [of "task_job_id t" lookup_attempts w1] by (metis get_job_with_retry_def prod.collapse)
    obtain now w2 where n: "utcnow w1 = (now, w2)" by fastforce
    note q = quiet_utcnow [OF n]
    show ?thesis using assms c Some g n run_frame_quiet [OF q]
      by (cases g) (auto simp: process_task_id_def idle_def mark_failed_eq quietD(1) [OF q] finish_task_ids
          split: sum.splits prod.splits dest: record_result_frame intro!: run_frame_written [OF q])
  qed
  with F show ?thesis by (rule run_frame_trans)
qed

text \<open>A run draws an identifier only for a new attempt.\<close>

lemma claim_attempts_draws: "uuids_drawn (snd (claim_attempts idle wk t n w)) = uuids_drawn w"
  by (induction n arbitrary: w)
    (auto simp: claim_task_def utcnow_def idle_def Let_def split: option.splits prod.splits if_splits)

lemma record_result_draws:
  "uuids_drawn (snd (record_result qc t j res w)) \<le>
     uuids_drawn w + (if er_success res \<or> max_retries j \<le> retry_count t then 0 else 1)"
  by (simp add: record_result_def handle_failure_def utcnow_def uuid4_def Let_def split: sum.split)

lemma process_draws:
  assumes row: "get_task_row (db w) i = Some t" "status t = pending" and job: "get_job_row (db w) (task_job_id t) = Some j"
    and p: "process_task_id qc idle wk executor exc_str i w = (r, w')"
  shows "uuids_drawn w' \<le> uuids_drawn w + (if er_success (execute_job executor exc_str j) \<or> max_retries j \<le> retry_count t then 0 else 1)"
proof -
  obtain c w1 where c: "claim_task wk i w = (c, w1)" by fastforce
  then obtain until start d w2 where won: "c = Some (claim_columns (w_id wk) until start t)" "w1 = w2\<lparr>db := d\<rparr>"
    "task_write i (claim_columns (w_id wk) until start) (db w) = Inr d"
    using row by (cases rule: claim_task_cases) auto
  let ?t = "claim_columns (w_id wk) until start t"
  have claim: "claim_with_retry idle wk i w = (Some ?t, w1)"
    using c won(1) by (simp add: claim_with_retry_def lookup_attempts_def eval_nat_numeral)
  have "uuids_drawn w1 = uuids_drawn w"
    using claim_attempts_draws [of wk i lookup_attempts w] claim by (simp add: claim_with_retry_def)
  moreover have "job_get (task_job_id t) (db w1) = Some j"
    using job won(2) task_write_frame [OF won(3) keeps_identity_claim] by (simp add: job_get_def get_job_row_def)
  then have "get_job_with_retry idle (task_job_id t) w1 = (Some j, w1)"
    by (simp add: get_job_with_retry_def lookup_attempts_def eval_nat_numeral)
  then have "w' = snd (record_result qc ?t j (execute_job executor exc_str j) w1)"
    using p claim by (auto simp: process_task_id_def idle_def split: prod.splits sum.splits)
  ultimately show ?thesis using record_result_draws [of qc ?t j "execute_job executor exc_str j" w1] by simp
qed

lemma process_pending:
  assumes inv: "store_inv cfg w" and row: "get_task_row (db w) i = Some t" "status t = pending"
    and p: "process_task_id MemoryQueueClient idle wk executor exc_str i w = (r, w')"
  obtains xs t' ys new where "tasks (db w) = xs @ t # ys" "tasks (db w') = xs @ t' # ys @ new"
    "ran executor exc_str (db w) t t'" "terminal (status t')" "r = Inr True" "store_inv cfg w'" "jobs (db w') = jobs (db w)"
    "run_frame w w'" "uuids_drawn w' \<le> uuids_drawn w + length new" "messages queued w' = messages queued w + mset (map (\<lambda>n. task_body (tid n)) new)"
    "if succeeds executor exc_str (db w) t \<or> retries_left (db w) t = 0 then new = []
     else \<exists>n. new = [n] \<and> status n = pending \<and> task_job_id n = task_job_id t \<and> retry_count n = retry_count t + 1"
proof -
  have wf: "db_wf (db w)" using inv by (simp add: store_inv_def)
  obtain j where j: "get_job_row (db w) (task_job_id t) = Some j" using job_of_task [OF wf row(1)] by blast
  let ?res = "execute_job executor exc_str j"
  note P = memq.process_run [OF inv row j refl p]
  then obtain until start now more where tm:
    "tasks (db w') = update_row tid i
        (\<lambda>x. finished_as ?res (outcome_status ?res t j) now (claim_columns (w_id wk) until start x)) (tasks (db w)) @ more"
    "if needs_retry ?res t j
       then \<exists>n. more = [n] \<and> n = new_task (tid n) (jid j) (trigger_type t) (retry_count t + 1) (tcreated_at n) \<and>
              queued (retry_queue w') = add_mset (task_body (tid n)) (queued (retry_queue w))
       else more = [] \<and> retry_queue w' = retry_queue w" by blast
  let ?t = "finished_as ?res (outcome_status ?res t j) now (claim_columns (w_id wk) until start t)"
  have dist: "distinct (map tid (tasks (db w)))" using wf by (simp add: db_wf_def keys_ok_def)
  obtain xs ys where split: "tasks (db w) = xs @ t # ys" "\<And>f. update_row tid i f (tasks (db w)) = xs @ f t # ys"
    using row_split [OF dist] row(1) by (metis get_task_row_def)
  then have xs: "tasks (db w) = xs @ t # ys" "tasks (db w') = xs @ ?t # ys @ more" using tm(1) by simp_all
  have st: "succeeds executor exc_str (db w) t \<longleftrightarrow> er_success ?res" "retries_left (db w) t = nat (max_retries j - retry_count t)"
    using j by (simp_all add: succeeds_def retries_left_def)
  have need: "needs_retry ?res t j \<longleftrightarrow> \<not> (succeeds executor exc_str (db w) t \<or> retries_left (db w) t = 0)"
    by (auto simp: needs_retry_def st)
  have "jid j = task_job_id t" using get_job_row_SomeD [OF j] by simp
  then have "if succeeds executor exc_str (db w) t \<or> retries_left (db w) t = 0 then more = []
     else \<exists>n. more = [n] \<and> status n = pending \<and> task_job_id n = task_job_id t \<and> retry_count n = retry_count t + 1"
    using tm(2) need by (auto) (metis new_task_sel)+
  moreover have "messages queued w' = messages queued w + mset (map (\<lambda>n. task_body (tid n)) more)"
    using P process_frame [OF p] tm(2) by (auto simp: messages_def run_frame_def split: if_splits)
  moreover have "outcome_status ?res t j = end_status executor exc_str (db w) t"
    by (auto simp: outcome_status_def end_status_def st)
  moreover have "uuids_drawn w' \<le> uuids_drawn w + length more"
    using process_draws [OF row j p] tm(2) by (auto simp: needs_retry_def split: if_splits)
  ultimately show ?thesis
    using that [OF xs] P process_frame [OF p] row(2) by (auto simp: ran_def)
qed

text \<open>A message that names no pending task changes neither the tables nor the queues.\<close>

lemma claim_attempts_lost:
  assumes "\<And>row. get_task_row (db w) t = Some row \<Longrightarrow> status row \<noteq> pending"
  shows "\<exists>w'. claim_attempts idle wk t n w = (None, w') \<and> quiet w w'"
  using assms
proof (induction n arbitrary: w)
  case (Suc n)
  obtain c w1 where c: "claim_task wk t w = (c, w1)" by fastforce
  then have lost: "c = None" "quiet w w1" using Suc.prems by (cases rule: claim_task_cases; auto)+
  have "\<And>row. get_task_row (db w1) t = Some row \<Longrightarrow> status row \<noteq> pending" using Suc.prems lost(2) by (simp add: quietD)
  from Suc.IH [OF this] obtain w2 where "claim_attempts idle wk t n w1 = (None, w2)" "quiet w1 w2" by blast
  moreover have "during_backoff idle k w1 = w1" for k :: nat by (simp add: idle_def)
  ultimately show ?case using c lost by (auto intro: quiet_trans split: option.splits)
qed simp

lemma process_not_pending:
  assumes "\<And>row. get_task_row (db w) i = Some row \<Longrightarrow> status row \<noteq> pending"
  shows "\<exists>b w'. process_task_id qc idle wk executor exc_str i w = (Inr b, w') \<and> quiet w w' \<and> uuids_drawn w' = uuids_drawn w"
proof -
  obtain w' where c: "claim_attempts idle wk i lookup_attempts w = (None, w')" "quiet w w'"
    using claim_attempts_lost [of w i wk lookup_attempts] assms by blast
  then show ?thesis using claim_attempts_draws [of wk i lookup_attempts w]
    by (simp add: process_task_id_def claim_with_retry_def)
qed

lemma drop_message_memory [simp]: "drop_message MemoryQueueClient p m w = w"
  by (simp add: drop_message_def MemoryQueueClient_def set_pool_queue_def pool_queue_def split: queue_path.splits)

text \<open>Every message is one of these: nothing happens, or it runs one pending task.\<close>

lemma handle_message_cases:
  assumes h: "handle_message MemoryQueueClient p idle wk executor exc_str fl m w = w'"
  obtains (idle) "quiet w w'" "uuids_drawn w' = uuids_drawn w" "\<And>t. t \<in> set (pending_tasks (db w)) \<Longrightarrow> tid t \<in> range uuid_str \<Longrightarrow> db_wf (db w) \<Longrightarrow> body m \<noteq> task_body (tid t)"
  | (run) i t r where "get_task_row (db w) i = Some t" "status t = pending"
      "process_task_id MemoryQueueClient idle wk executor exc_str i w = (r, w')"
      "\<And>u. body m = task_body (uuid_str u) \<Longrightarrow> uuid_str u = i"
proof -
  let ?id = "extract_task_id fl (body m)"
  have own: "?id = JStr (uuid_str u)" if "body m = task_body (uuid_str u)" for u
    using extract_task_body [OF ascii_uuid_str] that by simp
  show ?thesis
  proof (cases "truthy ?id")
    case False
    then have "quiet w w'" "uuids_drawn w' = uuids_drawn w" using h by (simp_all add: handle_message_def Let_def)
    moreover have "body m \<noteq> task_body (uuid_str u)" for u
      using False own [of u] uuid_str_not_Nil by (auto simp: truthy_def)
    ultimately show ?thesis by (intro idle) (assumption | metis rangeE)+
  next
    case True
    show ?thesis
    proof (cases "uuid_of_str (py_str ?id)")
      case None
      then have "w' = snd (utcnow (snd (utcnow w)))" using h True by (simp add: handle_message_def Let_def)
      then have "quiet w w'" "uuids_drawn w' = uuids_drawn w"
        by (metis quiet_trans quiet_utcnow prod.collapse) (simp add: \<open>w' = snd (utcnow (snd (utcnow w)))\<close>)
      moreover have "body m \<noteq> task_body (uuid_str u)" for u
        using None own [of u] uuid_of_uuid_str by (auto simp: py_str_def)
      ultimately show ?thesis by (intro idle) (assumption | metis rangeE)+
    next
      case (Some u)
      have same: "v = u" if "body m = task_body (uuid_str v)" for v
        using Some own [OF that] uuid_of_uuid_str by (simp add: py_str_def)
      obtain r w1 where pr: "process_task_id MemoryQueueClient idle wk executor exc_str (uuid_str u) w = (r, w1)" by fastforce
      have w': "w' = w1" using h True Some pr by (auto simp: handle_message_def Let_def split: sum.splits)
      show ?thesis
      proof (cases "\<exists>t. get_task_row (db w) (uuid_str u) = Some t \<and> status t = pending")
        case True
        then show ?thesis using run pr same w' by blast
      next
        case False
        then have "quiet w w'" "uuids_drawn w' = uuids_drawn w"
          using process_not_pending [of w "uuid_str u" MemoryQueueClient wk executor exc_str] pr w' by auto
        moreover have "body m \<noteq> task_body (tid t)"
          if t: "t \<in> set (pending_tasks (db w))" "tid t \<in> range uuid_str" "db_wf (db w)" for t
        proof
          assume b: "body m = task_body (tid t)"
          then have "tid t = uuid_str u" using same t(2) by auto
          then have "get_task_row (db w) (uuid_str u) = Some t"
            using t(1,3) by (auto simp: get_task_row_def find_row_Some_iff pending_tasks_def db_wf_def keys_ok_def)
          then show False using False t(1) by (simp add: pending_tasks_def)
        qed
        ultimately show ?thesis by (intro idle) (assumption | metis rangeE)+
      qed
    qed
  qed
qed

subsection \<open>Working a queue off\<close>

text \<open>The runs that can still happen, the work in front of the workers, and the rows there will be in the end.\<close>

definition budget :: "database \<Rightarrow> nat" where
  "budget d = sum_list (map (\<lambda>t. Suc (retries_left d t)) (pending_tasks d))"

text \<open>Identifiers are stored in the form of \<open>str(uuid)\<close>: those of the tasks, and the first \<open>k\<close> of the source,
  which are enough for the retries that can still be needed.\<close>

definition canonical :: "nat \<Rightarrow> 'q world \<Rightarrow> bool" where
  "canonical k w \<longleftrightarrow>
     task_ids (db w) \<subseteq> range uuid_str \<and> uuid_source w ` {..<k} \<subseteq> range uuid_str \<and> uuids_drawn w + budget (db w) \<le> k"

definition work_left :: "string multiset \<Rightarrow> mem_queue world \<Rightarrow> nat" where
  "work_left in_hand w = size (messages queued w) + size in_hand + budget (db w)"

definition attempts :: "(container_spec \<Rightarrow> execution_result result) \<Rightarrow> (error \<Rightarrow> string) \<Rightarrow> database \<Rightarrow> nat" where
  "attempts executor exc_str d =
     length (tasks d) + sum_list (map (\<lambda>t. if succeeds executor exc_str d t then 0 else retries_left d t) (pending_tasks d))"

definition worked ::
    "settings \<Rightarrow> nat \<Rightarrow> (container_spec \<Rightarrow> execution_result result) \<Rightarrow> (error \<Rightarrow> string) \<Rightarrow> mem_queue world \<Rightarrow> mem_queue world \<Rightarrow> bool" where
  "worked cfg k executor exc_str w w' \<longleftrightarrow>
     store_inv cfg w' \<and> canonical k w' \<and> draws w w' \<and> jobs (db w') = jobs (db w) \<and> running_ids (db w') \<subseteq> running_ids (db w) \<and>
     attempts executor exc_str (db w') = attempts executor exc_str (db w) \<and>
     (\<forall>t \<in> set (tasks (db w)). \<exists>t' \<in> set (tasks (db w')). ran executor exc_str (db w) t t')"

lemma canonical_step:
  assumes can: "canonical k w" and d: "draws w w'" and new: "task_ids (db w') \<subseteq> task_ids (db w) \<union> drawn_ids w'"
    and k: "uuids_drawn w' + budget (db w') \<le> k"
  shows "canonical k w'"
proof -
  have "drawn_ids w' \<subseteq> uuid_source w ` {..<k}" using d k by (auto simp: drawn_ids_def draws_def)
  then have "drawn_ids w' \<subseteq> range uuid_str" using can unfolding canonical_def by blast
  then have "task_ids (db w') \<subseteq> range uuid_str" using can new unfolding canonical_def by blast
  then show ?thesis using can d k by (simp add: canonical_def draws_def)
qed

lemma worked_refl: "store_inv cfg w \<Longrightarrow> canonical k w \<Longrightarrow> worked cfg k executor exc_str w w"
  by (auto simp: worked_def ran_def)

lemma worked_inv:
  assumes "worked cfg k executor exc_str w w'"
  shows "store_inv cfg w'" "canonical k w'"
  using assms by (simp_all add: worked_def)

lemma worked_trans:
  assumes "worked cfg k executor exc_str w w1" "worked cfg k executor exc_str w1 w2"
  shows "worked cfg k executor exc_str w w2"
proof -
  have same: "ran executor exc_str (db w1) = ran executor exc_str (db w)"
    by (rule same_jobs(3)) (use assms(1) in \<open>simp add: worked_def\<close>)
  have "\<exists>t2 \<in> set (tasks (db w2)). ran executor exc_str (db w) t t2" if t: "t \<in> set (tasks (db w))" for t
  proof -
    obtain t1 where t1: "t1 \<in> set (tasks (db w1))" "ran executor exc_str (db w) t t1" 
      using assms(1) t unfolding worked_def by blast
    obtain t2 where "t2 \<in> set (tasks (db w2))" "ran executor exc_str (db w) t1 t2"
      using assms(2) t1(1) unfolding worked_def same by blast
    then show ?thesis using ran_trans [OF t1(2)] by blast
  qed
  moreover have "draws w w2" using assms draws_trans unfolding worked_def by blast
  ultimately show ?thesis using assms by (simp add: worked_def) blast
qed

lemma worked_quiet:
  assumes "store_inv cfg w" "canonical k w" "quiet w w'" "uuids_drawn w' = uuids_drawn w"
  shows "worked cfg k executor exc_str w w'"
proof -
  have "canonical k w'" using assms(2-4) by (simp add: canonical_def quiet_def)
  then show ?thesis using store_inv_quiet [OF assms(3,1)] by (auto simp: worked_def quietD(1) [OF assms(3)] quiet_draws [OF assms(3)] ran_def)
qed

lemma worked_pending:
  assumes inv: "store_inv cfg w" and can: "canonical k w" and row: "get_task_row (db w) i = Some t" "status t = pending"
    and p: "process_task_id MemoryQueueClient idle wk executor exc_str i w = (r, w')"
  shows "worked cfg k executor exc_str w w' \<and>
    (\<exists>rest new. pending_bodies (db w) = add_mset (task_body i) rest \<and> pending_bodies (db w') = rest + new \<and>
       messages queued w' = messages queued w + new \<and> Suc (size new + budget (db w')) \<le> Suc (budget (db w)))"
proof -
  obtain xs t' ys new where P: "tasks (db w) = xs @ t # ys" "tasks (db w') = xs @ t' # ys @ new"
    "ran executor exc_str (db w) t t'" "terminal (status t')" "r = Inr True" "store_inv cfg w'" "jobs (db w') = jobs (db w)"
    "run_frame w w'" "uuids_drawn w' \<le> uuids_drawn w + length new" "messages queued w' = messages queued w + mset (map (\<lambda>n. task_body (tid n)) new)"
    "if succeeds executor exc_str (db w) t \<or> retries_left (db w) t = 0 then new = []
     else \<exists>n. new = [n] \<and> status n = pending \<and> task_job_id n = task_job_id t \<and> retry_count n = retry_count t + 1"
    by (rule process_pending [OF inv row p])
  note J = same_jobs [OF P(7)]
  have i: "tid t = i" using get_task_row_SomeD [OF row(1)] by simp
  have t': "status t' \<noteq> pending" "status t' \<noteq> running" using P(4) by (auto simp: terminal_def)
  have new: "filter (\<lambda>t. status t = pending) new = new" using P(11) by (auto split: if_splits)
  have pend: "pending_tasks (db w) = pending_tasks (db w\<lparr>tasks := xs\<rparr>) @ t # pending_tasks (db w\<lparr>tasks := ys\<rparr>)"
    "pending_tasks (db w') = pending_tasks (db w\<lparr>tasks := xs\<rparr>) @ pending_tasks (db w\<lparr>tasks := ys\<rparr>) @ new"
    using P(1,2) row(2) t' new by (simp_all add: pending_tasks_def)
  have left: "retries_left (db w) n = retries_left (db w) t - 1"
    if "task_job_id n = task_job_id t" "retry_count n = retry_count t + 1" for n
    using that by (cases "get_job_row (db w) (task_job_id t)") (auto simp: retries_left_def)
  have same: "succeeds executor exc_str (db w) n = succeeds executor exc_str (db w) t" if "task_job_id n = task_job_id t" for n
    using that by (simp add: succeeds_def)
  have "attempts executor exc_str (db w') = attempts executor exc_str (db w)"
  proof (cases "succeeds executor exc_str (db w) t \<or> retries_left (db w) t = 0")
    case True
    then have "new = []" using P(11) by simp
    then show ?thesis using P(1,2) True unfolding attempts_def J pend by auto
  next
    case False
    then obtain n where n: "new = [n]" "task_job_id n = task_job_id t" "retry_count n = retry_count t + 1" using P(11) by auto
    then show ?thesis using P(1,2) False left [OF n(2,3)] same [OF n(2)] unfolding attempts_def J pend by simp
  qed
  moreover have less: "length new + budget (db w') \<le> budget (db w)"
    using P(11) by (auto simp: budget_def J pend left split: if_splits)
  moreover have "canonical k w'"
    by (rule canonical_step [OF can]) (use less P(8,9) can in \<open>simp_all add: canonical_def run_frame_def\<close>)
  moreover have "running_ids (db w') \<subseteq> running_ids (db w)"
    using P(1,2,11) t' by (auto simp: running_ids_def split: if_splits)
  moreover have "\<forall>x \<in> set (tasks (db w)). \<exists>x' \<in> set (tasks (db w')). ran executor exc_str (db w) x x'"
    using P(1-3) by (auto simp: ran_def)
  ultimately show ?thesis
    using P(6,7,8,10) i by (auto simp: worked_def run_frame_def pending_bodies_def pend intro!: exI [of _ "mset (map (\<lambda>n. task_body (tid n)) new)"])
qed

lemma backed_drop:
  assumes "backed (add_mset b M) w" "b \<notin># pending_bodies (db w)"
  shows "backed M w"
proof -
  have "pending_bodies (db w) - {#b#} \<subseteq># messages queued w + M"
    using assms(1) by (simp add: backed_def subset_eq_diff_conv)
  then show ?thesis using assms(2) by (simp add: backed_def diff_single_trivial)
qed

lemma pending_canonical: "canonical k w \<Longrightarrow> t \<in> set (pending_tasks (db w)) \<Longrightarrow> tid t \<in> range uuid_str"
  by (auto simp: canonical_def pending_tasks_def task_ids_def)

lemma handle_message_works:
  assumes inv: "store_inv cfg w" and can: "canonical k w" and b: "backed (add_mset (body m) M) w"
    and h: "handle_message MemoryQueueClient p idle wk executor exc_str fl m w = w'"
  shows "worked cfg k executor exc_str w w' \<and> backed M w' \<and> work_left M w' < work_left (add_mset (body m) M) w"
  using h
proof (cases rule: handle_message_cases)
  case idle
  have "db_wf (db w)" using inv by (simp add: store_inv_def)
  then have "body m \<notin># pending_bodies (db w)"
    using idle(3) pending_canonical [OF can] by (auto simp: pending_bodies_def)
  then have "backed M w" by (rule backed_drop [OF b])
  then show ?thesis using worked_quiet [OF inv can idle(1,2)] messages_quiet [OF idle(1)] idle(1)
    by (auto simp: backed_def work_left_def quietD)
next
  case (run i t r)
  obtain rest new where W: "worked cfg k executor exc_str w w'" "pending_bodies (db w) = add_mset (task_body i) rest"
    "pending_bodies (db w') = rest + new" "messages queued w' = messages queued w + new" "size new + budget (db w') \<le> budget (db w)"
    using worked_pending [OF inv can run(1-3)] by auto
  have "rest \<subseteq># messages queued w + M"
  proof (cases "body m = task_body i")
    case True
    then show ?thesis using b W(2) by (simp add: backed_def)
  next
    case False
    then have "body m \<notin># pending_bodies (db w)"
      using run(4) pending_canonical [OF can] unfolding pending_bodies_def by (auto) (metis rangeE)
    then have "backed M w" by (rule backed_drop [OF b])
    then show ?thesis using W(2) unfolding backed_def by (metis mset_subset_eq_insertD subset_mset.less_imp_le)
  qed
  then show ?thesis using W by (auto simp: backed_def work_left_def ac_simps)
qed

lemma handle_all_works:
  assumes "store_inv cfg w" "canonical k w" "backed (mset (map body ms) + M) w"
    and "w' = fold (handle_message MemoryQueueClient p idle wk executor exc_str fl) ms w"
  shows "worked cfg k executor exc_str w w' \<and> backed M w' \<and> work_left M w' + length ms \<le> work_left (mset (map body ms) + M) w"
  using assms
proof (induction ms arbitrary: w)
  case Nil
  then show ?case by (simp add: worked_refl)
next
  case (Cons m ms)
  define w1 where "w1 = handle_message MemoryQueueClient p idle wk executor exc_str fl m w"
  have one: "worked cfg k executor exc_str w w1" "backed (mset (map body ms) + M) w1"
    "work_left (mset (map body ms) + M) w1 < work_left (mset (map body (m # ms)) + M) w"
    using handle_message_works [OF Cons.prems(1,2) _ w1_def [symmetric], of "mset (map body ms) + M"] Cons.prems(3) by simp_all
  from Cons.IH [OF worked_inv [OF one(1)] one(2)] Cons.prems(4) have "worked cfg k executor exc_str w1 w'" "backed M w'"
    "work_left M w' + length ms \<le> work_left (mset (map body ms) + M) w1" by (simp_all add: w1_def)
  then show ?case using one worked_trans [OF one(1)] by simp
qed

text \<open>A turn of one pool: whatever is in its queue, it makes progress.\<close>

lemma received_messages:
  assumes "receive_tasks MemoryQueueClient n s (pool_queue p w) = Inr (ms, q)"
  shows "messages queued w = messages queued (set_pool_queue p q w) + mset (map body ms)"
    "length ms = min n (size (queued (pool_queue p w)))"
proof -
  have ms: "map body ms = take n (map fst (mq_items (pool_queue p w)))" "mq_items q = drop n (mq_items (pool_queue p w))"
    using assms by (auto simp: mem_receive_eq take_map o_def)
  have "queued (pool_queue p w) = mset (take n (map fst (mq_items (pool_queue p w)))) + mset (drop n (map fst (mq_items (pool_queue p w))))"
    by (metis append_take_drop_id mset_append queued_def)
  then have "queued (pool_queue p w) = queued q + mset (map body ms)"
    using ms by (simp add: queued_def drop_map)
  then show "messages queued w = messages queued (set_pool_queue p q w) + mset (map body ms)"
    by (cases p) (simp_all add: messages_def pool_queue_def set_pool_queue_def)
  show "length ms = min n (size (queued (pool_queue p w)))"
    using arg_cong [OF ms(1), of length] by (simp add: queued_def)
qed

lemma canonical_queue [simp]: "canonical k (set_pool_queue p q w) \<longleftrightarrow> canonical k w"
  by (simp add: canonical_def set_pool_queue_def split: queue_path.split)

lemma pool_round_works:
  assumes inv: "store_inv cfg w" and can: "canonical k w" and b: "backed {#} w"
    and w': "w' = pool_round MemoryQueueClient idle wk executor exc_str fl p w"
  shows "worked cfg k executor exc_str w w' \<and> backed {#} w' \<and>
    work_left {#} w' + min max_concurrent_per_queue (size (queued (pool_queue p w))) \<le> work_left {#} w"
proof -
  obtain ms q where r: "receive_tasks MemoryQueueClient max_concurrent_per_queue 2 (pool_queue p w) = Inr (ms, q)"
    by (simp add: mem_receive_eq)
  let ?w = "set_pool_queue p q w"
  have "w' = fold (handle_message MemoryQueueClient p idle wk executor exc_str fl) ms ?w"
    using w' r by (simp add: pool_round_def)
  moreover have "backed (mset (map body ms) + {#}) ?w"
    using b received_messages(1) [OF r] by (simp add: backed_def)
  ultimately have W: "worked cfg k executor exc_str ?w w'" "backed {#} w'"
      "work_left {#} w' + length ms \<le> work_left (mset (map body ms) + {#}) ?w"
    using handle_all_works [where M = "{#}", OF store_inv_queue [OF inv]] can by (simp_all del: union_mset_add_mset_right)
  have "work_left (mset (map body ms) + {#}) ?w = work_left {#} w"
    using received_messages(1) [OF r] by (simp add: work_left_def)
  moreover have "worked cfg k executor exc_str w w'"
    using W(1) draws_trans [OF set_pool_queue_frame(2) [of w p q], of w'] by (simp add: worked_def)
  ultimately show ?thesis using W(2,3) received_messages(2) [OF r] by simp
qed

lemma pool_round_empty:
  assumes "queued (pool_queue p w) = {#}"
  shows "pool_round MemoryQueueClient idle wk executor exc_str fl p w = w"
proof -
  have "mq_items (pool_queue p w) = []" using assms by (simp add: queued_def)
  then show ?thesis by (cases p) (simp_all add: pool_round_def mem_receive_eq set_pool_queue_def pool_queue_def)
qed

lemma run_all_works:
  assumes "store_inv cfg w" "canonical k w" "backed {#} w"
    and "w' = run_all MemoryQueueClient idle wk executor exc_str fl pools w"
  shows "worked cfg k executor exc_str w w' \<and> backed {#} w' \<and> work_left {#} w' \<le> work_left {#} w \<and>
    ((\<exists>x \<in> set pools. queued (pool_queue (snd x) w) \<noteq> {#}) \<longrightarrow> work_left {#} w' < work_left {#} w)"
  using assms
proof (induction pools arbitrary: w)
  case Nil
  then show ?case by (simp add: run_all_def worked_refl)
next
  case (Cons x pools)
  define w1 where "w1 = pool_round MemoryQueueClient idle wk executor exc_str fl (snd x) w"
  have one: "worked cfg k executor exc_str w w1" "backed {#} w1"
    "work_left {#} w1 + min max_concurrent_per_queue (size (queued (pool_queue (snd x) w))) \<le> work_left {#} w"
    using pool_round_works [OF Cons.prems(1-3) w1_def] by simp_all
  have rest: "w' = run_all MemoryQueueClient idle wk executor exc_str fl pools w1"
    using Cons.prems(4) by (simp add: run_all_def w1_def case_prod_beta)
  have IH: "worked cfg k executor exc_str w1 w'" "backed {#} w'" "work_left {#} w' \<le> work_left {#} w1"
    "(\<exists>x \<in> set pools. queued (pool_queue (snd x) w1) \<noteq> {#}) \<longrightarrow> work_left {#} w' < work_left {#} w1"
    using Cons.IH [OF worked_inv [OF one(1)] one(2) rest] by simp_all
  show ?case
  proof (cases "queued (pool_queue (snd x) w) = {#}")
    case True
    then have "w1 = w" unfolding w1_def by (rule pool_round_empty)
    then show ?thesis using IH True by auto
  next
    case False
    then have "work_left {#} w1 < work_left {#} w"
      using one(3) by (cases "size (queued (pool_queue (snd x) w))") (simp_all add: max_concurrent_per_queue_def min_def split: if_splits)
    then show ?thesis using IH worked_trans [OF one(1) IH(1)] by simp
  qed
qed

lemma no_messages_no_work:
  assumes "backed {#} w" "messages queued w = {#}"
  shows "pending_tasks (db w) = []" "work_left {#} w = 0"
  using assms by (simp_all add: backed_def pending_bodies_def work_left_def budget_def)

lemma turns_work:
  assumes "store_inv cfg w" "canonical k w" "backed {#} w"
    and "w' = (run_all MemoryQueueClient idle wk executor exc_str fl queue_factories ^^ n) w"
  shows "worked cfg k executor exc_str w w' \<and> backed {#} w' \<and> work_left {#} w' \<le> work_left {#} w - n"
  using assms
proof (induction n arbitrary: w')
  case 0
  then show ?case by (simp add: worked_refl)
next
  case (Suc n)
  define w1 where "w1 = (run_all MemoryQueueClient idle wk executor exc_str fl queue_factories ^^ n) w"
  have IH: "worked cfg k executor exc_str w w1" "backed {#} w1" "work_left {#} w1 \<le> work_left {#} w - n"
    using Suc.IH [OF Suc.prems(1-3) w1_def] by simp_all
  have "w' = run_all MemoryQueueClient idle wk executor exc_str fl queue_factories w1" using Suc.prems(4) by (simp add: w1_def)
  note R = run_all_works [OF worked_inv [OF IH(1)] IH(2) this]
  have one: "worked cfg k executor exc_str w1 w'" "backed {#} w'" "work_left {#} w' \<le> work_left {#} w1"
    using R by simp_all
  show ?case
  proof (cases "messages queued w1 = {#}")
    case True
    then show ?thesis using one no_messages_no_work(2) [OF IH(2)] worked_trans [OF IH(1)] by simp
  next
    case False
    then have "\<exists>x \<in> set queue_factories. queued (pool_queue (snd x) w1) \<noteq> {#}"
      by (auto simp: messages_def queue_factories_def pool_queue_def)
    then have "work_left {#} w' < work_left {#} w1" using R by simp
    then show ?thesis using one IH(3) worked_trans [OF IH(1)] by simp
  qed
qed

text \<open>(C5) The workers finish everything. In a consistent store where every pending task has its message and
  identifiers are UUIDs, the worker process that serves all queues, for as many turns as there are messages
  and runs left, empties the queues and leaves no task pending. Every task that was pending has ended, unlocked,
  as its run says (success, failed with another attempt allowed, final_failed); every other row is as it
  was; and the number of rows is exactly what the retries of the failing jobs add. Messages that name
  no task, a deleted one or one that has ended do not get in the way.\<close>

theorem workers_finish_everything:
  assumes inv: "store_inv cfg w" and can: "canonical k w" and b: "backed {#} w" and n: "work_left {#} w \<le> n"
  shows "\<exists>w'. worker_process MemoryQueueClient idle wk executor exc_str fl None n w = Some w' \<and> store_inv cfg w' \<and>
    messages queued w' = {#} \<and> (\<forall>t \<in> set (tasks (db w')). status t \<noteq> pending) \<and>
    (\<forall>t \<in> set (tasks (db w)). \<exists>t'. get_task_row (db w') (tid t) = Some t' \<and>
       (if status t = pending then status t' = end_status executor exc_str (db w) t \<and> locked_by t' = None else t' = t)) \<and>
    length (tasks (db w')) = attempts executor exc_str (db w)"
proof -
  define w' where "w' = (run_all MemoryQueueClient idle wk executor exc_str fl queue_factories ^^ n) w"
  have W: "worked cfg k executor exc_str w w'" "work_left {#} w' = 0" using turns_work [OF inv can b w'_def] n by simp_all
  have none: "messages queued w' = {#}" "pending_tasks (db w') = []" using W(2) by (auto simp: work_left_def budget_def)
  have wf: "db_wf (db w')" using W(1) by (simp add: worked_def store_inv_def)
  have "\<exists>t'. get_task_row (db w') (tid t) = Some t' \<and>
       (if status t = pending then status t' = end_status executor exc_str (db w) t \<and> locked_by t' = None else t' = t)"
    if t: "t \<in> set (tasks (db w))" for t
  proof -
    obtain t' where t': "t' \<in> set (tasks (db w'))" "ran executor exc_str (db w) t t'" using W(1) t unfolding worked_def by blast
    have "status t' \<noteq> pending" using t'(1) none(2) by (auto simp: pending_tasks_def filter_empty_conv)
    moreover have "get_task_row (db w') (tid t) = Some t'"
      using t' wf by (auto simp: ran_def get_task_row_def find_row_Some_iff db_wf_def keys_ok_def)
    ultimately show ?thesis using t'(2) by (auto simp: ran_def)
  qed
  moreover have "length (tasks (db w')) = attempts executor exc_str (db w)"
    using W(1) none(2) by (simp add: worked_def attempts_def)
  ultimately show ?thesis
    using W(1) none by (intro exI [of _ w']) (auto simp: worker_process_def worker_pools_def w'_def [symmetric] worked_def pending_tasks_def filter_empty_conv)
qed

subsection \<open>The service\<close>

text \<open>The API, any number of schedulers and the workers together: every command, every operation of a scheduler
  and every turn of a worker process is one step. A turn of a worker is not interrupted, so no claim is
  open between the steps.\<close>

inductive delivery_step ::
    "settings \<Rightarrow> croniter \<Rightarrow> (json \<Rightarrow> int option) \<Rightarrow> mem_queue system \<Rightarrow> mem_queue system \<Rightarrow> bool"
  for cfg cr lax_int
where
  job_created: "JobCreate_valid lax_int p \<Longrightarrow> create_job cfg cr MemoryQueueClient p (world S) = (r, w') \<Longrightarrow>
    delivery_step cfg cr lax_int S (S\<lparr>world := w'\<rparr>)"
| job_updated: "JobUpdate_valid p \<Longrightarrow> update_job cfg cr lax_int MemoryQueueClient i p (world S) = (r, w') \<Longrightarrow>
    delivery_step cfg cr lax_int S (S\<lparr>world := w'\<rparr>)"
| job_deleted: "delete_job i (world S) = (r, w') \<Longrightarrow> delivery_step cfg cr lax_int S (S\<lparr>world := w'\<rparr>)"
| job_triggered: "trigger_job MemoryQueueClient i (world S) = (r, w') \<Longrightarrow> delivery_step cfg cr lax_int S (S\<lparr>world := w'\<rparr>)"
| task_retried: "retry_task MemoryQueueClient t (world S) = (r, w') \<Longrightarrow> delivery_step cfg cr lax_int S (S\<lparr>world := w'\<rparr>)"
| jobs_synced: "sync_jobs (schedulers S i) (world S) = (s', w') \<Longrightarrow>
    delivery_step cfg cr lax_int S (S\<lparr>world := w', schedulers := (schedulers S)(i := s')\<rparr>)"
| orphans_recovered: "recover_orphans (world S) = (r, w') \<Longrightarrow> delivery_step cfg cr lax_int S (S\<lparr>world := w'\<rparr>)"
| entry_popped: "heap (schedulers S i) \<noteq> [] \<Longrightarrow>
    delivery_step cfg cr lax_int S (S\<lparr>schedulers := (schedulers S)(i := popped (schedulers S i))\<rparr>)"
| job_fired: "job_cache (schedulers S i) k = Some job \<Longrightarrow>
    dispatch_job cr MemoryQueueClient job now (world S) = (Inr (n, job'), w') \<Longrightarrow>
    delivery_step cfg cr lax_int S
      (S\<lparr>world := w', schedulers := (schedulers S)(i := rescheduled k job' (schedulers S i))\<rparr>)"
| job_misfired: "job_cache (schedulers S i) k = Some job \<Longrightarrow>
    dispatch_job cr MemoryQueueClient job now (world S) = (Inl e, w') \<Longrightarrow> delivery_step cfg cr lax_int S (S\<lparr>world := w'\<rparr>)"
| task_marked: "mark_processed_for_chaining t (db (world S)) = Inr d \<Longrightarrow>
    delivery_step cfg cr lax_int S (S\<lparr>world := (world S)\<lparr>db := d\<rparr>\<rparr>)"
| dependent_triggered: "dispatch_if_ready MemoryQueueClient latest ups j (world S) = (r, w') \<Longrightarrow>
    delivery_step cfg cr lax_int S (S\<lparr>world := w'\<rparr>)"
| scheduler_restarted: "delivery_step cfg cr lax_int S (S\<lparr>schedulers := (schedulers S)(i := new_scheduler)\<rparr>)"
| worker_turned: "delivery_step cfg cr lax_int S
    (S\<lparr>world := run_all MemoryQueueClient idle wk executor exc_str fl pools (world S)\<rparr>)"

text \<open>The histories that need at most \<open>k\<close> identifiers, the retries that are still allowed included.\<close>

inductive delivery_reachable ::
    "settings \<Rightarrow> croniter \<Rightarrow> (json \<Rightarrow> int option) \<Rightarrow> nat \<Rightarrow> mem_queue world \<Rightarrow> mem_queue system \<Rightarrow> bool"
  for cfg cr lax_int k w0
where
  delivery_start: "delivery_reachable cfg cr lax_int k w0 (initial_system w0)"
| delivery_next: "delivery_reachable cfg cr lax_int k w0 S \<Longrightarrow> delivery_step cfg cr lax_int S S' \<Longrightarrow>
    uuids_drawn (world S') + budget (db (world S')) \<le> k \<Longrightarrow> delivery_reachable cfg cr lax_int k w0 S'"

definition delivery_inv :: "settings \<Rightarrow> nat \<Rightarrow> mem_queue system \<Rightarrow> bool" where
  "delivery_inv cfg k S \<longleftrightarrow>
     system_inv cfg S \<and> canonical k (world S) \<and> backed {#} (world S) \<and> running_ids (db (world S)) = {}"

lemma backed_posts: "posts queued w w' \<Longrightarrow> backed {#} w \<Longrightarrow> backed {#} w'"
  unfolding posts_def backed_def
  by (auto intro: subset_mset.order_trans mset_subset_eq_mono_add)

lemma delivery_posts:
  assumes inv: "delivery_inv cfg k S" and p: "posts queued (world S) (world S')" and sys: "system_inv cfg S'"
    and k: "uuids_drawn (world S') + budget (db (world S')) \<le> k"
  shows "delivery_inv cfg k S'"
proof -
  have "canonical k (world S')"
    by (rule canonical_step [OF _ _ _ k, of "world S"]) (use inv p in \<open>auto simp: delivery_inv_def posts_def\<close>)
  moreover have "running_ids (db (world S')) = {}" using inv p by (auto simp: delivery_inv_def posts_def)
  ultimately show ?thesis using inv sys backed_posts [OF p] by (simp add: delivery_inv_def)
qed

lemma mark_processed_posts:
  assumes "mark_processed_for_chaining t (db w) = Inr d"
  shows "posts waiting w (w\<lparr>db := d\<rparr>)"
proof -
  let ?f = "\<lambda>r :: task. r\<lparr>processed_for_chaining := True\<rparr>"
  have d: "tasks d = update_row tid t ?f (tasks (db w))"
    using assms by (auto simp: mark_processed_for_chaining_def task_write_def split: if_splits)
  have "map (\<lambda>r. task_body (tid r)) (filter (\<lambda>r. status r = pending) (update_row tid t ?f rows)) =
      map (\<lambda>r. task_body (tid r)) (filter (\<lambda>r. status r = pending) rows)" for rows
    by (induction rows) simp_all
  then have "pending_bodies d = pending_bodies (db w)" unfolding pending_bodies_def pending_tasks_def d by metis
  moreover have "running_ids d \<subseteq> running_ids (db w)" "task_ids d = task_ids (db w)"
    by (auto simp: running_ids_def d set_update_row) (simp_all add: d task_ids_def keys_update_row)
  ultimately show ?thesis by (auto simp: posts_def messages_def draws_def intro!: exI [of _ "{#}"])
qed

text \<open>With no claim open there is nothing to recover.\<close>

lemma recover_nothing:
  assumes "store_inv cfg w" "running_ids (db w) = {}" "recover_orphans w = (r, w')"
  shows "posts waiting w w'"
proof (rule posts_same)
  have "\<not> expired now t" if "t \<in> set (tasks (db w))" for now t using assms(2) that by (auto simp: running_ids_def expired_def)
  note R = recover_orphans_run [OF assms(1,3)] this
  then show "tasks (db w') = tasks (db w)" by (simp add: map_idI)
  show "messages waiting w' = messages waiting w" "draws w w'" using R by (simp_all add: messages_def)
qed

lemma delivery_step_inv:
  assumes adv: "croniter_advances cr" and step: "delivery_step cfg cr lax_int S S'" and inv: "delivery_inv cfg k S"
    and k: "uuids_drawn (world S') + budget (db (world S')) \<le> k"
  shows "delivery_inv cfg k S'"
proof -
  have sys: "system_inv cfg S" and st: "store_inv cfg (world S)" using inv by (simp_all add: delivery_inv_def system_inv_def)
  have posted: "delivery_inv cfg k S'"
    if "system_step cfg cr lax_int MemoryQueueClient S S'" "posts queued (world S) (world S')"
    using delivery_posts [OF inv that(2) _ k] system_step_inv [OF adv that(1) sys] by blast
  show ?thesis
    using step
  proof cases
    case (job_created p r w')
    then show ?thesis using posted [OF api_creates [OF job_created(2,3), folded job_created(1)]] memq.create_job_posts by fastforce
  next
    case (job_updated p i r w')
    then show ?thesis using posted [OF api_updates [OF job_updated(2,3), folded job_updated(1)]] memq.update_job_posts by fastforce
  next
    case (job_deleted i r w')
    then show ?thesis using posted [OF api_deletes [OF job_deleted(2), folded job_deleted(1)]] posts_deleted by fastforce
  next
    case (job_triggered i r w')
    then show ?thesis using posted [OF api_triggers [OF job_triggered(2), folded job_triggered(1)]] memq.trigger_job_posts by fastforce
  next
    case (task_retried t r w')
    then show ?thesis using posted [OF api_retries [OF task_retried(2), folded task_retried(1)]] memq.retry_task_posts by fastforce
  next
    case (jobs_synced i s' w')
    have "posts queued (world S) w'" using sync_jobs_frame [OF jobs_synced(2)] by (simp add: posts_quiet)
    then show ?thesis using posted [OF scheduler_syncs [OF jobs_synced(2), folded jobs_synced(1)]] jobs_synced(1) by simp
  next
    case (orphans_recovered r w')
    have "posts queued (world S) w'" using recover_nothing [OF st _ orphans_recovered(2)] inv by (simp add: delivery_inv_def)
    then show ?thesis
      using posted [OF scheduler_recovers [OF orphans_recovered(2), folded orphans_recovered(1)]] orphans_recovered(1) by simp
  next
    case (entry_popped i)
    then show ?thesis using posted [OF scheduler_pops [OF entry_popped(2), folded entry_popped(1)]] by simp
  next
    case (job_fired i k job now n job' w')
    then show ?thesis using posted [OF scheduler_fires [OF job_fired(2,3), folded job_fired(1)]] memq.dispatch_job_posts [OF job_fired(3)] by simp
  next
    case (job_misfired i k job now e w')
    then show ?thesis
      using posted [OF scheduler_misfires [OF job_misfired(2,3), folded job_misfired(1)]] memq.dispatch_job_posts [OF job_misfired(3)] by simp
  next
    case (task_marked t d)
    then show ?thesis using posted [OF scheduler_marks [OF task_marked(2), folded task_marked(1)]] mark_processed_posts [OF task_marked(2)] by simp
  next
    case (dependent_triggered latest ups j r w')
    then show ?thesis
      using posted [OF scheduler_triggers [OF dependent_triggered(2), folded dependent_triggered(1)]]
        memq.dispatch_if_ready_posts [OF dependent_triggered(2)] by simp
  next
    case (scheduler_restarted i)
    then show ?thesis using posted [OF scheduler_restarts [of _ _ _ _ S i, folded scheduler_restarted]] by simp
  next
    case (worker_turned wk executor exc_str fl pools)
    let ?w = "run_all MemoryQueueClient idle wk executor exc_str fl pools (world S)"
    have W: "worked cfg k executor exc_str (world S) ?w" "backed {#} ?w"
      using run_all_works [OF st _ _ refl, of k] inv by (simp_all add: delivery_inv_def)
    then have "draws (world S) ?w" by (simp add: worked_def)
    then have "system_inv cfg S'" using system_inv_world [OF sys worked_inv(1) [OF W(1)]] worker_turned by simp
    then show ?thesis using W inv worker_turned by (auto simp: delivery_inv_def worked_def)
  qed
qed

lemma delivery_reachable_inv:
  assumes adv: "croniter_advances cr" and src: "inj src" "src ` {..<k} \<subseteq> range uuid_str"
    and "delivery_reachable cfg cr lax_int k (initial_world clk src) S"
  shows "delivery_inv cfg k S"
  using assms(4)
proof (induction rule: delivery_reachable.induct)
  case delivery_start
  have "system_inv cfg (initial_system (initial_world clk src))"
    by (rule system_reachable_inv [OF adv initial_store_inv [OF src(1)] system_start])
  then show ?case
    using src(2) by (simp add: delivery_inv_def initial_system_def canonical_def backed_def pending_bodies_def
        pending_tasks_def running_ids_def initial_world_def task_ids_def budget_def)
next
  case (delivery_next S S')
  then show ?case using delivery_step_inv [OF adv] by blast
qed

lemma worker_turns_reachable:
  assumes adv: "croniter_advances cr" and src: "inj src" "src ` {..<k} \<subseteq> range uuid_str"
    and S: "delivery_reachable cfg cr lax_int k (initial_world clk src) S"
  shows "delivery_reachable cfg cr lax_int k (initial_world clk src)
    (S\<lparr>world := (run_all MemoryQueueClient idle wk executor exc_str fl queue_factories ^^ n) (world S)\<rparr>)"
proof (induction n)
  case 0
  then show ?case using S by simp
next
  case (Suc n)
  let ?w = "(run_all MemoryQueueClient idle wk executor exc_str fl queue_factories ^^ Suc n) (world S)"
  have "delivery_inv cfg k S" by (rule delivery_reachable_inv [OF adv src S])
  then have "worked cfg k executor exc_str (world S) ?w"
    using turns_work [OF _ _ _ refl, of cfg "world S" k] by (simp add: delivery_inv_def system_inv_def del: funpow.simps)
  then have "uuids_drawn ?w + budget (db ?w) \<le> k" using worked_inv(2) by (simp add: canonical_def del: funpow.simps)
  then show ?case using delivery_next [OF Suc worker_turned [where pools = queue_factories]] by simp
qed

text \<open>(C4) No run is stranded on the in-memory queue. That is a deployment whose processes share one queue client, whose
  sends therefore succeed, where no process crashes and a turn of a worker is not interrupted. Whatever the
  clients and the schedulers have done there since the first request, with any number of such turns in between, every pending task has its message in a queue, and
  from there the worker process ends every task there is: after finitely many turns the queues are
  empty and every task is success, failed or final_failed.\<close>

theorem no_run_is_stranded:
  assumes adv: "croniter_advances cr" and src: "inj src" "src ` {..<k} \<subseteq> range uuid_str"
    and S: "delivery_reachable cfg cr lax_int k (initial_world clk src) S"
  shows "(\<forall>t \<in> set (tasks (db (world S))). status t = pending \<longrightarrow> task_body (tid t) \<in># messages queued (world S)) \<and>
    (\<exists>n w'. worker_process MemoryQueueClient idle wk executor exc_str fl None n (world S) = Some w' \<and>
       delivery_reachable cfg cr lax_int k (initial_world clk src) (S\<lparr>world := w'\<rparr>) \<and>
       messages queued w' = {#} \<and> (\<forall>t \<in> set (tasks (db w')). terminal (status t)))"
proof -
  note inv = delivery_reachable_inv [OF adv src S]
  have st: "store_inv cfg (world S)" "canonical k (world S)" "backed {#} (world S)"
    using inv by (simp_all add: delivery_inv_def system_inv_def)
  have "task_body (tid t) \<in># messages queued (world S)" if "t \<in> set (tasks (db (world S)))" "status t = pending" for t
  proof -
    have "task_body (tid t) \<in># pending_bodies (db (world S))" using that by (auto simp: pending_bodies_def pending_tasks_def)
    then show ?thesis using st(3) mset_subset_eqD by (auto simp: backed_def)
  qed
  moreover define n where "n = work_left {#} (world S)"
  define w' where "w' = (run_all MemoryQueueClient idle wk executor exc_str fl queue_factories ^^ n) (world S)"
  have r: "delivery_reachable cfg cr lax_int k (initial_world clk src) (S\<lparr>world := w'\<rparr>)"
    unfolding w'_def by (rule worker_turns_reachable [OF adv src S])
  have "work_left {#} w' = 0" using turns_work [OF st w'_def] by (simp add: n_def)
  then have none: "messages queued w' = {#}" "pending_tasks (db w') = []" by (auto simp: work_left_def budget_def)
  have "running_ids (db w') = {}" using delivery_reachable_inv [OF adv src r] by (simp add: delivery_inv_def)
  then have "terminal (status t)" if "t \<in> set (tasks (db w'))" for t
    using none(2) that by (cases "status t") (auto simp: terminal_def running_ids_def pending_tasks_def filter_empty_conv)
  then have "\<exists>n w'. worker_process MemoryQueueClient idle wk executor exc_str fl None n (world S) = Some w' \<and>
       delivery_reachable cfg cr lax_int k (initial_world clk src) (S\<lparr>world := w'\<rparr>) \<and>
       messages queued w' = {#} \<and> (\<forall>t \<in> set (tasks (db w')). terminal (status t))"
    using r none(1) by (intro exI [of _ n] exI [of _ w']) (simp add: worker_process_def worker_pools_def w'_def)
  ultimately show ?thesis by blast
qed

subsection \<open>A small service\<close>

text \<open>A service with one job that runs once, whose identifiers are UUIDs.\<close>

definition uuid_world :: "mem_queue world" where
  "uuid_world = initial_world (\<lambda>n. seconds (int n)) uuid_stream"

definition once_system :: "mem_queue system" where
  "once_system =
     (initial_system uuid_world)\<lparr>world := snd (create_job default_settings minutely MemoryQueueClient once_payload uuid_world)\<rparr>"

lemma created_numbers:
  fixes src :: "nat \<Rightarrow> uuid" and clk :: "nat \<Rightarrow> time"
  defines "w \<equiv> snd (create_job default_settings minutely MemoryQueueClient once_payload (initial_world clk src))"
  shows "uuids_drawn w = 2" "map status (tasks (db w)) = [pending]" "map (retries_left (db w)) (tasks (db w)) = [2]"
    "map (succeeds always_fails (\<lambda>e. []) (db w)) (tasks (db w)) = [False]"
  unfolding w_def by code_simp+

lemma once_numbers:
  "uuids_drawn (world once_system) + budget (db (world once_system)) \<le> 100"
  "map status (tasks (db (world once_system))) = [pending]"
  "attempts always_fails (\<lambda>e. []) (db (world once_system)) = 3"
proof -
  note N = created_numbers [where src = uuid_stream and clk = "\<lambda>n. seconds (int n)", folded uuid_world_def]
  have w: "world once_system = snd (create_job default_settings minutely MemoryQueueClient once_payload uuid_world)"
    by (simp add: once_system_def)
  obtain t where t: "tasks (db (world once_system)) = [t]" "status t = pending" using N(2) unfolding w by auto
  then show "uuids_drawn (world once_system) + budget (db (world once_system)) \<le> 100"
    "map status (tasks (db (world once_system))) = [pending]"
    "attempts always_fails (\<lambda>e. []) (db (world once_system)) = 3"
    using N(1,3,4) by (auto simp: w budget_def attempts_def pending_tasks_def)
qed

lemma once_reachable:
  "delivery_reachable default_settings minutely strict_int 100 uuid_world once_system"
proof -
  obtain r w' where c: "create_job default_settings minutely MemoryQueueClient once_payload uuid_world = (r, w')" by fastforce
  have "delivery_step default_settings minutely strict_int (initial_system uuid_world) once_system"
    unfolding once_system_def c snd_conv
    by (rule job_created [where p = once_payload]) (use c once_payload_valid in \<open>simp_all add: initial_system_def\<close>)
  then show ?thesis by (rule delivery_next [OF delivery_start _ once_numbers(1)])
qed

lemma once_inv: "delivery_inv default_settings 100 once_system"
  using delivery_reachable_inv [OF minutely_advances uuid_stream_inj uuid_stream_uuids] once_reachable
  by (simp add: uuid_world_def)

theorem workers_finish_everything_witness:
  "\<exists>n w'. worker_process MemoryQueueClient idle sample_worker always_fails (\<lambda>e. []) (\<lambda>s. (s, None)) None n (world once_system) = Some w' \<and>
     messages queued w' = {#} \<and> length (tasks (db w')) = 3"
proof -
  have "store_inv default_settings (world once_system)" "canonical 100 (world once_system)" "backed {#} (world once_system)"
    using once_inv by (simp_all add: delivery_inv_def system_inv_def)
  from workers_finish_everything [OF this order_refl, of sample_worker always_fails "\<lambda>e. []" "\<lambda>s. (s, None)"]
  show ?thesis by (auto simp: once_numbers)
qed

theorem no_run_is_stranded_witness:
  "\<exists>n w'. worker_process MemoryQueueClient idle sample_worker always_fails (\<lambda>e. []) (\<lambda>s. (s, None)) None n (world once_system) = Some w' \<and>
     messages queued w' = {#}"
  using no_run_is_stranded [OF minutely_advances uuid_stream_inj uuid_stream_uuids once_reachable [unfolded uuid_world_def]]
  by blast

end
