(* ===== verification/Load_Runs.thy ===== *)
theory Load_Runs
  imports Delivery
begin

text \<open>
  The load generators and the workers together: a script posts its requests, the worker process works the
  queues off, and what the script announced is what ran. The requests may be lost on either way for the
  first lemmas; the announcements are about scripts all of whose requests are delivered.
\<close>

subsection \<open>Every request posts its messages\<close>

context reliable_queue
begin

lemma create_one_posts: "create_one cfg cr lax_int client dl p w = (r, w') \<Longrightarrow> posts waiting w w'"
  by (auto simp: create_one_def request_def post_job_def split: delivery.splits prod.splits sum.splits if_splits
      dest: create_job_posts)

lemma trigger_one_posts: "trigger_one client dl i w = (r, w') \<Longrightarrow> posts waiting w w'"
  by (auto simp: trigger_one_def request_def trigger_endpoint_def split: delivery.splits prod.splits sum.splits
      dest: trigger_job_posts)

lemma bulk_create_posts: "bulk_create cfg cr lax_int client dl payload order b w = (b', w') \<Longrightarrow> posts waiting w w'"
proof (induction order arbitrary: b w)
  case (Cons i order)
  obtain r w1 where c: "create_one cfg cr lax_int client (dl i) (payload i) w = (r, w1)" by fastforce
  show ?case using Cons.prems posts_trans [OF create_one_posts [OF c] Cons.IH] by (cases r) (auto simp: c)
qed simp

lemma bulk_trigger_posts: "bulk_trigger client dl ids ok fail w = (r, w') \<Longrightarrow> posts waiting w w'"
proof (induction ids arbitrary: ok fail w)
  case (Cons i ids)
  obtain r1 w1 where c: "trigger_one client (dl i) i w = (r1, w1)" by fastforce
  show ?case using Cons.prems posts_trans [OF trigger_one_posts [OF c] Cons.IH] by (cases r1) (auto simp: c)
qed simp

lemma load_gen_posts:
  assumes "load_gen cfg cr lax_int client up dlc dlt prefix hex order torder trigger w = (code, ids, w')"
  shows "posts waiting w w'"
proof (cases up)
  case True
  obtain b w1 where b: "bulk_create cfg cr lax_int client dlc (\<lambda>i. load_payload (job_name prefix hex i)) order new_bulk w = (b, w1)"
    by fastforce
  obtain r w2 where t: "bulk_trigger client dlt (torder (created_ids b)) 0 0 w1 = (r, w2)" by fastforce
  have "w' = w1 \<or> w' = w2" using assms True b t by (auto simp: load_gen_def Let_def split: if_splits)
  then show ?thesis using bulk_create_posts [OF b] bulk_trigger_posts [OF t] posts_trans by blast
qed (use assms in \<open>simp add: load_gen_def\<close>)

lemma retry_work_posts: "retry_work cfg cr lax_int client dlc dlt payload order ok fail w = (r, w') \<Longrightarrow> posts waiting w w'"
proof (induction order arbitrary: ok fail w)
  case (Cons i order)
  obtain c w1 where c: "create_one cfg cr lax_int client (dlc i) (payload i) w = (c, w1)" by fastforce
  obtain b w2 where b: "create_and_trigger cfg cr lax_int client (dlc i) (dlt i) (payload i) w = (b, w2)" by fastforce
  have "posts waiting w w2"
    using b c create_one_posts [OF c] posts_trans [OF create_one_posts [OF c] trigger_one_posts]
    by (cases c) (auto simp: create_and_trigger_def)
  then show ?case using Cons.prems posts_trans [OF _ Cons.IH] b by (cases b) auto
qed simp

end

subsection \<open>Work done\<close>

text \<open>After enough turns of the worker process nothing is left of a store whose pending tasks have messages.\<close>

lemma posted_and_drained:
  assumes inv: "store_inv cfg w'" and can: "canonical k w" and b: "backed {#} w" and p: "posts queued w w'"
    and k: "uuids_drawn w' + budget (db w') \<le> k" and n: "work_left {#} w' \<le> n"
  obtains w2 where "worker_process MemoryQueueClient idle wk executor exc_str fl None n w' = Some w2" "messages queued w2 = {#}"
    "worked cfg k executor exc_str w' w2" "pending_tasks (db w2) = []"
proof -
  define w2 where "w2 = (run_all MemoryQueueClient idle wk executor exc_str fl queue_factories ^^ n) w'"
  have "canonical k w'" by (rule canonical_step [OF can _ _ k]) (use p in \<open>simp_all add: posts_def\<close>)
  then have W: "worked cfg k executor exc_str w' w2" "work_left {#} w2 = 0"
    using turns_work [OF inv _ backed_posts [OF p b] w2_def] n by simp_all
  then have "messages queued w2 = {#}" "pending_tasks (db w2) = []" by (auto simp: work_left_def budget_def)
  then show ?thesis using that W(1) by (simp add: worker_process_def worker_pools_def w2_def)
qed

lemma pending_ran:
  assumes W: "worked cfg k executor exc_str w w2" and none: "pending_tasks (db w2) = []"
    and t: "t \<in> set (tasks (db w))" "status t = pending"
  shows "\<exists>t'. get_task_row (db w2) (tid t) = Some t' \<and> task_job_id t' = task_job_id t \<and> retry_count t' = retry_count t \<and>
    status t' = end_status executor exc_str (db w) t"
proof -
  obtain t' where t': "t' \<in> set (tasks (db w2))" "ran executor exc_str (db w) t t'" using W t(1) unfolding worked_def by blast
  have "status t' \<noteq> pending" using t'(1) none by (auto simp: pending_tasks_def filter_empty_conv)
  moreover have "db_wf (db w2)" using W by (simp add: worked_def store_inv_def)
  then have "get_task_row (db w2) (tid t) = Some t'"
    using t' by (auto simp: ran_def get_task_row_def find_row_Some_iff db_wf_def keys_ok_def)
  ultimately show ?thesis using t'(2) t(2) by (auto simp: ran_def)
qed

text \<open>Every stored job can be run, so its runs end as the executor says.\<close>

lemma execute_stored:
  assumes "spec_derived cfg j"
  shows "\<exists>s. execute_job executor exc_str j = (case executor s of Inl e \<Rightarrow> failure_result [] (exc_str e) | Inr r \<Rightarrow> r)"
proof -
  obtain spec where spec: "build_runtime_spec cfg (Some (action_type j)) (action_config j) = Inr spec" "runtime_spec j = Some spec"
    using assms by (auto simp: spec_derived_iff)
  obtain img cmd n where "spec = spec_json img cmd n" using build_runtime_spec_shape [OF spec(1)] by blast
  moreover from this have "truthy spec" by (simp add: spec_json_def truthy_def)
  ultimately show ?thesis using spec(2) by (auto simp: execute_job_def ContainerSpec_spec_json)
qed

lemma job_row_derived:
  assumes "store_inv cfg w" "t \<in> set (tasks (db w))"
  obtains j where "get_job_row (db w) (task_job_id t) = Some j" "spec_derived cfg j"
proof -
  have wf: "db_wf (db w)" using assms(1) by (simp add: store_inv_def)
  have "get_task_row (db w) (tid t) = Some t"
    using assms(2) wf by (simp add: get_task_row_def find_row_Some_iff db_wf_def keys_ok_def)
  then obtain j where j: "get_job_row (db w) (task_job_id t) = Some j" using job_of_task [OF wf] by blast
  then have "spec_derived cfg j" using get_job_row_SomeD [OF j] assms(1) by (simp add: store_inv_def specs_derived_def)
  with j that show ?thesis by blast
qed

lemma always_succeeds:
  assumes "store_inv cfg w" "t \<in> set (tasks (db w))" "\<And>s. \<exists>r. executor s = Inr r \<and> er_success r"
  shows "succeeds executor exc_str (db w) t"
proof -
  obtain j where j: "get_job_row (db w) (task_job_id t) = Some j" "spec_derived cfg j" by (rule job_row_derived [OF assms(1,2)])
  obtain s where "execute_job executor exc_str j = (case executor s of Inl e \<Rightarrow> failure_result [] (exc_str e) | Inr r \<Rightarrow> r)"
    using execute_stored [OF j(2)] by blast
  moreover obtain r where "executor s = Inr r" "er_success r" using assms(3) by blast
  ultimately show ?thesis using j(1) by (simp add: succeeds_def)
qed

text \<open>(C38) What \<open>load_gen.py\<close> announces is what runs. Its requests are delivered to a service whose pending tasks
  have their messages, and every container exits with 0: after enough turns of the worker process the
  queues are empty and exactly the announced number of runs, one for each job or two with \<open>--trigger\<close>, has
  been added, every one of them a success, with no retry.\<close>

theorem load_gen_runs_as_announced:
  assumes inv: "store_inv cfg w" and cfg: "shell_execution_enabled cfg" "lax_int (JInt 5) = Some 5"
    and names: "distinct order" "\<forall>i \<in> set order. job_name prefix hex i \<notin> name ` set (jobs (db w))"
    and perm: "\<And>ids. mset (torder ids) = mset ids"
    and run: "load_gen cfg cr lax_int MemoryQueueClient True (\<lambda>_. delivered) (\<lambda>_. delivered) prefix hex order torder trigger w =
      (code, ids, w')"
    and can: "canonical k w" "uuids_drawn w' + budget (db w') \<le> k" and b: "backed {#} w"
    and ok: "\<And>s. \<exists>r. executor s = Inr r \<and> er_success r" and n: "work_left {#} w' \<le> n"
  shows "\<exists>ts w2. tasks (db w') = tasks (db w) @ ts \<and> length ts = expected_runs (length order) trigger \<and>
    (\<forall>i \<in> set ids. length (filter (\<lambda>t. task_job_id t = i) ts) = (if trigger then 2 else 1)) \<and>
    worker_process MemoryQueueClient idle wk executor exc_str fl None n w' = Some w2 \<and> messages queued w2 = {#} \<and>
    length (tasks (db w2)) = length (tasks (db w)) + expected_runs (length order) trigger \<and>
    (\<forall>t \<in> set ts. \<exists>t'. get_task_row (db w2) (tid t) = Some t' \<and> task_job_id t' = task_job_id t \<and> status t' = success)"
proof -
  obtain js runs where r: "ids = map jid js" "map name js = map (job_name prefix hex) order" "burst w w' js runs"
      "mset runs = repeat_mset (if trigger then 2 else 1) (mset (map jid js))" "store_inv cfg w'"
    using load_gen_burst [OF inv cfg names perm run] by blast
  have len: "length js = length order" using r(2) by (metis length_map)
  have "db_wf (db w')" using r(5) by (simp add: store_inv_def)
  then obtain ts where "jobs (db w') = jobs (db w) @ js" and ts: "tasks (db w') = tasks (db w) @ ts" "length ts = expected_runs (length order) trigger"
    "\<forall>t \<in> set ts. status t = pending \<and> trigger_type t = manual \<and> retry_count t = 0"
    "\<forall>j \<in> set js. length (filter (\<lambda>t. task_job_id t = jid j) ts) = (if trigger then 2 else 1)"
    using burst_counts [OF r(3) _ r(4)] unfolding expected_runs_def len [symmetric] by metis
  obtain w2 where w2: "worker_process MemoryQueueClient idle wk executor exc_str fl None n w' = Some w2" "messages queued w2 = {#}"
    "worked cfg k executor exc_str w' w2" "pending_tasks (db w2) = []"
    using posted_and_drained [OF r(5) can(1) b memq.load_gen_posts [OF run] can(2) n] by blast
  have good: "succeeds executor exc_str (db w') t" if "t \<in> set (tasks (db w'))" for t
    using always_succeeds [OF r(5) that ok] .
  then have "(\<Sum>t\<leftarrow>pending_tasks (db w'). if succeeds executor exc_str (db w') t then 0 else retries_left (db w') t) = 0"
    by (simp add: pending_tasks_def)
  then have "length (tasks (db w2)) = length (tasks (db w'))"
    using w2(3,4) by (simp add: worked_def attempts_def)
  moreover have "\<exists>t'. get_task_row (db w2) (tid t) = Some t' \<and> task_job_id t' = task_job_id t \<and> status t' = success"
    if t: "t \<in> set ts" for t
    using pending_ran [OF w2(3,4), of t] t ts(1,3) good by (auto simp: end_status_def)
  ultimately show ?thesis using ts w2(1,2) r(1) by (intro exI [of _ ts] exI [of _ w2]) simp
qed

definition exits_with_0 :: "container_spec \<Rightarrow> execution_result result" where
  "exits_with_0 spec = Inr (exit_result 0 ''ok'' [])"

lemma one_load_numbers:
  fixes src :: "nat \<Rightarrow> uuid" and clk :: "nat \<Rightarrow> time"
  defines "w \<equiv> snd (snd (load_gen default_settings minutely strict_int MemoryQueueClient True (\<lambda>_. delivered) (\<lambda>_. delivered)
       ''load'' (\<lambda>_. ''0a1b2c3d'') [7] rev False (initial_world clk src)))"
  shows "uuids_drawn w = 2" "map status (tasks (db w)) = [pending]" "map (retries_left (db w)) (tasks (db w)) = [3]"
  unfolding w_def by code_simp+

theorem load_gen_runs_as_announced_witness:
  "\<exists>n w' w2. snd (snd (load_gen default_settings minutely strict_int MemoryQueueClient True (\<lambda>_. delivered) (\<lambda>_. delivered)
       ''load'' (\<lambda>_. ''0a1b2c3d'') [7] rev False uuid_world)) = w' \<and>
     worker_process MemoryQueueClient idle sample_worker exits_with_0 (\<lambda>e. []) (\<lambda>s. (s, None)) None n w' = Some w2 \<and>
     messages queued w2 = {#} \<and> map status (tasks (db w2)) = [success]"
proof -
  obtain code ids w' where run: "load_gen default_settings minutely strict_int MemoryQueueClient True (\<lambda>_. delivered)
      (\<lambda>_. delivered) ''load'' (\<lambda>_. ''0a1b2c3d'') [7] rev False uuid_world = (code, ids, w')" using prod_cases3 by blast
  note N = one_load_numbers [where src = uuid_stream and clk = "\<lambda>n. seconds (int n)", folded uuid_world_def, unfolded run snd_conv]
  have start: "delivery_inv default_settings 100 (initial_system uuid_world)"
    unfolding uuid_world_def by (rule delivery_reachable_inv [OF minutely_advances uuid_stream_inj uuid_stream_uuids delivery_start])
  then have w: "store_inv default_settings uuid_world" "canonical 100 uuid_world" "backed {#} uuid_world"
    by (simp_all add: delivery_inv_def system_inv_def initial_system_def)
  obtain t where t: "tasks (db w') = [t]" "status t = pending" using N(2) by auto
  then have k: "uuids_drawn w' + budget (db w') \<le> 100" using N(1,3) by (simp add: budget_def pending_tasks_def)
  have empty: "jobs (db uuid_world) = []" "tasks (db uuid_world) = []" by (simp_all add: uuid_world_def initial_world_def)
  have ok: "\<exists>r. exits_with_0 s = Inr r \<and> er_success r" for s by (simp add: exits_with_0_def exit_result_def)
  have cfg: "shell_execution_enabled default_settings" "strict_int (JInt 5) = Some 5"
    by (simp_all add: default_settings_def strict_int_def)
  have new: "distinct [7 :: nat]" "\<forall>i \<in> set [7 :: nat]. job_name ''load'' (\<lambda>_. ''0a1b2c3d'') i \<notin> name ` set (jobs (db uuid_world))"
    by (simp_all add: empty)
  have perm: "mset (rev ids) = mset ids" for ids :: "uuid list" by simp
  obtain ts w2 where r: "tasks (db w') = ts" "length ts = 1"
    "worker_process MemoryQueueClient idle sample_worker exits_with_0 (\<lambda>e. []) (\<lambda>s. (s, None)) None (work_left {#} w') w' = Some w2"
    "messages queued w2 = {#}" "length (tasks (db w2)) = 1"
    "\<forall>t \<in> set ts. \<exists>t'. get_task_row (db w2) (tid t) = Some t' \<and> task_job_id t' = task_job_id t \<and> status t' = success"
    using load_gen_runs_as_announced [where executor = exits_with_0 and wk = sample_worker and exc_str = "\<lambda>e. []" and
        fl = "\<lambda>s. (s, None)", OF w(1) cfg new perm run w(2) k w(3) ok order_refl]
    by (auto simp: empty expected_runs_def)
  obtain x where x: "tasks (db w2) = [x]" using r(5) by (auto simp: length_Suc_conv)
  moreover have "t \<in> set ts" using r(1) t(1) by (metis list.set_intros(1))
  ultimately have "status x = success" using r(6) by (fastforce simp: get_task_row_def split: if_splits)
  then have "map status (tasks (db w2)) = [success]" using x by simp
  then show ?thesis using run r(3,4) by (intro exI [of _ "work_left {#} w'"] exI [of _ w'] exI [of _ w2]) simp
qed

subsection \<open>retry_gen.py\<close>

lemma always_fails_too:
  assumes "store_inv cfg w" "t \<in> set (tasks (db w))" "\<And>s r. executor s = Inr r \<Longrightarrow> \<not> er_success r"
  shows "\<not> succeeds executor exc_str (db w) t"
proof -
  obtain j where j: "get_job_row (db w) (task_job_id t) = Some j" "spec_derived cfg j" by (rule job_row_derived [OF assms(1,2)])
  obtain s where "execute_job executor exc_str j = (case executor s of Inl e \<Rightarrow> failure_result [] (exc_str e) | Inr r \<Rightarrow> r)"
    using execute_stored [OF j(2)] by blast
  then have "\<not> er_success (execute_job executor exc_str j)" using assms(3) by (auto simp: failure_result_def split: sum.splits)
  then show ?thesis using j(1) by (simp add: succeeds_def)
qed

text \<open>The script announces \<open>jobs * (retries + 1)\<close> failing runs. Since creating a one-time job runs it and the script
  triggers it again, it is exactly twice as many.\<close>

lemma retry_gen_doubles_its_announcement:
  assumes inv: "store_inv cfg w" and cfg: "shell_execution_enabled cfg" "lax_int (JInt 5) = Some 5" "0 \<le> retries"
    and names: "distinct order" "\<forall>i \<in> set order. job_name prefix hex i \<notin> name ` set (jobs (db w))"
    and run: "retry_work cfg cr lax_int MemoryQueueClient (\<lambda>_. delivered) (\<lambda>_. delivered)
      (\<lambda>i. retry_payload retries (job_name prefix hex i)) order 0 0 w = (counts, w')"
    and can: "canonical k w" "uuids_drawn w' + budget (db w') \<le> k" and b: "backed {#} w" and idle: "pending_tasks (db w) = []"
    and bad: "\<And>s r. executor s = Inr r \<Longrightarrow> \<not> er_success r" and n: "work_left {#} w' \<le> n"
  shows "\<exists>w2. worker_process MemoryQueueClient idle wk executor exc_str fl None n w' = Some w2 \<and> messages queued w2 = {#} \<and>
    length (tasks (db w2)) = length (tasks (db w)) + 2 * expected_fail_runs (length order) (nat retries)"
proof -
  obtain js where js: "length js = length order" "\<forall>j \<in> set js. max_retries j = retries"
    "burst w w' js (concat (map (\<lambda>j. [jid j, jid j]) js))" "store_inv cfg w'"
    using retry_gen_runs_twice [where lax_int = lax_int and prefix = prefix and hex = hex and cr = cr, OF inv cfg names] run by auto
  obtain ts where ts: "tasks (db w') = tasks (db w) @ ts" "map task_job_id ts = concat (map (\<lambda>j. [jid j, jid j]) js)"
    "\<forall>t \<in> set ts. status t = pending \<and> retry_count t = 0" "jobs (db w') = jobs (db w) @ js"
    using js(3) by (auto simp: burst_def)
  have dist: "distinct (map jid (jobs (db w')))" using js(4) by (simp add: store_inv_def db_wf_def keys_ok_def)
  have left: "retries_left (db w') t = nat retries" if t: "t \<in> set ts" for t
  proof -
    have "task_job_id t \<in> set (map task_job_id ts)" using t by simp
    then obtain j where j: "j \<in> set js" "task_job_id t = jid j" unfolding ts(2) by auto
    then have "get_job_row (db w') (task_job_id t) = Some j" using dist ts(4) by (simp add: get_job_row_def find_row_Some_iff)
    then show ?thesis using js(2) j(1) ts(3) t by (simp add: retries_left_def)
  qed
  have len: "length ts = 2 * length order"
  proof -
    have "length (concat (map (\<lambda>j. [jid j, jid j]) js)) = 2 * length js" by (induction js) simp_all
    then show ?thesis using arg_cong [OF ts(2), of length] js(1) by simp
  qed
  have pend: "pending_tasks (db w') = ts" using ts(1,3) idle by (simp add: pending_tasks_def)
  have "\<not> succeeds executor exc_str (db w') t" if "t \<in> set ts" for t
    using always_fails_too [OF js(4) _ bad] that ts(1) by simp
  then have "(\<Sum>t\<leftarrow>ts. if succeeds executor exc_str (db w') t then 0 else retries_left (db w') t) = length ts * nat retries"
    using left by (simp add: sum_list_triv cong: map_cong)
  then have all: "attempts executor exc_str (db w') = length (tasks (db w)) + 2 * expected_fail_runs (length order) (nat retries)"
    by (simp add: attempts_def pend ts(1) len expected_fail_runs_def algebra_simps)
  obtain w2 where w2: "worker_process MemoryQueueClient idle wk executor exc_str fl None n w' = Some w2" "messages queued w2 = {#}"
    "worked cfg k executor exc_str w' w2" "pending_tasks (db w2) = []"
    using posted_and_drained [OF js(4) can(1) b memq.retry_work_posts [OF run] can(2) n] by blast
  then show ?thesis using all by (auto simp: worked_def attempts_def)
qed

end
