(* ===== verification/Races.thy ===== *)
theory Races
  imports Job_Service
begin

text \<open>
  Two requests at once. The other theories take a request as one serial step; here two updates overlap: each
  flushes its edges and looks for a cycle before the other has committed, so it sees the edges committed
  before both and its own (PostgreSQL's default isolation). A flush writes the difference between the
  relationships it loaded and the new ones, and that difference is what its commit adds.
\<close>

text \<open>What an update has written when it commits, on top of what others have committed since it looked.\<close>

definition committed_edges :: "(uuid \<times> uuid) list \<Rightarrow> (uuid \<times> uuid) list \<Rightarrow> (uuid \<times> uuid) list \<Rightarrow> (uuid \<times> uuid) list" where
  "committed_edges seen written now =
     filter (\<lambda>e. e \<in> set seen \<longrightarrow> e \<in> set written) now @ filter (\<lambda>e. e \<notin> set seen \<and> e \<notin> set now) written"

definition overlapping_updates ::
    "job_update_payload \<Rightarrow> job \<Rightarrow> time \<Rightarrow> job_update_payload \<Rightarrow> job \<Rightarrow> time \<Rightarrow> database \<Rightarrow> database result" where
  "overlapping_updates p j t p' j' t' d =
     (case store_update p t j d of
        Inl e \<Rightarrow> Inl e
      | Inr d1 \<Rightarrow>
          (case store_update p' t' j' d of
             Inl e \<Rightarrow> Inl e
           | Inr d2 \<Rightarrow>
               map_sum id (\<lambda>d'. d'\<lparr>job_dependencies :=
                   committed_edges (job_dependencies d) (job_dependencies d2) (job_dependencies d1)\<rparr>)
                 (job_update t' j' d1)))"

text \<open>With nothing in between, a commit stores what the update wrote.\<close>

lemma committed_edges_alone: "set (committed_edges seen written seen) = set written"
  by (auto simp: committed_edges_def)

text \<open>Edges only taken away cannot make a cycle, however the updates overlap.\<close>

lemma overlapping_removals_acyclic:
  assumes "acyclic (set now)" "set written \<subseteq> set seen"
  shows "acyclic (set (committed_edges seen written now))"
  by (rule acyclic_subset [OF assms(1)]) (use assms(2) in \<open>auto simp: committed_edges_def\<close>)

text \<open>Nor can an update that adds none, next to any other.\<close>

lemma overlapping_update_without_additions:
  assumes "\<not> dependencies_changed p" "store_update p t j d = Inr d1" "acyclic (set now)"
  shows "acyclic (set (committed_edges (job_dependencies d) (job_dependencies d1) now))"
proof -
  have "replace_dependencies p (jid j) d = job_dependencies d"
    using assms(1) by (auto simp: dependencies_changed_def replace_dependencies_def split: option.splits)
  then have "job_dependencies d1 = job_dependencies d"
    using assms(2) by (auto simp: store_update_def dest!: job_update_frame split: if_splits sum.splits)
  then show ?thesis by (intro overlapping_removals_acyclic [OF assms(3)]) simp
qed

text \<open>But two updates that each add an edge store a cycle: \<open>b\<close> after \<open>a\<close> and \<open>a\<close> after \<open>b\<close> are both accepted,
  where one after the other the second is refused.\<close>

definition second_job :: job where
  "second_job = paused_job\<lparr>jid := ''b'', name := ''twice''\<rparr>"

definition two_jobs :: database where
  "two_jobs = \<lparr>jobs = [paused_job, second_job], tasks = [], job_dependencies = []\<rparr>"

definition after :: "uuid \<Rightarrow> job_update_payload" where
  "after i = empty_update\<lparr>u_upstream_job_ids := Some (Some [i])\<rparr>"

lemma overlapping_updates_store_a_cycle:
  "\<exists>d. overlapping_updates (after ''a'') second_job 0 (after ''b'') paused_job 0 two_jobs = Inr d \<and> \<not> dag d"
proof -
  have e: "map_sum id job_dependencies (overlapping_updates (after ''a'') second_job 0 (after ''b'') paused_job 0 two_jobs) =
    Inr [(''a'', ''b''), (''b'', ''a'')]" by code_simp
  then obtain d where d: "overlapping_updates (after ''a'') second_job 0 (after ''b'') paused_job 0 two_jobs = Inr d"
    "job_dependencies d = [(''a'', ''b''), (''b'', ''a'')]"
    by (cases "overlapping_updates (after ''a'') second_job 0 (after ''b'') paused_job 0 two_jobs") auto
  have "(''a'', ''a'') \<in> {(''a'', ''b''), (''b'', ''a'')}\<^sup>+" by (rule trancl_into_trancl [where b = "''b''"]) auto
  then have "\<not> dag d" using d(2) by (auto simp: dag_def acyclic_def)
  with d(1) show ?thesis by blast
qed

lemma serial_updates_refuse_the_cycle:
  "case store_update (after ''a'') 0 second_job two_jobs of
     Inl e \<Rightarrow> False
   | Inr d \<Rightarrow> store_update (after ''b'') 0 paused_job d = Inl (unprocessable ''Circular dependency detected'')"
  by code_simp

end
