(* ===== verification/Stress_Script.thy ===== *)
theory Stress_Script
  imports Responses
begin

text \<open>
  \<open>scripts/load_gen_scheduler.py\<close>: five hundred cron jobs written straight into the table, past the job
  service. The column of the concurrency policy is text, and the text of these rows is none of the
  values the program declares; a row is kept here with that text beside its typed columns, in which the
  policy is the one the scheduler acts by (it asks only whether the text is \<open>forbid\<close>).
\<close>

text \<open>The \<open>Literal\<close> that \<open>JobRead\<close> inherits.\<close>

definition read_policy :: "string \<Rightarrow> concurrency_policy option" where
  "read_policy s =
     (if s = ''allow'' then Some allow else if s = ''forbid'' then Some forbid else if s = ''replace'' then Some replace else None)"

definition JobRead_text :: "(json \<Rightarrow> int option) \<Rightarrow> database \<Rightarrow> job \<times> string \<Rightarrow> job_read result" where
  "JobRead_text lax_int d r =
     (case read_policy (snd r) of
        None \<Rightarrow> Inl ValidationError
      | Some p \<Rightarrow> JobRead lax_int d ((fst r)\<lparr>concurrency_policy := p\<rparr>))"

definition stress_count :: nat where
  "stress_count = 500"

definition stress_name :: "string \<Rightarrow> nat \<Rightarrow> string" where
  "stress_name run_id i = ''stress-test-'' @ run_id @ ''-'' @ show_nat i"

text \<open>One row; \<open>stamp\<close> is the server's clock at the insert.\<close>

definition stress_row :: "string \<Rightarrow> time \<Rightarrow> time \<Rightarrow> nat \<Rightarrow> uuid \<Rightarrow> job \<times> string" where
  "stress_row run_id now stamp i job_id =
     (\<lparr>jid = job_id, name = stress_name run_id i, job_type = scheduled, cron_expression = Some ''* * * * *'',
       action_type = ''shell'', action_config = JObj [(''command'', JStr ''echo stress'')], runtime_spec = None,
       enabled = True, concurrency_policy = allow, max_retries = 0, next_fire_at = Some (now + seconds (30 * int i)),
       jcreated_at = stamp, updated_at = stamp\<rparr>, ''Allow'')"

fun draw_uuids :: "nat \<Rightarrow> 'q world \<Rightarrow> uuid list \<times> 'q world" where
  "draw_uuids 0 w = ([], w)"
| "draw_uuids (Suc n) w = (let (i, w1) = uuid4 w; (is, w2) = draw_uuids n w1 in (i # is, w2))"

fun insert_rows :: "job list \<Rightarrow> database \<Rightarrow> database result" where
  "insert_rows [] d = Inr d"
| "insert_rows (j # js) d = (case job_create j [] d of Inl e \<Rightarrow> Inl e | Inr d' \<Rightarrow> insert_rows js d')"

text \<open>\<open>main()\<close>: the rows it wrote, all of them or none.\<close>

definition load_gen_scheduler :: "(uuid \<Rightarrow> string) \<Rightarrow> 'q world \<Rightarrow> (job \<times> string) list result \<times> 'q world" where
  "load_gen_scheduler hex w =
     (let (now, w) = utcnow w; (run, w) = uuid4 w; (ids, w) = draw_uuids stress_count w; (stamp, w) = utcnow w;
          rows = map (\<lambda>i. stress_row (take 6 (hex run)) now stamp i (ids ! i)) [0..<stress_count]
      in case insert_rows (map fst rows) (db w) of
           Inl e \<Rightarrow> (Inl e, w)
         | Inr d \<Rightarrow> (Inr rows, w\<lparr>db := d\<rparr>))"

subsection \<open>What is stored\<close>

lemma draw_uuids_eq:
  "draw_uuids n w = (map (\<lambda>k. uuid_source w (uuids_drawn w + k)) [0..<n], w\<lparr>uuids_drawn := uuids_drawn w + n\<rparr>)"
proof (induction n arbitrary: w)
  case (Suc n)
  have "map (\<lambda>k. uuid_source w (uuids_drawn w + k)) [0..<Suc n] =
      uuid_source w (uuids_drawn w) # map (\<lambda>k. uuid_source w (Suc (uuids_drawn w) + k)) [0..<n]"
    by (subst upt_conv_Cons) (simp_all add: map_Suc_upt [symmetric] del: upt_Suc)
  then show ?case using Suc [of "snd (uuid4 w)"] by (simp add: uuid4_def del: upt_Suc)
qed simp

lemma insert_rows_fresh:
  assumes "distinct (map jid js)" "distinct (map name js)"
    and "\<forall>j \<in> set js. jid j \<notin> job_ids d" "\<forall>j \<in> set js. name j \<notin> name ` set (jobs d)"
  shows "insert_rows js d = Inr (d\<lparr>jobs := jobs d @ js\<rparr>)"
  using assms
proof (induction js arbitrary: d)
  case (Cons j js)
  have "jid j \<notin> job_ids d" "\<not> name_taken d (jid j) (name j)"
    using Cons.prems(3,4) by (auto simp: name_taken_def dest: sym)
  then have "job_create j [] d = Inr (d\<lparr>jobs := jobs d @ [j]\<rparr>)" by (simp add: job_create_def)
  moreover have "insert_rows js (d\<lparr>jobs := jobs d @ [j]\<rparr>) = Inr (d\<lparr>jobs := jobs d @ [j], jobs := jobs (d\<lparr>jobs := jobs d @ [j]\<rparr>) @ js\<rparr>)"
    by (rule Cons.IH) (use Cons.prems in \<open>auto simp: job_ids_def rev_image_eqI\<close>)
  ultimately show ?case by simp
qed simp

lemma stress_name_inj: "stress_name r i = stress_name r k \<Longrightarrow> i = k"
  using digits_val_show_nat [of 0 False i "[]"] digits_val_show_nat [of 0 False k "[]"] by (simp add: stress_name_def)

text \<open>With free names the script stores all its rows, due at intervals of thirty seconds.\<close>

lemma load_gen_scheduler_stores:
  assumes inv: "store_inv cfg w" and names: "\<forall>r i. stress_name r i \<notin> name ` set (jobs (db w))"
  shows "\<exists>rows w'. load_gen_scheduler hex w = (Inr rows, w') \<and> length rows = stress_count \<and>
    jobs (db w') = jobs (db w) @ map fst rows \<and> tasks (db w') = tasks (db w) \<and>
    map (next_fire_at \<circ> fst) rows = map (\<lambda>i. Some (clock w (ticks w) + seconds (30 * int i))) [0..<stress_count] \<and>
    (\<forall>r \<in> set rows. job_type (fst r) = scheduled \<and> runtime_spec (fst r) = None \<and> snd r = ''Allow'')"
proof -
  obtain now w1 where n: "utcnow w = (now, w1)" by fastforce
  obtain run w2 where u: "uuid4 w1 = (run, w2)" by fastforce
  obtain ids w3 where i: "draw_uuids stress_count w2 = (ids, w3)" by fastforce
  obtain stamp w4 where s: "utcnow w3 = (stamp, w4)" by fastforce
  have q: "quiet w w2" using quiet_trans [OF quiet_utcnow [OF n] quiet_uuid4 [OF u]] .
  have fr: "uuids_fresh w2" using quiet_fresh [OF q] inv by (simp add: store_inv_def)
  have ids: "ids = map (\<lambda>k. uuid_source w2 (uuids_drawn w2 + k)) [0..<stress_count]" "db w4 = db w"
    using i s by (auto simp: draw_uuids_eq utcnow_def simp del: upt.simps) (metis q quietD(1))
  define rows where "rows = map (\<lambda>k. stress_row (take 6 (hex run)) now stamp k (ids ! k)) [0..<stress_count]"
  have jids: "map jid (map fst rows) = ids"
    by (rule nth_equalityI) (simp_all add: rows_def stress_row_def ids(1))
  have nm: "map name (map fst rows) = map (stress_name (take 6 (hex run))) [0..<stress_count]"
    by (simp add: rows_def stress_row_def)
  have "inj (uuid_source w2)" using fr by (simp add: uuids_fresh_def)
  then have "inj (\<lambda>k. uuid_source w2 (uuids_drawn w2 + k))" by (auto intro!: injI dest: injD)
  then have "distinct ids" by (auto simp: ids(1) distinct_map intro: inj_on_subset)
  moreover have "distinct (map name (map fst rows))"
  proof -
    have "inj (stress_name (take 6 (hex run)))" by (rule injI) (erule stress_name_inj)
    then show ?thesis unfolding nm by (auto simp: distinct_map intro: inj_on_subset)
  qed
  moreover have "\<forall>j \<in> set (map fst rows). jid j \<notin> job_ids (db w)" unfolding set_map
  proof
    fix j assume "j \<in> fst ` set rows"
    then have "jid j \<in> set ids" unfolding jids [symmetric] set_map by (rule imageI)
    then show "jid j \<notin> job_ids (db w)" using fr q by (auto simp: ids(1) uuids_fresh_def quietD)
  qed
  moreover have "\<forall>j \<in> set (map fst rows). name j \<notin> name ` set (jobs (db w))"
    using names by (auto simp: rows_def stress_row_def)
  ultimately have "insert_rows (map fst rows) (db w) = Inr ((db w)\<lparr>jobs := jobs (db w) @ map fst rows\<rparr>)"
    using insert_rows_fresh [of "map fst rows" "db w"] unfolding jids by blast
  then have "load_gen_scheduler hex w = (Inr rows, w4\<lparr>db := (db w)\<lparr>jobs := jobs (db w) @ map fst rows\<rparr>\<rparr>)"
    using n u i s ids(2) by (simp add: load_gen_scheduler_def rows_def [symmetric] Let_def del: map_map)
  moreover have "now = clock w (ticks w)" using n by (simp add: utcnow_def)
  ultimately show ?thesis by (auto simp: rows_def stress_row_def)
qed

subsection \<open>What becomes of the rows\<close>

text \<open>They have no runtime specification, so every run of them fails before a container is started, and no
  response model accepts them: reading one of these jobs is an internal error.\<close>

lemma stress_job_never_runs:
  "execute_job executor exc_str (fst (stress_row run_id now stamp i k)) = failure_result [] (exc_str TypeError)"
  by (simp add: execute_job_def stress_row_def ContainerSpec_def jget_def)

lemma stress_job_unreadable: "JobRead_text lax_int d (stress_row run_id now stamp i k) = Inl ValidationError"
  by (simp add: JobRead_text_def stress_row_def read_policy_def)

lemma stress_job_not_derived: "\<not> spec_derived cfg (fst (stress_row run_id now stamp i k))"
  by (simp add: spec_derived_iff stress_row_def)

text \<open>For the rows of the job service the text of the policy is always one of the three.\<close>

definition policy_text :: "concurrency_policy \<Rightarrow> string" where
  "policy_text p = (case p of allow \<Rightarrow> ''allow'' | forbid \<Rightarrow> ''forbid'' | replace \<Rightarrow> ''replace'')"

lemma JobRead_text_typed: "JobRead_text lax_int d (j, policy_text (concurrency_policy j)) = JobRead lax_int d j"
proof -
  have "read_policy (policy_text (concurrency_policy j)) = Some (concurrency_policy j)"
    by (cases "concurrency_policy j") (simp_all add: policy_text_def read_policy_def)
  then show ?thesis by (simp add: JobRead_text_def)
qed

end
