(* ===== verification/Entry_Points.thy ===== *)
theory Entry_Points
  imports Process_Refinement Load_Runs
begin

text \<open>
  The loops of \<open>app/cli.py\<close> as they are started: \<open>run_scheduler\<close>, \<open>run_autoscaler\<close> and \<open>run_worker\<close> for any
  number of turns, with what the other processes do during the pauses as a parameter; and the set-up of
  the Kubernetes clients. The turns of a scheduler and of a worker process are runs of the system, so
  everything the system keeps holds after any number of them.
\<close>

subsection \<open>The scheduler\<close>

text \<open>\<open>asleep\<close> is what happens to the world while the process sleeps, \<open>pg_asleep\<close> what happens to the sessions of
  the database server.\<close>

fun scheduler_loop ::
    "'p pg_api \<Rightarrow> croniter \<Rightarrow> 'q queue_client \<Rightarrow> (nat \<Rightarrow> 'q world \<Rightarrow> 'q world) \<Rightarrow> (nat \<Rightarrow> 'p \<Rightarrow> 'p) \<Rightarrow> nat \<Rightarrow> leader_lock \<Rightarrow>
     scheduler_service \<Rightarrow> 'p \<Rightarrow> 'q world \<Rightarrow> (leader_lock \<times> scheduler_service \<times> 'p \<times> 'q world) option" where
  "scheduler_loop api cr qc asleep pg_asleep 0 l sv p w = Some (l, sv, p, w)"
| "scheduler_loop api cr qc asleep pg_asleep (Suc n) l sv p w =
     (case scheduler_iteration api cr qc l sv p w of
        None \<Rightarrow> None
      | Some (l', sv', p', w') \<Rightarrow> scheduler_loop api cr qc asleep pg_asleep n l' sv' (pg_asleep n p') (asleep n w'))"

definition start_scheduler ::
    "settings \<Rightarrow> nat \<Rightarrow> 'p pg_api \<Rightarrow> croniter \<Rightarrow> 'q queue_client \<Rightarrow> (nat \<Rightarrow> 'q world \<Rightarrow> 'q world) \<Rightarrow> (nat \<Rightarrow> 'p \<Rightarrow> 'p) \<Rightarrow> nat \<Rightarrow>
     'p \<Rightarrow> 'q world \<Rightarrow> (leader_lock \<times> scheduler_service \<times> 'p \<times> 'q world) option" where
  "start_scheduler cfg replica api cr qc asleep pg_asleep n p w =
     scheduler_loop api cr qc asleep pg_asleep n (LeaderLock replica leader_lock_key)
       (SchedulerService (worker_visibility_timeout_seconds cfg)) p w"

text \<open>While replica \<open>i\<close> sleeps the others run, and leave its schedule alone.\<close>

definition others_run ::
    "settings \<Rightarrow> croniter \<Rightarrow> (json \<Rightarrow> int option) \<Rightarrow> 'q queue_client \<Rightarrow> nat \<Rightarrow> (nat \<Rightarrow> 'q world \<Rightarrow> 'q world) \<Rightarrow> bool" where
  "others_run cfg cr lax_int qc i asleep \<longleftrightarrow>
     (\<forall>S n. \<exists>S'. system_runs cfg cr lax_int qc S S' \<and> world S' = asleep n (world S) \<and> schedulers S' i = schedulers S i)"

text \<open>However long it runs, a scheduler process never hangs and never leaves the system.\<close>

lemma scheduler_loop_runs:
  assumes adv: "croniter_advances cr" and env: "others_run cfg cr lax_int qc i asleep"
    and inv: "system_inv cfg S" and sv: "cron_scheduler sv = schedulers S i"
  shows "\<exists>l' sv' p' S'. scheduler_loop api cr qc asleep pg_asleep n l sv p (world S) = Some (l', sv', p', world S') \<and>
    system_runs cfg cr lax_int qc S S' \<and> schedulers S' i = cron_scheduler sv'"
  using inv sv
proof (induction n arbitrary: l sv p S)
  case 0
  then show ?case by auto
next
  case (Suc n)
  obtain l1 sv1 p1 w1 where it: "scheduler_iteration api cr qc l sv p (world S) = Some (l1, sv1, p1, w1)"
    "system_runs cfg cr lax_int qc S (with_replica i S (cron_scheduler sv1) w1)"
    using scheduler_iteration_runs [where api = api and qc = qc and l = l and p = p and lax_int = lax_int, OF adv Suc.prems] by blast
  let ?S1 = "with_replica i S (cron_scheduler sv1) w1"
  obtain S2 where S2: "system_runs cfg cr lax_int qc ?S1 S2" "world S2 = asleep n w1" "schedulers S2 i = cron_scheduler sv1"
    using env [unfolded others_run_def, rule_format, of ?S1 n] by auto
  have run: "system_runs cfg cr lax_int qc S S2" using runs_trans [OF it(2) S2(1)] .
  obtain l3 sv3 p3 S3 where S3: "scheduler_loop api cr qc asleep pg_asleep n l1 sv1 (pg_asleep n p1) (world S2) = Some (l3, sv3, p3, world S3)"
    "system_runs cfg cr lax_int qc S2 S3" "schedulers S3 i = cron_scheduler sv3"
    using Suc.IH [OF runs_inv [OF adv run Suc.prems(1)] S2(3) [symmetric]] by blast
  then show ?case using it(1) S2(2) runs_trans [OF run S3(2)] by auto
qed

lemma start_scheduler_runs:
  assumes "croniter_advances cr" "store_inv cfg w" "others_run cfg cr lax_int qc i asleep"
  shows "\<exists>l sv p' S. start_scheduler cfg i api cr qc asleep pg_asleep n p w = Some (l, sv, p', world S) \<and>
    system_reachable cfg cr lax_int qc w S"
proof -
  have r: "system_reachable cfg cr lax_int qc w (initial_system w)" by (rule system_start)
  have "cron_scheduler (SchedulerService (worker_visibility_timeout_seconds cfg)) = schedulers (initial_system w) i"
    by (simp add: SchedulerService_def initial_system_def)
  from scheduler_loop_runs [OF assms(1,3) system_reachable_inv [OF assms(1,2) r] this, of api pg_asleep n _ p]
  show ?thesis unfolding start_scheduler_def by (fastforce simp: initial_system_def dest: runs_reachable [OF _ r])
qed

subsection \<open>The worker\<close>

text \<open>Any number of turns of a worker process, whatever happens while it waits, is a run of the system too.\<close>

lemma handle_messages_reach:
  assumes adv: "croniter_advances cr" and env: "environment_runs cfg cr lax_int qc env"
  shows "system_inv cfg S \<Longrightarrow>
    reaches_world cfg cr lax_int qc S (fold (handle_message qc p env wk executor exc_str fl) ms (world S))"
proof (induction ms arbitrary: S)
  case (Cons m ms)
  show ?case unfolding fold_Cons comp_def
  proof (rule reaches_trans [OF handle_message_reaches [OF adv env Cons.prems]])
    fix S1 assume S1: "system_runs cfg cr lax_int qc S S1" "world S1 = handle_message qc p env wk executor exc_str fl m (world S)"
    show "reaches_world cfg cr lax_int qc S1 (fold (handle_message qc p env wk executor exc_str fl) ms
        (handle_message qc p env wk executor exc_str fl m (world S)))"
      using Cons.IH [OF runs_inv [OF adv S1(1) Cons.prems]] unfolding S1(2) .
  qed
qed simp

lemma pool_round_reaches:
  assumes adv: "croniter_advances cr" and env: "environment_runs cfg cr lax_int qc env" and inv: "system_inv cfg S"
  shows "reaches_world cfg cr lax_int qc S (pool_round qc env wk executor exc_str fl p (world S))"
proof (cases "receive_tasks qc max_concurrent_per_queue 2 (pool_queue p (world S))")
  case (Inl e)
  then show ?thesis by (simp add: pool_round_def)
next
  case (Inr r)
  obtain ms q where r: "r = (ms, q)" by fastforce
  have "reaches_world cfg cr lax_int qc S
      (fold (handle_message qc p env wk executor exc_str fl) ms (set_pool_queue p q (world S)))"
  proof (rule reaches_trans [OF reaches_step [OF messages_move]])
    fix S1 assume S1: "system_runs cfg cr lax_int qc S S1" "world S1 = set_pool_queue p q (world S)"
    show "reaches_world cfg cr lax_int qc S1
        (fold (handle_message qc p env wk executor exc_str fl) ms (set_pool_queue p q (world S)))"
      using handle_messages_reach [OF adv env runs_inv [OF adv S1(1) inv]] unfolding S1(2) .
  qed
  then show ?thesis using Inr r by (simp add: pool_round_def)
qed

lemma run_all_reaches:
  assumes adv: "croniter_advances cr" and env: "environment_runs cfg cr lax_int qc env"
  shows "system_inv cfg S \<Longrightarrow> reaches_world cfg cr lax_int qc S (run_all qc env wk executor exc_str fl pools (world S))"
proof (induction pools arbitrary: S)
  case Nil
  then show ?case by (simp add: run_all_def)
next
  case (Cons x pools)
  have split: "run_all qc env wk executor exc_str fl (x # pools) w =
      run_all qc env wk executor exc_str fl pools (pool_round qc env wk executor exc_str fl (snd x) w)" for w
    by (simp add: run_all_def case_prod_beta)
  show ?case unfolding split
  proof (rule reaches_trans [OF pool_round_reaches [OF adv env Cons.prems]])
    fix S1 assume S1: "system_runs cfg cr lax_int qc S S1" "world S1 = pool_round qc env wk executor exc_str fl (snd x) (world S)"
    show "reaches_world cfg cr lax_int qc S1 (run_all qc env wk executor exc_str fl pools
        (pool_round qc env wk executor exc_str fl (snd x) (world S)))"
      using Cons.IH [OF runs_inv [OF adv S1(1) Cons.prems]] unfolding S1(2) .
  qed
qed

lemma worker_process_reaches:
  assumes adv: "croniter_advances cr" and env: "environment_runs cfg cr lax_int qc env" and inv: "system_inv cfg S"
    and p: "worker_process qc env wk executor exc_str fl queue n (world S) = Some w'"
  shows "reaches_world cfg cr lax_int qc S w'"
proof -
  obtain pools where w': "w' = (run_all qc env wk executor exc_str fl pools ^^ n) (world S)"
    using p by (auto simp: worker_process_def split: option.splits)
  show ?thesis unfolding w'
  proof (induction n)
    case (Suc n)
    show ?case unfolding funpow.simps comp_def
    proof (rule reaches_trans [OF Suc])
      fix S1 assume S1: "system_runs cfg cr lax_int qc S S1" "world S1 = (run_all qc env wk executor exc_str fl pools ^^ n) (world S)"
      show "reaches_world cfg cr lax_int qc S1
          (run_all qc env wk executor exc_str fl pools ((run_all qc env wk executor exc_str fl pools ^^ n) (world S)))"
        using run_all_reaches [OF adv env runs_inv [OF adv S1(1) inv]] unfolding S1(2) .
    qed
  qed simp
qed

subsection \<open>The autoscaler\<close>

text \<open>\<open>run_autoscaler\<close> for \<open>n\<close> turns; what happens to the fleet between them is \<open>asleep\<close>. Where the process has
  nothing to scale it returns at once.\<close>

definition start_autoscaler ::
    "sqs_depth_api \<Rightarrow> settings \<Rightarrow> string \<Rightarrow> ('s vm_service \<Rightarrow> 's vm_service) \<Rightarrow> nat \<Rightarrow> 's vm_service \<Rightarrow> 's vm_service" where
  "start_autoscaler api cfg template_name asleep n v =
     (if autoscaler_runs cfg then ((asleep \<circ> autoscaler_iteration api cfg template_name) ^^ n) v else v)"

lemma mock_names_client: "vm_client (snd (mock_names n v)) = vm_client v"
  by (induction n arbitrary: v) (auto simp: case_prod_beta Let_def)

lemma resize_client: "vm_client v = None \<Longrightarrow> vm_client (mock_fleet.resize d v) = None"
  by (simp add: mock_fleet.resize_def mock_create_def mock_terminate_def mock_create_vms mock_terminate_vms mock_names_client)

text \<open>On a fleet without a Docker daemon the size after every turn is the desired one, whatever it was.\<close>

lemma autoscaler_settles:
  assumes "vm_client v = None" "autoscaler_runs cfg" "0 < n"
  shows "int (length (mock_vms (start_autoscaler api cfg nm id n v))) = fst (decide api cfg)"
proof -
  have one: "autoscaler_iteration api cfg nm u = mock_fleet.resize (nat (fst (decide api cfg))) u" if "vm_client u = None" for u :: "'a vm_service"
    using that assms(2) by (simp add: autoscaler_iteration_def apply_scaling_mock autoscaler_runs_def)
  have client: "vm_client ((autoscaler_iteration api cfg nm ^^ k) v) = None" for k
    by (induction k) (simp_all add: assms(1) one resize_client)
  obtain k where "n = Suc k" using assms(3) by (cases n) auto
  then show ?thesis using assms(2) client [of k]
    by (simp add: start_autoscaler_def one mock_fleet.resize_exact decide_desired)
qed

lemma kubernetes_scales_itself:
  "execution_backend cfg = kubernetes_backend \<Longrightarrow> start_autoscaler api cfg nm asleep n v = v"
  by (simp add: start_autoscaler_def autoscaler_runs_def)

subsection \<open>The Kubernetes clients\<close>

datatype config_load = config_loaded | config_missing | config_error error

record 'c k8s_clients =
  batch_v1 :: "'c option"
  core_v1 :: "'c option"

text \<open>\<open>_ensure_clients()\<close>: \<open>sdk\<close> says whether the import succeeded; only a missing in-cluster configuration
  makes it look for a file, whose absence raises too.\<close>

definition ensure_clients ::
    "bool \<Rightarrow> config_load \<Rightarrow> config_load \<Rightarrow> 'c \<Rightarrow> 'c \<Rightarrow> error \<Rightarrow> error \<Rightarrow> 'c k8s_clients \<Rightarrow> unit result \<times> 'c k8s_clients" where
  "ensure_clients sdk incluster kubeconfig b c runtime_error config_exception s =
     (if batch_v1 s \<noteq> None then (Inr (), s)
      else if \<not> sdk then (Inl runtime_error, s)
      else case (case incluster of config_missing \<Rightarrow> kubeconfig | r \<Rightarrow> r) of
             config_loaded \<Rightarrow> (Inr (), s\<lparr>batch_v1 := Some b, core_v1 := Some c\<rparr>)
           | config_missing \<Rightarrow> (Inl config_exception, s)
           | config_error e \<Rightarrow> (Inl e, s))"

text \<open>Once it has succeeded the clients are there and stay the same; a failure changes nothing, so that the next
  run tries again.\<close>

lemma ensure_clients_once:
  assumes "ensure_clients sdk incluster kubeconfig b c re ce s = (r, s')"
  shows "(case r of Inl e \<Rightarrow> s' = s
     | Inr u \<Rightarrow> batch_v1 s' \<noteq> None \<and> (\<forall>sdk i k b c. ensure_clients sdk i k b c re ce s' = (Inr (), s')))"
  using assms by (auto simp: ensure_clients_def split: if_splits config_load.splits)

end
