(* ===== verification/Sqs_Service.thy ===== *)
theory Sqs_Service
  imports Queues
begin

text \<open>
  What \<open>app/queue/sqs.py\<close> gets from SQS. A received message stays in the queue, hidden for its
  visibility timeout, until it is deleted through the receipt handle of its receive; that is the locale
  \<open>acked_queue\<close>. The laws of the service itself are \<open>sqs_laws\<close>, and the client over any service that
  has them is such a queue.
\<close>

subsection \<open>The contract\<close>

text \<open>\<open>accepted q\<close> are the bodies the queue has ever taken, \<open>receipts q\<close> the handles given out so far, each with
  the body of its message. A send may fail. A delete takes away at most the message of its handle; it may
  also leave it, as for a handle that is too old.\<close>

locale acked_queue = queue_contract client waiting
  for client :: "'q queue_client" and waiting :: "'q \<Rightarrow> string multiset" +
  fixes accepted :: "'q \<Rightarrow> string set" and receipts :: "'q \<Rightarrow> (string \<times> string) set"
  assumes send_accepts: "send_task client t q = Inr q' \<Longrightarrow>
      accepted q' = insert (task_body t) (accepted q) \<and> receipts q \<subseteq> receipts q'"
    and receive_hides: "receive_tasks client n s q = Inr (ms, q') \<Longrightarrow>
      waiting q' = waiting q \<and> accepted q' = accepted q \<and> receipts q \<subseteq> receipts q' \<and>
      (\<forall>m \<in> set ms. (receipt_handle m, body m) \<in> receipts q')"
    and delete_takes: "delete_message client h q = Inr q' \<Longrightarrow> (h, b) \<in> receipts q \<Longrightarrow>
      waiting q' \<subseteq># waiting q \<and> waiting q \<subseteq># add_mset b (waiting q') \<and> accepted q' = accepted q \<and> receipts q \<subseteq> receipts q'"
    and extend_keeps: "change_message_visibility client h secs q = Inr q' \<Longrightarrow>
      waiting q' = waiting q \<and> accepted q' = accepted q \<and> receipts q \<subseteq> receipts q'"
begin

lemma received_receipt: "receive_tasks client n s q = Inr (ms, q') \<Longrightarrow> m \<in> set ms \<Longrightarrow> (receipt_handle m, body m) \<in> receipts q'"
  using receive_hides by blast

lemma received_stays: "receive_tasks client n s q = Inr (ms, q') \<Longrightarrow> m \<in> set ms \<Longrightarrow> body m \<in># waiting q'"
  using received_was_waiting receive_hides by metis

end

subsection \<open>The client over the service\<close>

text \<open>The laws of the service for one queue: a send that succeeds adds its message; receiving hands out at most
  as many messages as asked for, each with a handle of its own, and removes none; a handle deletes at most
  its own message; a change of visibility does nothing else. Any call may fail. Messages do not outlive
  their retention period, which is not part of the model.\<close>

definition received_list :: "(string \<times> string) list option \<Rightarrow> (string \<times> string) list" where
  "received_list ms = (case ms of None \<Rightarrow> [] | Some l \<Rightarrow> l)"

definition sqs_laws ::
    "'s sqs_api \<Rightarrow> string \<Rightarrow> ('s \<Rightarrow> string multiset) \<Rightarrow> ('s \<Rightarrow> string set) \<Rightarrow> ('s \<Rightarrow> (string \<times> string) set) \<Rightarrow> bool" where
  "sqs_laws api url held accepted receipts \<longleftrightarrow>
     (\<forall>b s s'. sqs_send_message api url b s = Inr s' \<longrightarrow>
        held s' = add_mset b (held s) \<and> accepted s' = insert b (accepted s) \<and> receipts s \<subseteq> receipts s') \<and>
     (\<forall>n wait secs s ms s'. sqs_receive_message api url n wait secs s = Inr (ms, s') \<longrightarrow>
        held s' = held s \<and> accepted s' = accepted s \<and> receipts s \<subseteq> receipts s' \<and> length (received_list ms) \<le> n \<and>
        mset (map fst (received_list ms)) \<subseteq># held s \<and> (\<forall>(b, h) \<in> set (received_list ms). (h, b) \<in> receipts s')) \<and>
     (\<forall>h b s s'. sqs_delete_message api url h s = Inr s' \<and> (h, b) \<in> receipts s \<longrightarrow>
        held s' \<subseteq># held s \<and> held s \<subseteq># add_mset b (held s') \<and> accepted s' = accepted s \<and> receipts s \<subseteq> receipts s') \<and>
     (\<forall>h secs s s'. sqs_change_message_visibility api url h secs s = Inr s' \<longrightarrow>
        held s' = held s \<and> accepted s' = accepted s \<and> receipts s \<subseteq> receipts s')"

lemma SQSQueueClient_sel [simp]:
  "send_task (SQSQueueClient api cfg url) t = sqs_send_message api url (task_body t)"
  "delete_message (SQSQueueClient api cfg url) = sqs_delete_message api url"
  "change_message_visibility (SQSQueueClient api cfg url) = sqs_change_message_visibility api url"
  by (simp_all add: SQSQueueClient_def fun_eq_iff)

lemma SQSQueueClient_receive:
  assumes "receive_tasks (SQSQueueClient api cfg url) n wait s = Inr (ms, s')"
  obtains l where "sqs_receive_message api url n wait (worker_visibility_timeout_seconds cfg) s = Inr (l, s')"
    "ms = map (\<lambda>m. \<lparr>body = fst m, receipt_handle = snd m\<rparr>) (received_list l)"
  using assms by (auto simp: SQSQueueClient_def received_list_def split: sum.splits)

lemma sqs_client_acked:
  assumes "sqs_laws api url held accepted receipts"
  shows "acked_queue (SQSQueueClient api cfg url) held accepted receipts"
proof -
  note L = assms [unfolded sqs_laws_def]
  note sent = L [THEN conjunct1, rule_format] and got = L [THEN conjunct2, THEN conjunct1, rule_format]
    and rest = L [THEN conjunct2, THEN conjunct2]
  show ?thesis
  proof (unfold_locales, goal_cases)
    case (1 t q q')
    then show ?case using sent by simp
  next
    case (2 n s q ms q')
    obtain l where l: "sqs_receive_message api url n s (worker_visibility_timeout_seconds cfg) q = Inr (l, q')"
      "ms = map (\<lambda>m. \<lparr>body = fst m, receipt_handle = snd m\<rparr>) (received_list l)" by (rule SQSQueueClient_receive [OF 2])
    then show ?case using got [OF l(1)] by (simp add: o_def)
  next
    case (3 n s q ms q')
    obtain l where l: "sqs_receive_message api url n s (worker_visibility_timeout_seconds cfg) q = Inr (l, q')"
      "ms = map (\<lambda>m. \<lparr>body = fst m, receipt_handle = snd m\<rparr>) (received_list l)" by (rule SQSQueueClient_receive [OF 3])
    then show ?case using got [OF l(1)] by simp
  next
    case (4 t q q')
    then show ?case using sent by simp
  next
    case (5 n s q ms q')
    obtain l where l: "sqs_receive_message api url n s (worker_visibility_timeout_seconds cfg) q = Inr (l, q')"
      "ms = map (\<lambda>m. \<lparr>body = fst m, receipt_handle = snd m\<rparr>) (received_list l)" by (rule SQSQueueClient_receive [OF 5])
    then show ?case using got [OF l(1)] by (auto simp: case_prod_beta)
  next
    case (6 h q q' b)
    then show ?case using rest by simp
  next
    case (7 h secs q q')
    then show ?case using rest by simp
  qed
qed

subsection \<open>A small service\<close>

text \<open>A queue as the list of everything ever sent, with a mark for what has not been deleted; the handle of a
  message is its position.\<close>

type_synonym shelf = "(string \<times> bool) list"

definition shelf_handle :: "nat \<Rightarrow> string" where
  "shelf_handle i = replicate i (CHR ''r'')"

definition shelf_held :: "shelf \<Rightarrow> string multiset" where
  "shelf_held s = mset (map fst (filter snd s))"

definition shelf_accepted :: "shelf \<Rightarrow> string set" where
  "shelf_accepted s = fst ` set s"

definition shelf_receipts :: "shelf \<Rightarrow> (string \<times> string) set" where
  "shelf_receipts s = (\<lambda>i. (shelf_handle i, fst (s ! i))) ` {..<length s}"

definition shelf_visible :: "nat \<Rightarrow> shelf \<Rightarrow> (string \<times> string) list" where
  "shelf_visible n s = take n (map (\<lambda>(i, x). (fst x, shelf_handle i)) (filter (\<lambda>(i, x). snd x) (enumerate 0 s)))"

definition shelf_delete :: "string \<Rightarrow> shelf \<Rightarrow> shelf" where
  "shelf_delete h s = (if length h < length s then s[length h := (fst (s ! length h), False)] else s)"

definition shelf_api :: "shelf sqs_api" where
  "shelf_api =
     \<lparr>sqs_get_queue_url = (\<lambda>qname s. Inr qname), sqs_create_queue = (\<lambda>qname s. Inr (qname, s)),
      sqs_send_message = (\<lambda>url b s. Inr (s @ [(b, True)])),
      sqs_receive_message = (\<lambda>url n wait secs s. Inr (Some (shelf_visible n s), s)),
      sqs_delete_message = (\<lambda>url h s. Inr (shelf_delete h s)),
      sqs_change_message_visibility = (\<lambda>url h secs s. Inr s)\<rparr>"

lemma shelf_receipts_append: "shelf_receipts s \<subseteq> shelf_receipts (s @ xs)"
  by (auto simp: shelf_receipts_def nth_append image_iff) 

lemma length_shelf_handle [simp]: "length (shelf_handle i) = i"
  by (simp add: shelf_handle_def)

lemma shelf_visible_held: "mset (map fst (shelf_visible n s)) \<subseteq># shelf_held s"
proof -
  have "map fst (map (\<lambda>(i, x). (fst x, shelf_handle i)) (filter (\<lambda>(i, x). snd x) (enumerate k s))) = map fst (filter snd s)" for k
    by (induction s arbitrary: k) (auto simp: o_def case_prod_beta)
  then have "map fst (shelf_visible n s) = take n (map fst (filter snd s))" unfolding shelf_visible_def take_map [symmetric] by simp
  then show ?thesis unfolding shelf_held_def by (metis append_take_drop_id mset_append mset_subset_eq_add_left)
qed

lemma shelf_visible_receipts: "(b, h) \<in> set (shelf_visible n s) \<Longrightarrow> (h, b) \<in> shelf_receipts s"
  unfolding shelf_visible_def shelf_receipts_def
  by (drule in_set_takeD) (auto simp: in_set_enumerate_eq)

lemma shelf_delete_takes:
  assumes "(h, b) \<in> shelf_receipts s"
  shows "shelf_held (shelf_delete h s) \<subseteq># shelf_held s \<and> shelf_held s \<subseteq># add_mset b (shelf_held (shelf_delete h s)) \<and>
    shelf_accepted (shelf_delete h s) = shelf_accepted s \<and> shelf_receipts (shelf_delete h s) = shelf_receipts s"
proof -
  obtain i where i: "i < length s" "h = shelf_handle i" "b = fst (s ! i)" using assms by (auto simp: shelf_receipts_def)
  have s: "s = take i s @ s ! i # drop (Suc i) s" using i(1) by (rule id_take_nth_drop)
  have d: "shelf_delete h s = take i s @ (b, False) # drop (Suc i) s"
    using i by (simp add: shelf_delete_def upd_conv_take_nth_drop)
  have "shelf_held s = shelf_held (take i s) + shelf_held [s ! i] + shelf_held (drop (Suc i) s)"
    by (subst s) (simp add: shelf_held_def)
  moreover have "shelf_held [s ! i] \<subseteq># {#b#}" using i(3) by (simp add: shelf_held_def)
  moreover have "shelf_receipts (shelf_delete h s) = shelf_receipts s"
    unfolding shelf_receipts_def
  proof (rule image_cong)
    show "{..<length (shelf_delete h s)} = {..<length s}" by (simp add: shelf_delete_def)
    show "(shelf_handle k, fst (shelf_delete h s ! k)) = (shelf_handle k, fst (s ! k))" if "k \<in> {..<length s}" for k
      using that i by (cases "k = i") (simp_all add: shelf_delete_def)
  qed
  moreover have "shelf_accepted (shelf_delete h s) = shelf_accepted s"
    using arg_cong [OF s, of shelf_accepted] by (simp add: d shelf_accepted_def i(3))
  ultimately show ?thesis by (simp add: d) (simp add: shelf_held_def)
qed

lemma shelf_laws: "sqs_laws shelf_api url shelf_held shelf_accepted shelf_receipts"
proof -
  have "shelf_receipts s \<subseteq> shelf_receipts (s @ [(b, True)])" for s b by (rule shelf_receipts_append)
  moreover have "mset (map fst (received_list (Some (shelf_visible n s)))) \<subseteq># shelf_held s" for n s
    using shelf_visible_held by (simp add: received_list_def)
  moreover have "length (received_list (Some (shelf_visible n s))) \<le> n" for n s
    by (simp add: received_list_def shelf_visible_def)
  moreover have "\<forall>(b, h) \<in> set (received_list (Some (shelf_visible n s))). (h, b) \<in> shelf_receipts s" for n s
    using shelf_visible_receipts by (auto simp: received_list_def)
  ultimately show ?thesis
    unfolding sqs_laws_def shelf_api_def
    by (simp add: shelf_delete_takes) (simp add: shelf_held_def shelf_accepted_def)
qed

interpretation shelf: acked_queue "SQSQueueClient shelf_api cfg url" shelf_held shelf_accepted shelf_receipts
  for cfg url
  by (rule sqs_client_acked [OF shelf_laws])

end
