(* ===== verification/At_Least_Once.thy ===== *)
theory At_Least_Once
  imports Process_Refinement Handler_Protocol Sqs_Service
begin

text \<open>
  The deployment on SQS. A received message stays in its queue until a handler deletes it; a send may fail; a worker
  may stop between any two transactions, and a request or a scheduler between two of its own or between its
  last commit and the send. \<open>plant_step\<close> runs the API, the schedulers, the queue service and the handlers of
  \<open>Handler_Protocol\<close> side by side; \<open>plant_inv\<close> says that every message a queue has taken stays there
  until its task has ended.
\<close>

subsection \<open>The plant\<close>

record 'q plant =
  core :: "'q system"
  hands :: "nat \<Rightarrow> hand"

definition held_message :: "hand \<Rightarrow> (queue_path \<times> queue_message) option" where
  "held_message h =
     (case h of Free \<Rightarrow> None | Holding p m \<Rightarrow> Some (p, m) | Claiming p m i n \<Rightarrow> Some (p, m) | Running p m t n \<Rightarrow> Some (p, m)
      | Executing p m t j \<Rightarrow> Some (p, m) | Finished p m \<Rightarrow> Some (p, m))"

definition claimed_task :: "hand \<Rightarrow> task option" where
  "claimed_task h = (case h of Running p m t n \<Rightarrow> Some t | Executing p m t j \<Rightarrow> Some t | _ \<Rightarrow> None)"

text \<open>A client whose sends raise. Every operation sends last, so an operation over it is also that of a process that
  stops after the commit and before the send.\<close>

definition cut_off :: "'q queue_client \<Rightarrow> 'q queue_client" where
  "cut_off qc = qc\<lparr>send_task := (\<lambda>t q. Inl QueueError)\<rparr>"

inductive plant_step ::
    "settings \<Rightarrow> croniter \<Rightarrow> (json \<Rightarrow> int option) \<Rightarrow> 'q queue_client \<Rightarrow> (string \<Rightarrow> string \<times> int option) \<Rightarrow>
     'q plant \<Rightarrow> 'q plant \<Rightarrow> bool"
  for cfg cr lax_int qc fl
where
  service_acts: "qc' = qc \<or> qc' = cut_off qc \<Longrightarrow> service_step cfg cr lax_int qc' (core P) S' \<Longrightarrow>
    plant_step cfg cr lax_int qc fl P (P\<lparr>core := S'\<rparr>)"
| service_stops: "quiet (world (core P)) w \<Longrightarrow> tasks d = tasks (db w) \<Longrightarrow> store_inv cfg (w\<lparr>db := d\<rparr>) \<Longrightarrow>
    plant_step cfg cr lax_int qc fl P (P\<lparr>core := (core P)\<lparr>world := w\<lparr>db := d\<rparr>\<rparr>\<rparr>)"
| hand_receives: "receive_tasks qc n s (pool_queue p (world (core P))) = Inr (ms, q) \<Longrightarrow>
    \<forall>i. hs i = hands P i \<or> hands P i = Free \<and> (\<exists>m \<in> set ms. hs i = Holding p m) \<Longrightarrow>
    plant_step cfg cr lax_int qc fl P
      (P\<lparr>core := (core P)\<lparr>world := set_pool_queue p q (world (core P))\<rparr>, hands := hs\<rparr>)"
| hand_acts: "qc' = qc \<or> qc' = cut_off qc \<Longrightarrow> hand_step qc' wk executor exc_str fl (hands P i, world (core P)) (h, w) \<Longrightarrow>
    plant_step cfg cr lax_int qc fl P (P\<lparr>core := (core P)\<lparr>world := w\<rparr>, hands := (hands P)(i := h)\<rparr>)"
| hand_half_records: "hands P i = Executing p m t j \<Longrightarrow> utcnow (world (core P)) = (now, w) \<Longrightarrow>
    mark_failed (tid t) out err (max_retries j \<le> retry_count t) now (db w) = Inr d \<Longrightarrow>
    plant_step cfg cr lax_int qc fl P (P\<lparr>core := (core P)\<lparr>world := w\<lparr>db := d\<rparr>\<rparr>, hands := (hands P)(i := Free)\<rparr>)"
| hand_beats: "claimed_task (hands P i) = Some t \<Longrightarrow>
    plant_step cfg cr lax_int qc fl P (P\<lparr>core := (core P)\<lparr>world := heartbeat_beat wk (tid t) (world (core P))\<rparr>\<rparr>)"
| hand_extends: "held_message (hands P i) = Some (p, m) \<Longrightarrow>
    change_message_visibility qc (receipt_handle m) secs (pool_queue p (world (core P))) = Inr q \<Longrightarrow>
    plant_step cfg cr lax_int qc fl P (P\<lparr>core := (core P)\<lparr>world := set_pool_queue p q (world (core P))\<rparr>\<rparr>)"
| hand_stops: "plant_step cfg cr lax_int qc fl P (P\<lparr>hands := (hands P)(i := Free)\<rparr>)"
| message_lands: "i \<in> drawn_ids (world (core P)) \<Longrightarrow> send_task qc i (pool_queue p (world (core P))) = Inr q \<Longrightarrow>
    plant_step cfg cr lax_int qc fl P (P\<lparr>core := (core P)\<lparr>world := set_pool_queue p q (world (core P))\<rparr>\<rparr>)"

text \<open>The steps that are not of the code: a request or a scheduler that stops between two transactions
  (\<open>service_stops\<close>) has changed no task yet; a worker may stop anywhere (\<open>hand_stops\<close>), also between marking
  an attempt as failed and creating the next (\<open>hand_half_records\<close>); a message may land although its send was
  reported as failed, or a second time (\<open>message_lands\<close>).\<close>

text \<open>A deployment before its first request, with queues in any state of the service.\<close>

definition first_world :: "'q \<Rightarrow> 'q \<Rightarrow> 'q \<Rightarrow> (nat \<Rightarrow> time) \<Rightarrow> (nat \<Rightarrow> uuid) \<Rightarrow> 'q world" where
  "first_world qn qs qr clk src =
     \<lparr>db = \<lparr>jobs = [], tasks = [], job_dependencies = []\<rparr>, normal_queue = qn, scheduled_queue = qs,
      retry_queue = qr, clock = clk, ticks = 0, uuid_source = src, uuids_drawn = 0\<rparr>"

definition first_plant :: "'q world \<Rightarrow> 'q plant" where
  "first_plant w = \<lparr>core = initial_system w, hands = (\<lambda>i. Free)\<rparr>"

definition plant_runs ::
    "settings \<Rightarrow> croniter \<Rightarrow> (json \<Rightarrow> int option) \<Rightarrow> 'q queue_client \<Rightarrow> (string \<Rightarrow> string \<times> int option) \<Rightarrow>
     'q plant \<Rightarrow> 'q plant \<Rightarrow> bool" where
  "plant_runs cfg cr lax_int qc fl = (plant_step cfg cr lax_int qc fl)\<^sup>*\<^sup>*"

lemma plant_runs_trans: "plant_runs cfg cr lax_int qc fl P P1 \<Longrightarrow> plant_runs cfg cr lax_int qc fl P1 P' \<Longrightarrow> plant_runs cfg cr lax_int qc fl P P'"
  by (simp add: plant_runs_def)

lemma plant_runs_step: "plant_step cfg cr lax_int qc fl P P' \<Longrightarrow> plant_runs cfg cr lax_int qc fl P P'"
  by (simp add: plant_runs_def)

subsection \<open>What a step does to rows and queues\<close>

text \<open>\<open>grows\<close>: rows move along the life cycle, new ones have new identifiers, and messages are sent for those alone.\<close>

definition grows :: "'q queue_client \<Rightarrow> 'q world \<Rightarrow> 'q world \<Rightarrow> bool" where
  "grows qc w w' \<longleftrightarrow> tasks_change (db w) (db w') \<and> sent_new qc w w'"

lemma sent_cut_off: "sent_new (cut_off qc) w w' \<Longrightarrow> sent_new qc w w'"
proof -
  have "sends (cut_off qc) A \<le> sends qc A" for A by (auto simp: sends_def cut_off_def)
  then show "sent_new (cut_off qc) w w' \<Longrightarrow> sent_new qc w w'"
    unfolding sent_new_def by (blast dest: rtranclp_mono [THEN predicate2D])
qed

lemma sent_either: "qc' = qc \<or> qc' = cut_off qc \<Longrightarrow> sent_new qc' w w' \<Longrightarrow> sent_new qc w w'"
  using sent_cut_off by blast

lemma drop_cut_off [simp]: "drop_message (cut_off qc) p m w = drop_message qc p m w"
  by (simp add: drop_message_def cut_off_def)

lemma grows_moves: "tasks_step (db w) (db w') \<and> sent_new qc w w' \<Longrightarrow> grows qc w w'"
  by (simp add: grows_def tasks_change_def)

lemma grows_quiet: "quiet w w' \<Longrightarrow> grows qc w w'"
  by (rule grows_moves) (simp add: quietD tasks_step_same sent_new_quiet)

lemma changed_rows:
  assumes "tasks_change d d'" "distinct (map tid (tasks d'))" "t' \<in> set (tasks d')"
  shows "(\<exists>t \<in> set (tasks d). task_moves t t') \<or> tid t' \<notin> task_ids d"
  using assms(1) unfolding tasks_change_def
proof
  assume "tasks_step d d'"
  then show ?thesis using tasks_step_rows [OF _ assms(2)] assms(3) by blast
next
  assume "\<exists>i. i \<notin> job_ids d' \<and> tasks d' = filter (\<lambda>t. task_job_id t \<noteq> i) (tasks d)"
  then show ?thesis using assms(3) by (auto intro!: bexI [of _ t'])
qed

lemma moves_end: "task_moves t t' \<Longrightarrow> tid t' = tid t \<and> (terminal (status t) \<longrightarrow> terminal (status t'))"
  by (auto simp: task_moves_def legal_status_def terminal_def)

text \<open>Every transaction of a handler but the last one is of this kind.\<close>

lemma hand_step_grows:
  assumes step: "hand_step qc wk executor exc_str fl (h, w) (h', w')" and st: "store_inv cfg w"
    and counts: "\<And>t. claimed_task h = Some t \<Longrightarrow> 0 \<le> retry_count t"
  shows "(store_inv cfg w' \<and> grows qc w w') \<or> (\<exists>p m. h = Finished p m \<and> h' = Free \<and> w' = drop_message qc p m w)"
proof -
  have quiet: "store_inv cfg v \<and> grows qc w v" if "quiet w v" for v using store_inv_quiet [OF that st] grows_quiet [OF that] by blast
  have claims: "store_inv cfg v \<and> grows qc w v" if "claim_task wk i w = (c, v)" for i c v
    using claim_task_store [OF st that] grows_moves [OF claim_task_moves [OF st that]] by blast
  have records: "store_inv cfg v \<and> grows qc w v"
    if "h = Executing p m t j" "record_result qc t j res w = (r, v)" for p m t j res r v
    using record_result_store [OF st _ that(2)] counts [of t] that(1) grows_moves [OF record_result_moves [OF that(2)]]
    by (simp add: claimed_task_def)
  show ?thesis
    using step
  proof cases
    case (bad_id m e now w1 now' p)
    then show ?thesis using quiet [OF quiet_trans [OF quiet_utcnow [OF bad_id(4)] quiet_utcnow [OF bad_id(5)]]] by blast
  next
    case (abandoned now w1 t d p m)
    note q = quiet_utcnow [OF abandoned(4)]
    have "grows qc w (w1\<lparr>db := d\<rparr>)" using mark_failed_sound [OF st q abandoned(5), of qc] by (intro grows_moves) simp
    then show ?thesis using mark_failed_sound [OF st q abandoned(5)] abandoned(3) by blast
  next
    case (recorded t j u p m)
    then show ?thesis using records by blast
  next
    case (record_fails t j e p m)
    then show ?thesis using records by blast
  next
    case (abandon_fails now t e p m)
    then show ?thesis using quiet [OF quiet_utcnow] by blast
  next
    case (deleted p m)
    then show ?thesis by blast
  qed (use quiet [OF quiet_refl] claims in \<open>simp_all\<close>)
qed

text \<open>So every step keeps the store and the caches consistent and draws identifiers in their order.\<close>

definition plant_good :: "settings \<Rightarrow> 'q plant \<Rightarrow> bool" where
  "plant_good cfg P \<longleftrightarrow>
     system_inv cfg (core P) \<and> (\<forall>i t. claimed_task (hands P i) = Some t \<longrightarrow> 0 \<le> retry_count t)"

lemma claimed_row:
  assumes "store_inv cfg w" "claim_task wk i w = (Some t, w')"
  shows "tid t = i \<and> 0 \<le> retry_count t"
  using assms(2)
proof (cases rule: claim_task_cases)
  case (won row until start d w2)
  then show ?thesis using get_task_row_SomeD [OF won(1)] store_counts [OF assms(1)] by auto
qed simp

lemma hand_step_counts:
  assumes "hand_step qc wk executor exc_str fl (h, w) (h', w')" "store_inv cfg w" "claimed_task h' = Some t"
  shows "0 \<le> retry_count t \<or> claimed_task h = Some t"
  using assms(1)
proof cases
  case (claim_won i t' p m n)
  then show ?thesis using claimed_row [OF assms(2) claim_won(3)] assms(3) by (simp add: claimed_task_def)
qed (use assms(3) in \<open>simp_all add: claimed_task_def\<close>)

lemma drop_message_store: "store_inv cfg w \<Longrightarrow> store_inv cfg (drop_message qc p m w) \<and> draws w (drop_message qc p m w)"
  by (simp add: drop_message_def store_inv_queue split: sum.split)

lemma good_world:
  assumes "plant_good cfg P" "store_inv cfg w" "draws (world (core P)) w"
    and "\<And>i t. claimed_task (hs i) = Some t \<Longrightarrow> 0 \<le> retry_count t"
  shows "plant_good cfg (P\<lparr>core := (core P)\<lparr>world := w\<rparr>, hands := hs\<rparr>) \<and> draws (world (core P)) w"
  using assms system_inv_world [OF _ assms(2,3)] by (simp add: plant_good_def)

lemma plant_step_good:
  assumes adv: "croniter_advances cr" and step: "plant_step cfg cr lax_int qc fl P P'" and good: "plant_good cfg P"
  shows "plant_good cfg P' \<and> draws (world (core P)) (world (core P'))"
proof -
  let ?w = "world (core P)"
  have sys: "system_inv cfg (core P)" and st: "store_inv cfg ?w"
    and counts: "\<And>i t. claimed_task (hands P i) = Some t \<Longrightarrow> 0 \<le> retry_count t"
    using good by (simp_all add: plant_good_def system_inv_def)
  have world: "plant_good cfg P' \<and> draws ?w (world (core P'))"
    if "P' = P\<lparr>core := (core P)\<lparr>world := w\<rparr>\<rparr>" "store_inv cfg w" "draws ?w w" for w
    using good_world [OF good that(2,3), of "hands P"] counts that(1) by simp
  have freed: "plant_good cfg P' \<and> draws ?w (world (core P'))"
    if "P' = P\<lparr>core := (core P)\<lparr>world := w\<rparr>, hands := (hands P)(i := Free)\<rparr>" "store_inv cfg w" "draws ?w w" for w i
  proof -
    have new: "0 \<le> retry_count t" if "claimed_task (((hands P)(i := Free)) k) = Some t" for k t
      using counts [of k t] that by (simp add: claimed_task_def split: if_splits)
    have "plant_good cfg (P\<lparr>core := (core P)\<lparr>world := w\<rparr>, hands := (hands P)(i := Free)\<rparr>) \<and> draws ?w w"
      by (rule good_world [OF good that(2,3)]) (rule new)
    then show ?thesis using that(1) by simp
  qed
  have queue: "store_inv cfg (set_pool_queue p q ?w) \<and> draws ?w (set_pool_queue p q ?w)" for p q
    using store_inv_queue [OF st] by simp
  show ?thesis
    using step
  proof cases
    case (service_acts qc' S')
    have "sound_step cfg qc' (core P) S'" by (rule service_step_sound [OF adv service_acts(3) sys])
    then show ?thesis using service_acts(1) good by (simp add: sound_step_def sent_new_def plant_good_def)
  next
    case (service_stops w d)
    show ?thesis by (rule world [OF service_stops(1,4)]) (use service_stops(2) in \<open>simp add: quiet_def draws_def\<close>)
  next
    case (hand_receives n s p ms q hs)
    have "0 \<le> retry_count t" if "claimed_task (hs i) = Some t" for i t
      using hand_receives(3) [rule_format, of i] counts that by (auto simp: claimed_task_def)
    then have "plant_good cfg (P\<lparr>core := (core P)\<lparr>world := set_pool_queue p q ?w\<rparr>, hands := hs\<rparr>) \<and> draws ?w (set_pool_queue p q ?w)"
      by (intro good_world [OF good]) (use queue in blast)+
    then show ?thesis using hand_receives(1) by simp
  next
    case (hand_acts qc' wk executor exc_str i h w)
    have new: "0 \<le> retry_count t" if "claimed_task (((hands P)(i := h)) k) = Some t" for k t
      using hand_step_counts [OF hand_acts(3) st] counts that by (auto split: if_splits)
    have "store_inv cfg w \<and> draws ?w w"
    proof -
      have "(store_inv cfg w \<and> grows qc' ?w w) \<or> (\<exists>p m. hands P i = Finished p m \<and> h = Free \<and> w = drop_message qc' p m ?w)"
        by (rule hand_step_grows [OF hand_acts(3) st]) (rule counts)
      then show ?thesis using drop_message_store [OF st] by (auto simp: grows_def sent_new_def)
    qed
    then have "plant_good cfg (P\<lparr>core := (core P)\<lparr>world := w\<rparr>, hands := (hands P)(i := h)\<rparr>) \<and> draws ?w w"
      by (intro good_world [OF good]) (use new in blast)+
    then show ?thesis using hand_acts(1) by simp
  next
    case (hand_half_records i p m t j now w out err d)
    note q = quiet_utcnow [OF hand_half_records(3)]
    have "mark_failed (tid t) out err (max_retries j \<le> retry_count t) now (db ?w) = Inr d"
      using hand_half_records(4) quietD(1) [OF q] by simp
    note M = mark_failed_sound [OF st q this]
    show ?thesis by (rule freed [OF hand_half_records(1)]) (use M in \<open>simp_all add: sent_new_def\<close>)
  next
    case (hand_beats i t wk)
    show ?thesis
      by (rule world [OF hand_beats(1) heartbeat_store [OF st]]) (use heartbeat_moves [of ?w wk "tid t"] in \<open>simp add: sent_new_def\<close>)
  next
    case (hand_extends i p m secs q)
    then show ?thesis using world queue by blast
  next
    case (hand_stops i)
    then show ?thesis using freed [of i ?w] st by simp
  next
    case (message_lands i p q)
    then show ?thesis using world queue by blast
  qed
qed

subsection \<open>The invariant\<close>

text \<open>The messages a queue has taken are for identifiers drawn before, and none of an unfinished task is missing.\<close>

definition queue_ok :: "('q \<Rightarrow> string multiset) \<Rightarrow> ('q \<Rightarrow> string set) \<Rightarrow> 'q world \<Rightarrow> 'q \<Rightarrow> bool" where
  "queue_ok waiting accepted w q \<longleftrightarrow>
     set_mset (waiting q) \<subseteq> accepted q \<and> accepted q \<subseteq> task_body ` drawn_ids w \<and>
     (\<forall>t \<in> set (tasks (db w)). \<not> terminal (status t) \<and> task_body (tid t) \<in> accepted q \<longrightarrow> task_body (tid t) \<in># waiting q)"

definition covered :: "('q \<Rightarrow> string multiset) \<Rightarrow> ('q \<Rightarrow> string set) \<Rightarrow> 'q world \<Rightarrow> bool" where
  "covered waiting accepted w \<longleftrightarrow>
     task_ids (db w) \<subseteq> drawn_ids w \<and> (\<forall>p. queue_ok waiting accepted w (pool_queue p w))"

definition body_over :: "string \<Rightarrow> database \<Rightarrow> bool" where
  "body_over b d \<longleftrightarrow> (\<forall>t \<in> set (tasks d). task_body (tid t) = b \<longrightarrow> terminal (status t))"

text \<open>A handler holds a handle that the queue gave out for its message; the task it has claimed is the one that the
  message names; the message it is about to delete is that of no unfinished task.\<close>

definition in_hand :: "('q \<Rightarrow> (string \<times> string) set) \<Rightarrow> 'q world \<Rightarrow> queue_path \<Rightarrow> queue_message \<Rightarrow> bool" where
  "in_hand receipts w p m \<longleftrightarrow>
     (receipt_handle m, body m) \<in> receipts (pool_queue p w) \<and> body m \<in> task_body ` drawn_ids w"

definition names :: "(string \<Rightarrow> string \<times> int option) \<Rightarrow> queue_message \<Rightarrow> uuid \<Rightarrow> bool" where
  "names fl m i \<longleftrightarrow> message_id fl m = Some (Inr (Some i))"

definition hand_ok ::
    "(string \<Rightarrow> string \<times> int option) \<Rightarrow> ('q \<Rightarrow> (string \<times> string) set) \<Rightarrow> 'q world \<Rightarrow> hand \<Rightarrow> bool" where
  "hand_ok fl receipts w h \<longleftrightarrow>
     (\<forall>p m. held_message h = Some (p, m) \<longrightarrow> in_hand receipts w p m) \<and>
     (case h of
        Claiming p m i n \<Rightarrow> names fl m i
      | Running p m t n \<Rightarrow> names fl m (tid t)
      | Executing p m t j \<Rightarrow> names fl m (tid t)
      | Finished p m \<Rightarrow> body_over (body m) (db w)
      | _ \<Rightarrow> True)"

definition plant_inv ::
    "settings \<Rightarrow> (string \<Rightarrow> string \<times> int option) \<Rightarrow> ('q \<Rightarrow> string multiset) \<Rightarrow> ('q \<Rightarrow> string set) \<Rightarrow>
     ('q \<Rightarrow> (string \<times> string) set) \<Rightarrow> 'q plant \<Rightarrow> bool" where
  "plant_inv cfg fl waiting accepted receipts P \<longleftrightarrow>
     plant_good cfg P \<and> covered waiting accepted (world (core P)) \<and>
     (\<forall>i. hand_ok fl receipts (world (core P)) (hands P i))"

lemma task_body_uuid: "task_body (uuid_str u) = task_body (uuid_str v) \<Longrightarrow> u = v"
  by (metis ascii_uuid_str extract_task_body json.inject(4) uuid_str_inj)

lemma pool_queue_set: "pool_queue p' (set_pool_queue p q w) = (if p' = p then q else pool_queue p' w)"
  by (cases p; cases p') (simp_all add: pool_queue_def set_pool_queue_def)

lemma drawn_ids_set [simp]: "drawn_ids (set_pool_queue p q w) = drawn_ids w"
  by (cases p) (simp_all add: drawn_ids_def set_pool_queue_def)

lemma queue_ok_set [simp]: "queue_ok waiting accepted (set_pool_queue p q w) = queue_ok waiting accepted w"
  by (simp add: queue_ok_def fun_eq_iff)

lemma grows_drawn: "grows qc w w' \<Longrightarrow> drawn_ids w \<subseteq> drawn_ids w'"
  by (rule drawn_ids_mono) (simp add: grows_def sent_new_def)

text \<open>A new identifier has a body of its own.\<close>

lemma new_not_drawn:
  assumes "uuids_fresh w" "draws w w'" "drawn_ids w' \<subseteq> range uuid_str"
  shows "task_body ` new_ids w w' \<inter> task_body ` drawn_ids w = {}"
proof -
  have "i = j" if "task_body i = task_body j" "i \<in> drawn_ids w'" "j \<in> drawn_ids w'" for i j
    using that assms(3) task_body_uuid by blast
  moreover have "new_ids w w' \<subseteq> drawn_ids w'" "drawn_ids w \<subseteq> drawn_ids w'"
    using new_ids_drawn [OF assms(2)] drawn_ids_mono [OF assms(2)] by simp_all
  moreover have "new_ids w w' \<inter> drawn_ids w = {}"
    using assms(1) by (auto simp: new_ids_def drawn_ids_def uuids_fresh_def inj_eq)
  ultimately show ?thesis by blast
qed

text \<open>So a row of a body drawn before was there before, and it has not come back to life.\<close>

lemma grown_row:
  assumes g: "grows qc w w'" and st: "uuids_fresh w" "store_inv cfg w'" and ids: "drawn_ids w' \<subseteq> range uuid_str"
    and t': "t' \<in> set (tasks (db w'))" "task_body (tid t') \<in> task_body ` drawn_ids w"
  shows "\<exists>t \<in> set (tasks (db w)). tid t' = tid t \<and> (terminal (status t) \<longrightarrow> terminal (status t'))"
proof -
  have d: "draws w w'" "task_ids (db w') \<subseteq> task_ids (db w) \<union> new_ids w w'" using g by (simp_all add: grows_def sent_new_def)
  have "tid t' \<notin> new_ids w w'" using new_not_drawn [OF st(1) d(1) ids] t'(2) by blast
  then have "tid t' \<in> task_ids (db w)" using d(2) t'(1) unfolding task_ids_def by blast
  moreover have "distinct (map tid (tasks (db w')))" using st(2) by (simp add: store_inv_def db_wf_def keys_ok_def)
  ultimately show ?thesis using changed_rows [OF _ _ t'(1)] g moves_end unfolding grows_def by blast
qed

lemma grown_over:
  assumes "grows qc w w'" "uuids_fresh w" "store_inv cfg w'" "drawn_ids w' \<subseteq> range uuid_str"
    and "b \<in> task_body ` drawn_ids w" "body_over b (db w)"
  shows "body_over b (db w')"
  unfolding body_over_def
proof (intro ballI impI)
  fix t' assume t': "t' \<in> set (tasks (db w'))" "task_body (tid t') = b"
  then obtain t where "t \<in> set (tasks (db w))" "tid t' = tid t" "terminal (status t) \<longrightarrow> terminal (status t')"
    using grown_row [OF assms(1-4) t'(1)] assms(5) by blast
  then show "terminal (status t')" using assms(6) t'(2) by (simp add: body_over_def)
qed

text \<open>What a handler may delete: a body without an identifier, or that of a task that has ended or is gone.\<close>

lemma over_body:
  assumes wf: "db_wf d" and ids: "task_ids d \<subseteq> range uuid_str"
    and m: "message_id fl m = None \<or> (\<exists>i. names fl m i \<and> task_over i d)"
  shows "body_over (body m) d"
  unfolding body_over_def
proof (intro ballI impI)
  fix t assume t: "t \<in> set (tasks d)" "task_body (tid t) = body m"
  then obtain u where u: "tid t = uuid_str u" using ids by (auto simp: task_ids_def)
  then have "extract_task_id fl (body m) = JStr (uuid_str u)" using t(2) extract_task_body [OF ascii_uuid_str, of fl u] by simp
  then have "message_id fl m = Some (Inr (Some (tid t)))"
    by (simp add: message_id_def truthy_def py_str_def uuid_of_uuid_str uuid_str_not_Nil u)
  then have "task_over (tid t) d" using m by (auto simp: names_def)
  moreover have "task_get (tid t) d = Some t"
    using t(1) wf by (auto simp: task_get_def get_task_row_def find_row_Some_iff db_wf_def keys_ok_def)
  ultimately show "terminal (status t)" by (simp add: task_over_def)
qed

text \<open>A recorded outcome is one: the task has ended, or its row is gone.\<close>

lemma finish_over:
  assumes "finish_task i st out err now d = Inr d'" "terminal st"
  shows "task_over i d'" "i \<in> task_ids d'"
proof -
  have w: "task_write i (finish_columns st out err now) d = Inr d'" using assms(1) by (simp add: finish_task_def)
  show "task_over i d'"
    using task_write_row [OF w, of i] assms(2)
    by (cases "get_task_row d i") (simp_all add: task_over_def task_get_def finish_columns_def)
  show "i \<in> task_ids d'" using task_write_SomeD [OF w] task_write_frame [OF w] by simp
qed

lemma record_result_over:
  assumes "record_result qc t j res w = (Inr u, w')"
  shows "task_over (tid t) (db w')"
proof (cases "er_success res")
  case True
  then show ?thesis using assms finish_over(1)
    by (fastforce simp: record_result_def mark_success_def terminal_def split: prod.splits sum.splits)
next
  case False
  then have "handle_failure qc t j (truncate_output (er_stdout res)) (truncate_output (er_stderr res)) w = (Inr u, w')"
    using assms by (simp add: record_result_def)
  then show ?thesis
  proof (cases rule: handle_failure_cases)
    case (final now w1 d)
    then show ?thesis using finish_over(1) [OF final(4)] by (simp add: terminal_def)
  next
    case (retried now w1 d i w3 now' w4 d')
    have over: "task_over (tid t) d" "tid t \<in> task_ids d" using finish_over [OF retried(3)] by (simp_all add: terminal_def)
    then have "tid t \<noteq> i" using task_create_SomeD [OF retried(6)] by auto
    then have "task_over (tid t) d'" using over(1) task_create_row [OF retried(6)] by (simp add: task_over_def task_get_def)
    then show ?thesis using retried(7) by (auto split: sum.splits)
  qed simp_all
qed

context acked_queue
begin

lemma sends_effect:
  "(sends client A)\<^sup>*\<^sup>* q q' \<Longrightarrow>
   waiting q \<subseteq># waiting q' \<and> receipts q \<subseteq> receipts q' \<and>
   (\<exists>S \<subseteq> task_body ` A. accepted q' = accepted q \<union> S \<and> S \<subseteq> set_mset (waiting q'))"
proof (induction rule: rtranclp_induct)
  case (step q1 q')
  then obtain i where i: "i \<in> A" "send_task client i q1 = Inr q'" by (auto simp: sends_def)
  obtain S where S: "S \<subseteq> task_body ` A" "accepted q1 = accepted q \<union> S" "S \<subseteq> set_mset (waiting q1)" using step.IH by blast
  have w: "waiting q' = add_mset (task_body i) (waiting q1)" and a: "accepted q' = insert (task_body i) (accepted q1)"
    and r: "receipts q1 \<subseteq> receipts q'"
    using send_waiting [OF i(2)] send_accepts [OF i(2)] by simp_all
  have "accepted q' = accepted q \<union> insert (task_body i) S" "insert (task_body i) S \<subseteq> task_body ` A"
    "insert (task_body i) S \<subseteq> set_mset (waiting q')"
    using a w S i(1) by auto
  moreover have "waiting q \<subseteq># waiting q'"
    using subset_mset.order_trans [OF conjunct1 [OF step.IH], of "waiting q'"] w by simp
  ultimately show ?case using step.IH r by blast
qed (auto intro: exI [of _ "{}"])

lemma sends_accepted:
  "(sends client A)\<^sup>*\<^sup>* q q' \<Longrightarrow> set_mset (waiting q) \<subseteq> accepted q \<Longrightarrow> set_mset (waiting q') \<subseteq> accepted q'"
proof (induction rule: rtranclp_induct)
  case (step q1 q')
  then obtain i where i: "send_task client i q1 = Inr q'" by (auto simp: sends_def)
  show ?case using step.IH [OF step.prems] send_waiting [OF i] send_accepts [OF i] by auto
qed simp

lemma grows_covered:
  assumes g: "grows client w w'" and st: "uuids_fresh w" "store_inv cfg w'" and ids: "drawn_ids w' \<subseteq> range uuid_str"
    and cov: "covered waiting accepted w"
  shows "covered waiting accepted w'"
proof -
  have d: "draws w w'" and t: "task_ids (db w') \<subseteq> task_ids (db w) \<union> new_ids w w'"
    and q: "\<And>p. (sends client (new_ids w w'))\<^sup>*\<^sup>* (pool_queue p w) (pool_queue p w')"
    using g by (simp_all add: grows_def sent_new_def)
  have drawn: "drawn_ids w \<subseteq> drawn_ids w'" "new_ids w w' \<subseteq> drawn_ids w'" using drawn_ids_mono [OF d] new_ids_drawn [OF d] .
  have "task_ids (db w') \<subseteq> drawn_ids w'" using t drawn cov unfolding covered_def by blast
  moreover have "queue_ok waiting accepted w' (pool_queue p w')" for p
  proof -
    have ok: "set_mset (waiting (pool_queue p w)) \<subseteq> accepted (pool_queue p w)"
      "accepted (pool_queue p w) \<subseteq> task_body ` drawn_ids w"
      using cov by (simp_all add: covered_def queue_ok_def)
    obtain S where S: "S \<subseteq> task_body ` new_ids w w'" "accepted (pool_queue p w') = accepted (pool_queue p w) \<union> S"
        "S \<subseteq> set_mset (waiting (pool_queue p w'))"
      and grown: "waiting (pool_queue p w) \<subseteq># waiting (pool_queue p w')" using sends_effect [OF q, of p] by blast
    have "task_body (tid t') \<in># waiting (pool_queue p w')"
      if t': "t' \<in> set (tasks (db w'))" and a: "\<not> terminal (status t')" "task_body (tid t') \<in> accepted (pool_queue p w')" for t'
    proof (cases "task_body (tid t') \<in> S")
      case True
      then show ?thesis using S(3) by blast
    next
      case False
      then have b: "task_body (tid t') \<in> accepted (pool_queue p w)" using a(2) S(2) by blast
      then obtain t where "t \<in> set (tasks (db w))" "tid t' = tid t" "\<not> terminal (status t)"
        using grown_row [OF g st ids t' subsetD [OF ok(2) b]] a(1) by blast
      then have "task_body (tid t') \<in># waiting (pool_queue p w)" using cov b by (simp add: covered_def queue_ok_def)
      then show ?thesis by (rule mset_subset_eqD [OF grown])
    qed
    moreover have "accepted (pool_queue p w') \<subseteq> task_body ` drawn_ids w'"
      unfolding S(2) using order_trans [OF ok(2) image_mono [OF drawn(1)]] order_trans [OF S(1) image_mono [OF drawn(2)]] by (rule Un_least)
    ultimately show ?thesis using sends_accepted [OF q ok(1)] by (simp add: queue_ok_def)
  qed
  ultimately show ?thesis by (simp add: covered_def)
qed

lemma in_hand_mono:
  assumes "in_hand receipts w p m" "drawn_ids w \<subseteq> drawn_ids w'" "receipts (pool_queue p w) \<subseteq> receipts (pool_queue p w')"
  shows "in_hand receipts w' p m"
  using assms unfolding in_hand_def by blast

lemma hand_ok_mono:
  assumes h: "hand_ok fl receipts w h" and "drawn_ids w \<subseteq> drawn_ids w'" "\<And>p. receipts (pool_queue p w) \<subseteq> receipts (pool_queue p w')"
    and over: "\<And>p m. h = Finished p m \<Longrightarrow> in_hand receipts w p m \<Longrightarrow> body_over (body m) (db w) \<Longrightarrow> body_over (body m) (db w')"
  shows "hand_ok fl receipts w' h"
proof -
  have "\<forall>p m. held_message h = Some (p, m) \<longrightarrow> in_hand receipts w' p m"
    using h in_hand_mono [OF _ assms(2,3)] unfolding hand_ok_def by blast
  then show ?thesis using h over unfolding hand_ok_def by (cases h) (simp_all add: held_message_def)
qed

lemma grows_hands:
  assumes g: "grows client w w'" and st: "uuids_fresh w" "store_inv cfg w'" and ids: "drawn_ids w' \<subseteq> range uuid_str"
    and h: "hand_ok fl receipts w h"
  shows "hand_ok fl receipts w' h"
proof (rule hand_ok_mono [OF h grows_drawn [OF g]])
  show "receipts (pool_queue p w) \<subseteq> receipts (pool_queue p w')" for p
    using g sends_effect unfolding grows_def sent_new_def by blast
  show "body_over (body m) (db w')" if "in_hand receipts w p m" "body_over (body m) (db w)" for p m
    by (rule grown_over [OF g st ids _ that(2)]) (use that(1) in \<open>simp add: in_hand_def\<close>)
qed

text \<open>The service changes one queue: what goes is over, and the handles stay good.\<close>

lemma queue_covered:
  assumes c: "covered waiting accepted w" and acc: "accepted q = accepted (pool_queue p w)"
    and sub: "waiting q \<subseteq># waiting (pool_queue p w)" and one: "waiting (pool_queue p w) \<subseteq># add_mset b (waiting q)"
    and gone: "waiting q = waiting (pool_queue p w) \<or> body_over b (db w)"
  shows "covered waiting accepted (set_pool_queue p q w)"
proof -
  have "set_mset (waiting q) \<subseteq> set_mset (waiting (pool_queue p w))" using sub by (rule set_mset_mono)
  moreover have "task_body (tid t) \<in># waiting q"
    if "t \<in> set (tasks (db w))" "\<not> terminal (status t)" "task_body (tid t) \<in># waiting (pool_queue p w)" for t
    using gone mset_subset_eqD [OF one that(3)] that by (auto simp: body_over_def)
  moreover have "queue_ok waiting accepted w (pool_queue p w)" using c by (simp add: covered_def)
  ultimately have "queue_ok waiting accepted w q" by (auto simp: queue_ok_def acc)
  then show ?thesis using c by (simp add: covered_def pool_queue_set)
qed

lemma queue_hands:
  assumes "receipts (pool_queue p w) \<subseteq> receipts q" "hand_ok fl receipts w h"
  shows "hand_ok fl receipts (set_pool_queue p q w) h"
  by (rule hand_ok_mono [OF assms(2)]) (use assms(1) in \<open>simp_all add: pool_queue_set\<close>)

lemma landed_covered:
  assumes c: "covered waiting accepted w" and i: "i \<in> drawn_ids w" and s: "send_task client i (pool_queue p w) = Inr q"
  shows "covered waiting accepted (set_pool_queue p q w)"
proof -
  have q: "waiting q = add_mset (task_body i) (waiting (pool_queue p w))" "accepted q = insert (task_body i) (accepted (pool_queue p w))"
    using send_waiting [OF s] send_accepts [OF s] by simp_all
  have "queue_ok waiting accepted w (pool_queue p w)" using c by (simp add: covered_def)
  then have "queue_ok waiting accepted w q" using i by (auto simp: queue_ok_def q)
  then show ?thesis using c by (simp add: covered_def pool_queue_set)
qed

lemma dropped:
  assumes c: "covered waiting accepted w" and m: "in_hand receipts w p m" "body_over (body m) (db w)"
    and h: "hand_ok fl receipts w h"
  shows "covered waiting accepted (drop_message client p m w) \<and> hand_ok fl receipts (drop_message client p m w) h"
proof (cases "delete_message client (receipt_handle m) (pool_queue p w)")
  case (Inl e)
  then show ?thesis using c h by (simp add: drop_message_def)
next
  case (Inr q)
  have D: "waiting q \<subseteq># waiting (pool_queue p w)" "waiting (pool_queue p w) \<subseteq># add_mset (body m) (waiting q)"
    "accepted q = accepted (pool_queue p w)" "receipts (pool_queue p w) \<subseteq> receipts q"
    using delete_takes [OF Inr] m(1) unfolding in_hand_def by blast+
  show ?thesis using queue_covered [OF c D(3,1,2)] m(2) queue_hands [OF D(4) h] Inr by (simp add: drop_message_def)
qed

text \<open>What a handler knows after its step.\<close>

lemma hand_step_ok:
  assumes step: "hand_step qc wk executor exc_str fl (h, w) (h', w')" and h: "hand_ok fl receipts w h"
    and moved: "\<And>p m. in_hand receipts w p m \<Longrightarrow> in_hand receipts w' p m"
    and st: "store_inv cfg w" "store_inv cfg w'" and ids: "task_ids (db w) \<subseteq> range uuid_str" "task_ids (db w') \<subseteq> range uuid_str"
  shows "hand_ok fl receipts w' h'"
proof -
  have wf: "db_wf (db w)" "db_wf (db w')" using st by (simp_all add: store_inv_def)
  have at: "in_hand receipts w' p m" if "held_message h = Some (p, m)" for p m
    using moved h that unfolding hand_ok_def by blast
  show ?thesis
    using step
  proof cases
    case (no_id m p)
    then show ?thesis using at over_body [OF wf(1) ids(1), of fl m] by (simp add: hand_ok_def held_message_def)
  next
    case (begins m i p)
    then show ?thesis using at by (simp add: hand_ok_def held_message_def names_def)
  next
    case (claim_won i t p m n)
    have "tid t = i" using claimed_row [OF st(1) claim_won(3)] by blast
    then show ?thesis using at h claim_won(1,2) by (simp add: hand_ok_def held_message_def)
  next
    case (claim_lost i p m n)
    then show ?thesis using at h by (simp add: hand_ok_def held_message_def)
  next
    case (over i p m)
    then show ?thesis using at h over_body [OF wf(1) ids(1), of fl m] by (auto simp: hand_ok_def held_message_def)
  next
    case (job_found t j p m n)
    then show ?thesis using at h by (simp add: hand_ok_def held_message_def)
  next
    case (job_missing t p m n)
    then show ?thesis using at h by (simp add: hand_ok_def held_message_def)
  next
    case (abandoned now w1 t d p m)
    have "task_over (tid t) (db w')"
      using finish_over(1) abandoned(3,5) by (simp add: mark_failed_def terminal_def)
    then show ?thesis using at h over_body [OF wf(2) ids(2), of fl m] abandoned(1,2)
      by (auto simp: hand_ok_def held_message_def)
  next
    case (recorded t j u p m)
    have "task_over (tid t) (db w')" by (rule record_result_over [OF recorded(3)])
    then show ?thesis using at h over_body [OF wf(2) ids(2), of fl m] recorded(1,2)
      by (auto simp: hand_ok_def held_message_def)
  qed (simp_all add: hand_ok_def held_message_def)
qed

lemma plant_step_sound:
  assumes adv: "croniter_advances cr" and step: "plant_step cfg cr lax_int client fl P P'" and inv: "plant_inv cfg fl waiting accepted receipts P"
    and ids: "drawn_ids (world (core P')) \<subseteq> range uuid_str"
  shows "plant_inv cfg fl waiting accepted receipts P'"
proof -
  let ?w = "world (core P)" and ?w' = "world (core P')"
  have good: "plant_good cfg P" and cov: "covered waiting accepted ?w" and hand: "\<And>i. hand_ok fl receipts ?w (hands P i)"
    using inv by (simp_all add: plant_inv_def)
  have sys: "system_inv cfg (core P)" and st: "store_inv cfg ?w"
    and counts: "\<And>i t. claimed_task (hands P i) = Some t \<Longrightarrow> 0 \<le> retry_count t"
    using good by (simp_all add: plant_good_def system_inv_def)
  note good' = plant_step_good [OF adv step good]
  then have st': "store_inv cfg ?w'" by (simp add: plant_good_def system_inv_def)
  have fresh: "uuids_fresh ?w" using st by (simp add: store_inv_def)
  have ok: "hand_ok fl receipts w Free" for w by (simp add: hand_ok_def held_message_def)
  have sound: "plant_inv cfg fl waiting accepted receipts P'"
    if "covered waiting accepted ?w'" "\<And>i. hand_ok fl receipts ?w' (hands P' i)"
    using that good' by (simp add: plant_inv_def)
  have grown: "covered waiting accepted ?w' \<and> (\<forall>i. hand_ok fl receipts ?w' (hands P i))" if "grows client ?w ?w'"
    using grows_covered [OF that fresh st' ids cov] grows_hands [OF that fresh st' ids hand] by blast
  show ?thesis
    using step
  proof cases
    case (service_acts qc' S')
    have "sound_step cfg qc' (core P) S'" by (rule service_step_sound [OF adv service_acts(3) sys])
    then have "grows client ?w ?w'" using sent_either [OF service_acts(2)] service_acts(1) by (simp add: sound_step_def grows_def)
    from grown [OF this] show ?thesis by (intro sound) (simp_all add: service_acts(1))
  next
    case (service_stops w d)
    have "tasks_step (db ?w) (db ?w')" using service_stops(1,2,3) by (simp add: quietD tasks_step_same)
    moreover have "sent_new client ?w (w\<lparr>db := d\<rparr>)"
      by (rule sent_new_stored [OF service_stops(2)]) (use service_stops(2,3) in \<open>simp add: task_ids_def quietD\<close>)
    ultimately have "grows client ?w ?w'" using service_stops(1) by (intro grows_moves) simp
    from grown [OF this] show ?thesis by (intro sound) (simp_all add: service_stops(1))
  next
    case (hand_receives n s p ms q hs)
    have R: "waiting q = waiting (pool_queue p ?w)" "accepted q = accepted (pool_queue p ?w)" "receipts (pool_queue p ?w) \<subseteq> receipts q"
      using receive_hides [OF hand_receives(2)] by simp_all
    have "covered waiting accepted (set_pool_queue p q ?w)" by (rule queue_covered [OF cov R(2)]) (simp_all add: R(1))
    moreover have "hand_ok fl receipts (set_pool_queue p q ?w) (hs i)" for i
    proof (cases "hs i = hands P i")
      case True
      then show ?thesis using queue_hands [OF R(3) hand [of i]] by simp
    next
      case False
      then obtain m where m: "m \<in> set ms" "hs i = Holding p m" using hand_receives(3) by blast
      have "body m \<in># waiting (pool_queue p ?w)" by (rule received_was_waiting [OF hand_receives(2) m(1)])
      then have "body m \<in> task_body ` drawn_ids ?w" using cov unfolding covered_def queue_ok_def by blast
      then show ?thesis
        using m received_receipt [OF hand_receives(2) m(1)] by (simp add: hand_ok_def held_message_def in_hand_def pool_queue_set)
    qed
    ultimately show ?thesis using hand_receives(1) by (intro sound) simp_all
  next
    case (hand_acts qc' wk executor exc_str i h w)
    have w': "?w' = w" using hand_acts(1) by simp
    have "(store_inv cfg w \<and> grows qc' ?w w) \<or> (\<exists>p m. hands P i = Finished p m \<and> h = Free \<and> w = drop_message qc' p m ?w)"
      by (rule hand_step_grows [OF hand_acts(3) st]) (rule counts)
    then show ?thesis
    proof (elim disjE conjE exE)
      assume "grows qc' ?w w"
      then have g: "grows client ?w w" using sent_either [OF hand_acts(2)] by (simp add: grows_def)
      note G = grown [unfolded w', OF g]
      have "hand_ok fl receipts w h"
      proof (rule hand_step_ok [OF hand_acts(3) hand _ st st' [unfolded w']])
        show "in_hand receipts w p m" if "in_hand receipts ?w p m" for p m
          by (rule in_hand_mono [OF that grows_drawn [OF g]]) (use g sends_effect in \<open>unfold grows_def sent_new_def, blast\<close>)
        show "task_ids (db w) \<subseteq> range uuid_str"
          using G by (intro order_trans [OF _ ids [unfolded w']]) (simp add: covered_def)
        show "task_ids (db ?w) \<subseteq> range uuid_str"
          by (rule order_trans [OF _ order_trans [OF grows_drawn [OF g] ids [unfolded w']]]) (use cov in \<open>simp add: covered_def\<close>)
      qed
      then show ?thesis using G w' hand_acts(1) by (intro sound) simp_all
    next
      fix p m assume f: "hands P i = Finished p m" "h = Free" "w = drop_message qc' p m ?w"
      have w: "w = drop_message client p m ?w" using f(3) hand_acts(2) by auto
      have "in_hand receipts ?w p m" "body_over (body m) (db ?w)" using hand [of i] f(1) by (simp_all add: hand_ok_def held_message_def)
      from dropped [OF cov this hand] show ?thesis using ok w' hand_acts(1) f(2) by (intro sound) (simp_all add: w)
    qed
  next
    case (hand_half_records i p m t j now w out err d)
    note q = quiet_utcnow [OF hand_half_records(3)]
    have "mark_failed (tid t) out err (max_retries j \<le> retry_count t) now (db ?w) = Inr d"
      using hand_half_records(4) quietD(1) [OF q] by simp
    from mark_failed_sound [OF st q this, of client] have "grows client ?w ?w'"
      using hand_half_records(1) by (intro grows_moves) simp
    from grown [OF this] show ?thesis using ok by (intro sound) (simp_all add: hand_half_records(1))
  next
    case (hand_beats i t wk)
    have "grows client ?w ?w'" using heartbeat_moves [of ?w wk "tid t" client] hand_beats(1) by (intro grows_moves) simp
    from grown [OF this] show ?thesis by (intro sound) (simp_all add: hand_beats(1))
  next
    case (hand_extends i p m secs q)
    have R: "waiting q = waiting (pool_queue p ?w)" "accepted q = accepted (pool_queue p ?w)" "receipts (pool_queue p ?w) \<subseteq> receipts q"
      using extend_keeps [OF hand_extends(3)] by simp_all
    have "covered waiting accepted (set_pool_queue p q ?w)" by (rule queue_covered [OF cov R(2)]) (simp_all add: R(1))
    then show ?thesis using queue_hands [OF R(3) hand] hand_extends(1) by (intro sound) simp_all
  next
    case (hand_stops i)
    then show ?thesis using cov hand ok by (intro sound) simp_all
  next
    case (message_lands i p q)
    have "receipts (pool_queue p ?w) \<subseteq> receipts q" using send_accepts [OF message_lands(3)] by blast
    then show ?thesis using landed_covered [OF cov message_lands(2,3)] queue_hands [OF _ hand] message_lands(1)
      by (intro sound) simp_all
  qed
qed

lemma plant_runs_inv:
  assumes adv: "croniter_advances cr" and inv: "plant_inv cfg fl waiting accepted receipts P"
    and runs: "plant_runs cfg cr lax_int client fl P P'" and ids: "drawn_ids (world (core P')) \<subseteq> range uuid_str"
  shows "plant_inv cfg fl waiting accepted receipts P'"
proof -
  from runs have "plant_good cfg P' \<and> (drawn_ids (world (core P')) \<subseteq> range uuid_str \<longrightarrow> plant_inv cfg fl waiting accepted receipts P')"
    unfolding plant_runs_def
  proof (induction rule: rtranclp_induct)
    case base
    then show ?case using inv by (simp add: plant_inv_def)
  next
    case (step Q Q')
    note G = plant_step_good [OF adv step(2) conjunct1 [OF step(3)]]
    then have "drawn_ids (world (core Q)) \<subseteq> drawn_ids (world (core Q'))" using drawn_ids_mono by blast
    then show ?case using G step(3) plant_step_sound [OF adv step(2)] by blast
  qed
  then show ?thesis using ids by blast
qed

lemma first_plant_inv:
  assumes "inj src" "\<And>q. q \<in> {qn, qs, qr} \<Longrightarrow> waiting q = {#} \<and> accepted q = {}"
  shows "plant_inv cfg fl waiting accepted receipts (first_plant (first_world qn qs qr clk src))"
proof -
  have "store_inv cfg (first_world qn qs qr clk src)"
    using assms(1) by (simp add: store_inv_def specs_derived_def first_world_def db_wf_def keys_ok_def fks_ok_def dag_def
        acyclic_def uuids_fresh_def job_ids_def task_ids_def)
  moreover have "pool_queue p (first_world qn qs qr clk src) \<in> {qn, qs, qr}" for p
    by (cases p) (simp_all add: pool_queue_def first_world_def)
  then have "queue_ok waiting accepted w (pool_queue p (first_world qn qs qr clk src))" for w p
    using assms(2) by (simp add: queue_ok_def)
  ultimately show ?thesis
    by (simp add: plant_inv_def plant_good_def claimed_task_def first_plant_def initial_system_def system_inv_def
        new_scheduler_def cache_ok_def heap_inv_def hand_ok_def held_message_def covered_def first_world_def task_ids_def)
qed

end

subsection \<open>The handler of the code in the plant\<close>

text \<open>The plant, seen by the handler in slot \<open>i\<close>: what happens around it are the steps that leave its slot alone.\<close>

definition around ::
    "settings \<Rightarrow> croniter \<Rightarrow> (json \<Rightarrow> int option) \<Rightarrow> 'q queue_client \<Rightarrow> (string \<Rightarrow> string \<times> int option) \<Rightarrow> nat \<Rightarrow>
     'q plant \<Rightarrow> 'q plant \<Rightarrow> bool" where
  "around cfg cr lax_int qc fl i P P' \<longleftrightarrow> plant_runs cfg cr lax_int qc fl P P' \<and> hands P' i = hands P i"

definition plant_environment ::
    "settings \<Rightarrow> croniter \<Rightarrow> (json \<Rightarrow> int option) \<Rightarrow> 'q queue_client \<Rightarrow> (string \<Rightarrow> string \<times> int option) \<Rightarrow> nat \<Rightarrow>
     'q environment \<Rightarrow> bool" where
  "plant_environment cfg cr lax_int qc fl i env \<longleftrightarrow>
     (\<forall>P. (\<forall>n. \<exists>P'. around cfg cr lax_int qc fl i P P' \<and> world (core P') = during_backoff env n (world (core P))) \<and>
        (\<exists>P'. around cfg cr lax_int qc fl i P P' \<and> world (core P') = during_run env (world (core P))))"

lemma handler_in_plant:
  assumes env: "plant_environment cfg cr lax_int qc fl i env"
    and runs: "handler_runs qc env wk executor exc_str fl (hands P i, world (core P)) (h, w)"
  shows "\<exists>P'. plant_runs cfg cr lax_int qc fl P P' \<and> hands P' i = h \<and> world (core P') = w"
  using runs unfolding handler_runs_def
proof (induction "(h, w)" arbitrary: h w rule: rtranclp_induct)
  case base
  then show ?case by (intro exI [of _ P]) (simp add: plant_runs_def)
next
  case (step y)
  obtain h1 w1 where y: "y = (h1, w1)" by fastforce
  obtain P1 where P1: "plant_runs cfg cr lax_int qc fl P P1" "hands P1 i = h1" "world (core P1) = w1" using step.hyps(3) [OF y] by blast
  from step.hyps(2) have "\<exists>P'. plant_runs cfg cr lax_int qc fl P1 P' \<and> hands P' i = h \<and> world (core P') = w"
  proof
    assume "hand_step qc wk executor exc_str fl y (h, w)"
    then have "plant_step cfg cr lax_int qc fl P1 (P1\<lparr>core := (core P1)\<lparr>world := w\<rparr>, hands := (hands P1)(i := h)\<rparr>)"
      using y P1(2,3) by (intro hand_acts) auto
    from plant_runs_step [OF this] show ?thesis by (intro exI) (rule conjI, assumption, simp)
  next
    assume "env_step env y (h, w)"
    then have "h = h1 \<and> ((\<exists>n. w = during_backoff env n w1) \<or> w = during_run env w1)"
      unfolding y by cases auto
    then obtain P' where "around cfg cr lax_int qc fl i P1 P'" "world (core P') = w" "h = h1"
      using env P1(3) unfolding plant_environment_def by blast
    then show ?thesis using P1(2) unfolding around_def by blast
  qed
  then show ?case using plant_runs_trans [OF P1(1)] by blast
qed

subsection \<open>At least once\<close>

text \<open>(C6) No accepted message is lost. On SQS, whatever clients, schedulers and workers do, whichever sends fail and
  wherever a worker stops, a task that has not ended still has its message in every queue that ever took it,
  so it will be delivered again: a message goes only when a handler deletes it, and a handler deletes only what
  has ended or is gone. The handler is the one of the code: from the moment a slot holds a message, whatever
  happens around it, \<open>handle_message\<close> is a run of this plant that leaves the slot free. A request is one
  transaction up to its send, which may be cut off, and a recovery of expired locks is one step; identifiers
  are UUIDs. A task whose message no queue took, as when its process stopped before the send, is not covered.\<close>

theorem unfinished_tasks_keep_messages:
  assumes adv: "croniter_advances cr" and src: "inj src" and sqs: "sqs_laws api url held accepted receipts"
    and empty: "\<forall>q \<in> {qn, qs, qr}. held q = {#} \<and> accepted q = {}"
    and runs: "plant_runs cfg cr lax_int (SQSQueueClient api cfg url) fl (first_plant (first_world qn qs qr clk src)) P"
    and ids: "drawn_ids (world (core P)) \<subseteq> range uuid_str"
  shows "(\<forall>t \<in> set (tasks (db (world (core P)))). \<forall>p.
       \<not> terminal (status t) \<and> task_body (tid t) \<in> accepted (pool_queue p (world (core P))) \<longrightarrow>
       task_body (tid t) \<in># held (pool_queue p (world (core P)))) \<and>
    (\<forall>i p m env wk executor exc_str.
       hands P i = Holding p m \<and> plant_environment cfg cr lax_int (SQSQueueClient api cfg url) fl i env \<longrightarrow>
       (\<exists>P'. plant_runs cfg cr lax_int (SQSQueueClient api cfg url) fl P P' \<and> hands P' i = Free \<and>
          world (core P') = handle_message (SQSQueueClient api cfg url) p env wk executor exc_str fl m (world (core P))))"
proof (intro conjI ballI allI impI)
  note acked = sqs_client_acked [OF sqs]
  have "plant_inv cfg fl held accepted receipts P"
    by (rule acked_queue.plant_runs_inv [OF acked adv acked_queue.first_plant_inv [OF acked src bspec [OF empty]] runs ids])
  then have "queue_ok held accepted (world (core P)) (pool_queue p (world (core P)))" for p
    by (simp add: plant_inv_def covered_def)
  then show "task_body (tid t) \<in># held (pool_queue p (world (core P)))"
    if "t \<in> set (tasks (db (world (core P))))"
      "\<not> terminal (status t) \<and> task_body (tid t) \<in> accepted (pool_queue p (world (core P)))" for t p
    using that unfolding queue_ok_def by blast
  show "\<exists>P'. plant_runs cfg cr lax_int (SQSQueueClient api cfg url) fl P P' \<and> hands P' i = Free \<and>
      world (core P') = handle_message (SQSQueueClient api cfg url) p env wk executor exc_str fl m (world (core P))"
    if "hands P i = Holding p m \<and> plant_environment cfg cr lax_int (SQSQueueClient api cfg url) fl i env"
    for i p m env wk executor exc_str
    by (rule handler_in_plant [where wk = wk and executor = executor and exc_str = exc_str and env = env])
      (use that handle_message_follows in simp_all)
qed

subsection \<open>A small plant\<close>

text \<open>A service with one job that runs once, over the small queue service, whose worker has received its message.\<close>

definition shelf_world :: "shelf world" where
  "shelf_world = first_world [] [] [] (\<lambda>n. seconds (int n)) uuid_stream"

definition shelf_client :: "shelf queue_client" where
  "shelf_client = SQSQueueClient shelf_api default_settings ''q''"

definition posted_world :: "shelf world" where
  "posted_world = snd (create_job default_settings minutely shelf_client once_payload shelf_world)"

definition posted_plant :: "shelf plant" where
  "posted_plant = (first_plant shelf_world)\<lparr>core := (initial_system shelf_world)\<lparr>world := posted_world\<rparr>\<rparr>"

lemma posted_numbers:
  fixes src :: "nat \<Rightarrow> uuid" and clk :: "nat \<Rightarrow> time"
  defines "w \<equiv> snd (create_job default_settings minutely shelf_client once_payload (first_world [] [] [] clk src))"
  shows "uuids_drawn w = 2" "map status (tasks (db w)) = [pending]" "map snd (normal_queue w) = [True]"
    "map (\<lambda>t. task_body (tid t)) (tasks (db w)) = map fst (normal_queue w)"
  unfolding w_def by code_simp+

lemma posted_draws: "uuids_drawn posted_world = 2" "uuid_source posted_world = uuid_stream"
proof -
  have "draws shelf_world posted_world"
    using create_job_adds [of default_settings minutely shelf_client once_payload shelf_world]
    unfolding posted_world_def by (auto simp: adds_def sent_new_def intro: prod.collapse [symmetric])
  then show "uuid_source posted_world = uuid_stream" by (simp add: draws_def shelf_world_def first_world_def)
  show "uuids_drawn posted_world = 2" unfolding posted_world_def shelf_world_def by (rule posted_numbers(1))
qed

lemma posted_runs: "plant_runs default_settings minutely strict_int shelf_client fl (first_plant shelf_world) posted_plant"
proof -
  obtain r w' where c: "create_job default_settings minutely shelf_client once_payload shelf_world = (r, w')" by fastforce
  have "service_step default_settings minutely strict_int shelf_client (initial_system shelf_world)
      ((initial_system shelf_world)\<lparr>world := w'\<rparr>)"
    by (rule acts_create [where p = once_payload]) (use c once_payload_valid in \<open>simp_all add: initial_system_def\<close>)
  then have "plant_step default_settings minutely strict_int shelf_client fl (first_plant shelf_world) posted_plant"
    using service_acts [of shelf_client shelf_client _ _ _ "first_plant shelf_world"] c
    by (simp add: posted_plant_def posted_world_def first_plant_def)
  then show ?thesis by (rule plant_runs_step)
qed

lemma idle_environment: "plant_environment cfg cr lax_int qc fl i idle"
  unfolding plant_environment_def idle_def around_def plant_runs_def by auto

theorem unfinished_tasks_keep_messages_witness:
  "\<exists>P m t. plant_runs default_settings minutely strict_int shelf_client (\<lambda>s. (s, None)) (first_plant shelf_world) P \<and>
     hands P 0 = Holding normal_path m \<and> tasks (db (world (core P))) = [t] \<and> status t = pending \<and>
     task_body (tid t) \<in> shelf_accepted (normal_queue (world (core P))) \<and>
     task_body (tid t) \<in># shelf_held (normal_queue (world (core P))) \<and>
     (\<exists>P'. plant_runs default_settings minutely strict_int shelf_client (\<lambda>s. (s, None)) P P' \<and> hands P' 0 = Free \<and>
        world (core P') = handle_message shelf_client normal_path idle sample_worker always_fails (\<lambda>e. []) (\<lambda>s. (s, None)) m
          (world (core P)))"
proof -
  note numbers = posted_numbers [of "\<lambda>n. seconds (int n)" uuid_stream, folded shelf_world_def, folded posted_world_def]
  obtain b where b: "normal_queue posted_world = [(b, True)]" using numbers(3) by (auto simp: map_eq_Cons_conv)
  obtain t where t: "tasks (db posted_world) = [t]" "status t = pending" using numbers(2) by (auto simp: map_eq_Cons_conv)
  have tb: "task_body (tid t) = b" using numbers(4) b t(1) by simp
  define m where "m = \<lparr>body = b, receipt_handle = shelf_handle 0\<rparr>"
  let ?P = "posted_plant\<lparr>core := (core posted_plant)\<lparr>world := set_pool_queue normal_path [(b, True)] posted_world\<rparr>,
    hands := (\<lambda>i. Free)(0 := Holding normal_path m)\<rparr>"
  have "plant_step default_settings minutely strict_int shelf_client (\<lambda>s. (s, None)) posted_plant ?P"
    using hand_receives [of shelf_client 1 2 normal_path posted_plant "[m]" "[(b, True)]" "(\<lambda>i. Free)(0 := Holding normal_path m)"] b
    by (simp add: posted_plant_def first_plant_def shelf_client_def SQSQueueClient_def shelf_api_def shelf_visible_def
        pool_queue_def m_def)
  then have runs: "plant_runs default_settings minutely strict_int shelf_client (\<lambda>s. (s, None)) (first_plant shelf_world) ?P"
    using plant_runs_trans [OF posted_runs plant_runs_step] by blast
  have ids: "drawn_ids (world (core ?P)) \<subseteq> range uuid_str"
    using posted_draws uuid_stream_uuids by (auto simp: drawn_ids_def set_pool_queue_def)
  have empty: "\<forall>q \<in> {[], [], []}. shelf_held q = {#} \<and> shelf_accepted q = {}"
    by (simp add: shelf_held_def shelf_accepted_def)
  note keep = unfinished_tasks_keep_messages [OF minutely_advances uuid_stream_inj shelf_laws empty
      runs [unfolded shelf_client_def shelf_world_def] ids, folded shelf_client_def shelf_world_def]
  have q: "normal_queue (world (core ?P)) = [(b, True)]" "pool_queue normal_path (world (core ?P)) = [(b, True)]"
    by (simp_all add: set_pool_queue_def pool_queue_def)
  have "task_body (tid t) \<in># shelf_held (pool_queue normal_path (world (core ?P)))"
    by (rule keep [THEN conjunct1, rule_format]) (use t tb q in \<open>simp_all add: terminal_def shelf_accepted_def\<close>)
  moreover have "\<exists>P'. plant_runs default_settings minutely strict_int shelf_client (\<lambda>s. (s, None)) ?P P' \<and> hands P' 0 = Free \<and>
      world (core P') = handle_message shelf_client normal_path idle sample_worker always_fails (\<lambda>e. []) (\<lambda>s. (s, None)) m
        (world (core ?P))"
    by (rule keep [THEN conjunct2, rule_format]) (simp add: idle_environment)
  ultimately show ?thesis using runs t q tb by (intro exI [of _ ?P] exI [of _ m] exI [of _ t]) (simp add: shelf_accepted_def)
qed

end
