(* ===== verification/Spec2Isabelle.thy ===== *)
theory Spec2Isabelle
  imports Config Queues Api Execution Worker Cron_Scheduler Dependency_Scheduler Autoscaler Db_Session Guid
    Queue_Pool Leader_Lock Task_Lifecycle Scheduler_Process Exporter Migrations System Process_Refinement Handler_Protocol
    Responses Load_Scripts Smoke_Test Dag_Demo Delivery Load_Runs Races Stress_Script Entry_Points
    Sqs_Service At_Least_Once
begin

text \<open>
  DASS is a distributed job scheduler. An API stores jobs (an HTTP request or a shell command, run
  once, on a cron schedule or after other jobs) and tasks (their runs) in PostgreSQL and sends the
  identifier of a task through one of three queues (\<open>normal\<close>, \<open>scheduled\<close>, \<open>retry\<close>). Worker
  processes receive the identifiers, claim the task row with a conditional update, run a container
  on Docker or Kubernetes and record the outcome, with a retry when attempts are left. Scheduler
  replicas elect a leader, which fires cron jobs, returns the tasks of dead workers and starts the
  jobs whose upstream jobs have succeeded. An autoscaler resizes the fleet of worker containers from
  the depth of the queues, and an exporter publishes both. This development models the Python code of
  all of these and of the programs that exercise them (\<open>src/backend\<close>,
  \<open>src/infra/observability/sqs-exporter\<close>, \<open>src/scripts\<close>; file names below are
  relative to \<open>backend/app/\<close>) and proves what makes them correct, apart and together.

  \<^bold>\<open>How the code is represented.\<close> The tables are lists of rows in one record \<open>database\<close>; an ORM
  statement or flush is an operation on it that checks the declared constraints, and an exception
  before the commit leaves the record as it was, as the rollback does. \<open>world\<close> holds the
  database, the three queues, the clock and the source of random UUIDs, both of them streams of which
  an operation draws the next element; an operation of the code is a function on worlds whose result is
  \<open>Inl\<close> of the exception it raises or \<open>Inr\<close> of what it returns. Instants are integers of microseconds in UTC.
  Identifiers are the canonical strings of UUIDs: \<open>Guid\<close> proves that the column type stores only
  those; a lookup such as \<open>job_get\<close> takes the key after binding, and \<open>Responses\<close> binds the raw path parameters. Strings are ASCII (the JSON reader also writes the UTF-8 bytes of an escape). What
  is not in the repository is a parameter: croniter (\<open>croniter_advances\<close> states that the next
  firing lies after the base), pydantic's integer coercion, the boto3 and Docker clients
  (\<open>docker_laws\<close>), the Kubernetes API, the process that runs a container, PostgreSQL's
  advisory locks (\<open>advisory_lock_laws\<close>), the SQS service (\<open>sqs_laws\<close>), and the readings of floats. Every law has an instance
  in a witness.

  \<^bold>\<open>The theories\<close>, in the order of their imports:

  \<^item> \<open>Prelude\<close>: error values, time, operations on lists of keyed rows, acyclic graphs, shared rules.
  \<^item> \<open>Pystr\<close>: the Python string operations and JSON printing the code uses.
  \<^item> \<open>Heapq\<close>: CPython's \<open>heappush\<close> and \<open>heappop\<close>, with the heap invariant and their multisets.
  \<^item> \<open>Models\<close>: \<open>models/job.py\<close>, \<open>models/task.py\<close>, \<open>utils/time.py\<close>; the rows, the tables, their constraints
    \<open>db_wf\<close>, the world and what a step may draw from it.
  \<^item> \<open>Config\<close>: \<open>core/config.py\<close> and the CORS list of \<open>main.py\<close>.
  \<^item> \<open>Queues\<close>: \<open>queue/\<close>; the protocol as a record and a locale interpreted on the in-memory client, the
    SQS client over the calls it makes, the factory.
  \<^item> \<open>Sqs_Service\<close>: \<open>queue/sqs.py\<close> over a service whose calls may fail and which keeps a received message until it
    is deleted through its receipt handle; the laws of that service and the locale \<open>acked_queue\<close> they make of
    the client.
  \<^item> \<open>Job_Repository\<close>, \<open>Task_Repository\<close>: \<open>repositories/\<close>; every method, the recursive query of the
    descendants (equal to the transitive closure), and that each keeps \<open>db_wf\<close>.
  \<^item> \<open>Schemas\<close>: \<open>schemas/job.py\<close>, \<open>utils/cron.py\<close>; the validators of the request bodies.
  \<^item> \<open>Job_Service\<close>: \<open>services/job_service.py\<close>; creation, update, deletion, manual trigger, the derivation
    of the runtime specification and the cycle check, with effects on every branch.
  \<^item> \<open>Api\<close>: \<open>api/v1/tasks.py\<close>, the listing of \<open>api/v1/jobs.py\<close>, the endpoints of \<open>main.py\<close>.
  \<^item> \<open>Execution\<close>: \<open>services/execution_service.py\<close>, \<open>services/kubernetes_execution_service.py\<close>,
    \<open>services/execution_factory.py\<close>; command lines, manifests, and the polling loop that always returns.
  \<^item> \<open>Worker\<close>: \<open>services/worker_service.py\<close>; exclusive claims, the outcome of processing, bounded retries,
    the heartbeat. What other processes do while a worker waits is its parameter \<open>environment\<close>.
  \<^item> \<open>Cron_Scheduler\<close>, \<open>Dependency_Scheduler\<close>: \<open>scheduler/\<close>; a dispatch pass fires exactly the due jobs and
    returns, the cache follows the table, chaining starts exactly the ready jobs once.
  \<^item> \<open>Autoscaler\<close>: \<open>services/autoscaler_service.py\<close>, \<open>services/vm_service.py\<close>, \<open>api/v1/vms.py\<close>; the desired
    size is the least sufficient one and a pass moves towards it without touching the baseline.
  \<^item> \<open>Db_Session\<close>, \<open>Guid\<close>: \<open>db/session.py\<close>, \<open>db/types.py\<close>; routing between primary and replica, the cached
    health check, the pinned scope, the round trip of the identifier column.
  \<^item> \<open>Json_Loads\<close>, \<open>Json_Roundtrip\<close>: \<open>json.loads\<close> and that it reads back what \<open>json.dumps\<close> wrote.
  \<^item> \<open>Queue_Pool\<close>: the worker process of \<open>cli.py\<close>; the handler of a message and the pool as a step relation
    on its event loop.
  \<^item> \<open>Leader_Lock\<close>: \<open>LeaderLock\<close> of \<open>cli.py\<close>; the replicas and the server as a step relation.
  \<^item> \<open>Task_Lifecycle\<close>: the moves of a task row and which of them each operation makes; that an operation sends
    messages only for identifiers it has drawn (\<open>sent_new\<close>).
  \<^item> \<open>Handler_Protocol\<close>: the way of a handler of \<open>cli.py\<close> through \<open>worker_service.py\<close> as a protocol of single
    transactions (\<open>hand_step\<close>), in which only a won claim leads to a run, a run to one record, and an
    outcome to a delete; \<open>handle_message\<close> is a run of it in any environment.
  \<^item> \<open>Scheduler_Process\<close>: \<open>services/scheduler_service.py\<close>, the scheduler and autoscaler loops of \<open>cli.py\<close>
    and its command line.
  \<^item> \<open>Exporter\<close>: \<open>infra/observability/sqs-exporter/app.py\<close>.
  \<^item> \<open>Migrations\<close>: \<open>backend/alembic\<close>; the revisions run on an empty database give the schema the models
    declare, what they do to rows, and that concurrent starters migrate once.
  \<^item> \<open>System\<close>: the processes together. \<open>system_step\<close> interleaves the operations of the API, the workers
    and any number of scheduler replicas over one world; the invariant of its reachable states.
    \<open>service_step\<close> are the steps of the API and the schedulers, \<open>process_step\<close> those of the workers as well, the
    others move messages. It allows more than the code does: any task may be recorded by any worker, and a
    queue may change into any other, so its invariants need no assumption about either.
  \<^item> \<open>Process_Refinement\<close>: the iteration of a scheduler process and the handler of a worker process, as \<open>cli.py\<close>
    runs them, are runs of this system, so its invariants hold of the processes. What a worker needs
    of the steps around it is the locale \<open>worker_host\<close>. What a worker does itself is \<open>Handler_Protocol\<close>.
  \<^item> \<open>Responses\<close>: the response models of \<open>schemas/job.py\<close> and \<open>schemas/task.py\<close>, the endpoints of
    \<open>api/v1/jobs.py\<close> and the binding of their path parameters by \<open>db/types.py\<close>; every stored job satisfies its
    response model.
  \<^item> \<open>Load_Scripts\<close>: \<open>scripts/load_gen.py\<close>, \<open>scripts/retry_gen.py\<close>, \<open>scripts/sched_gen.py\<close> as clients of those
    endpoints; what a run adds to the store, and what the clean-up removes.
  \<^item> \<open>Smoke_Test\<close>: \<open>scripts/e2e_smoke.py\<close>; its verdict as a function of the answers it reads, and what a green
    verdict says of the store when the modelled API answers.
  \<^item> \<open>Dag_Demo\<close>: \<open>scripts/dag_demo.py\<close>; the graph it stores and what its session sees of it.
  \<^item> \<open>Stress_Script\<close>: \<open>scripts/load_gen_scheduler.py\<close>; the rows it writes past the job service, none of which can
    be run or read.
  \<^item> \<open>Delivery\<close>: the way of a run from the request to its end. \<open>posts\<close> says that an operation sends a message
    for every task it makes pending, and every operation of the API and the schedulers does; \<open>pool_round\<close>,
    \<open>run_all\<close> and \<open>worker_process\<close> are the turns of the worker process of \<open>cli.py\<close>, and \<open>work_left\<close>, the messages
    and the runs that are left, is the measure each turn lowers. Over the in-memory queues nothing is
    ever stranded, and enough turns end every task with exactly the rows its retries need.
  \<^item> \<open>At_Least_Once\<close>: the API, the schedulers, the SQS service and the handlers of \<open>Handler_Protocol\<close>, each on
    its own (\<open>plant_step\<close>). Sends may fail and processes may stop, also between a commit and its send; every
    message a queue has taken stays until its task has ended, and \<open>handle_message\<close> is a run of the plant.
  \<^item> \<open>Load_Runs\<close>: \<open>load_gen.py\<close> and the workers together: what it announces is what runs. \<open>retry_gen.py\<close> makes
    exactly twice the failing runs it announces.
  \<^item> \<open>Races\<close>: two updates at once, each with its cycle check before the other has committed.
  \<^item> \<open>Entry_Points\<close>: the loops of \<open>cli.py\<close> for any number of turns, as runs of the system, and the set-up of the
    Kubernetes clients.
  \<^item> This theory: \<open>reachable_store_consistent\<close> and \<open>task_lifecycle\<close>, which hold for every reachable state and
    step of the system, leader or not, whatever the queues do with messages.

  \<^bold>\<open>Granularity.\<close> A step of the system is a claim, a heartbeat, the recording of a result, a request, a sync, a
  recovery pass, and of a dispatch or chaining pass the popping of one entry, the firing of one job, the
  flagging of one success or the triggering of one downstream job. So a lock may expire between a worker's
  claim and its record, and any process may come between two firings of one pass. Creating, updating and
  firing a job are single steps although the code commits the row, the task and then sends the message:
  the steps in between only add rows under fresh keys. The recovery pass is one step as well; the code
  lists the expired tasks first and then releases them one commit at a time, and
  \<open>release_reopens_late_success\<close> shows what a worker that finishes in between loses. The transactions of two
  requests are taken one after the other; where they overlap the cycle check of each misses the edges of
  the other, and \<open>overlapping_updates_store_a_cycle\<close> shows the cycle this can store. In \<open>Delivery\<close> a turn of a worker
  process is one step, its pools and their handlers run one after the other, where \<open>cli.py\<close> runs them
  concurrently, with the full budget each turn, and nothing crashes. \<open>At_Least_Once\<close> is about the
  other case: a claim, a record, a receive, a delete and a crash are steps of their own there, every send may
  fail or be cut off by the end of its process, and a worker may stop between marking an attempt as failed
  and creating the next. A task whose process stopped before the send has no message, and nothing sends
  one later; the theorem is about the messages that a queue has taken. Requests are single up to their send there
  too, and so is the recovery of expired locks.

  \<^bold>\<open>Loops and fuel.\<close> \<open>dispatch_loop\<close> is a partial function whose termination is proved from
  \<open>croniter_advances\<close>: each entry due is replaced by one that is not. The loop of the descendants
  recurses on the jobs not yet visited, the Kubernetes poll on the readings of a clock that passes the
  deadline, the paged listing of \<open>sched_gen.py\<close> on the jobs not yet listed. The endless loops of the processes
  are functions of a number of turns; \<open>work_left\<close> turns are enough for the workers to end everything. Since the
  128 bits of a UUID are finite, the theorems of \<open>Delivery\<close> are about histories that need at most
  \<open>k\<close> identifiers, of which only the first \<open>k\<close> of the source have to be UUIDs, and the one of
  \<open>At_Least_Once\<close> asks it of the identifiers drawn so far. \<open>json_loads\<close> gives its recursive descent twice the length of the text and one as fuel, and
  \<open>pvalue_fuel\<close> proves that more never changes the answer.

  \<^bold>\<open>Not modelled.\<close> \<open>core/logging.py\<close> and the log lines; the generation of SQL text by Alembic (the
  migrations are modelled by what their operations do); the command lines, the progress and the coloured output of the
  scripts; the frontend, manifests and dashboards, which are in other languages; the reading of the environment
  into the settings (pydantic); abbreviated options of \<open>argparse\<close>; Python's limits on recursion depth and
  on the digits of an integer inside \<open>json.loads\<close>; the lengths of the visibility timeouts and of the
  retention of messages in SQS: a held message may be handed out again at any time and never expires. There is one
  database: the plain selects of a fresh session go to a streaming replica when it is healthy, whose lag is
  left out (\<open>Db_Session\<close> models which connection a statement gets); the cached health check is run by one
  thread at a time. The lengths of \<open>String(255)\<close> columns, the range of 32-bit \<open>Integer\<close> columns and the key order that
  JSONB does not keep are not part of the rows.
\<close>

subsection \<open>Properties of the system\<close>



text \<open>(C3) The life of a task, over every step of the running system: a task disappears only with its job; its
  job, attempt number, trigger and creation time never change; its status moves only from pending to
  running, from running back to pending, or to an outcome, so a task that has ended stays ended, although
  another outcome may replace the first; and a row that appears is pending under an identifier that was not in
  use. A recovery of expired locks is one step here: a worker that finishes inside one can be undone
  (\<open>release_reopens_late_success\<close>).\<close>

theorem task_lifecycle:
  assumes adv: "croniter_advances cr" and start: "store_inv cfg w0"
    and reach: "system_reachable cfg cr lax_int qc w0 S" and step: "system_step cfg cr lax_int qc S S'"
  shows "(\<forall>t \<in> set (tasks (db (world S))).
      (\<exists>t' \<in> set (tasks (db (world S'))). task_moves t t') \<or> task_job_id t \<notin> job_ids (db (world S'))) \<and>
    (\<forall>t' \<in> set (tasks (db (world S'))).
      (\<exists>t \<in> set (tasks (db (world S))). task_moves t t') \<or> (status t' = pending \<and> tid t' \<notin> task_ids (db (world S))))"
proof -
  have inv: "system_inv cfg S" by (rule system_reachable_inv [OF adv start reach])
  note S' = system_step_inv [OF adv step inv]
  have "distinct (map tid (tasks (db (world S'))))"
    using S' by (simp add: system_inv_def store_inv_def db_wf_def keys_ok_def)
  then show ?thesis
    using S' tasks_step_rows unfolding tasks_change_def by fastforce
qed

definition claimed_world :: "mem_queue world" where
  "claimed_world = snd (claim_task sample_worker ''aa'' (world one_job_system))"

text \<open>The step is a real one: the task of the new job goes from pending to running.\<close>

lemma claimed_world_runs:
  "map status (tasks (db (world one_job_system))) = [pending]"
  "map status (tasks (db claimed_world)) = [running]"
  "map task_job_id (tasks (db (world one_job_system))) = map jid (jobs (db claimed_world))"
  by code_simp+

theorem task_lifecycle_witness:
  "\<exists>t t'. tasks (db (world one_job_system)) = [t] \<and> tasks (db claimed_world) = [t'] \<and> task_moves t t'"
proof -
  obtain r where c: "claim_task sample_worker ''aa'' (world one_job_system) = (r, claimed_world)"
    by (metis claimed_world_def prod.collapse)
  have "system_step default_settings minutely strict_int MemoryQueueClient one_job_system (one_job_system\<lparr>world := claimed_world\<rparr>)"
    by (rule worker_claims [OF c])
  note life = task_lifecycle [OF minutely_advances empty_start one_job_reachable this]
  obtain t t' where "tasks (db (world one_job_system)) = [t]" "tasks (db claimed_world) = [t']"
    using claimed_world_runs(1,2) by (auto simp: map_eq_Cons_conv)
  with life claimed_world_runs(3) show ?thesis by (auto simp: job_ids_def)
qed

end
